(* ===== verification/Prelude.thy ===== *)
theory Prelude
  imports Main "HOL-Library.Word" "HOL-Library.Code_Target_Nat"
begin

text \<open>
  What every component of the model shares: the faults a C++ run can end in, the machine
  integers of the source (\<open>size_t\<close> kept as a natural number with its wrap-around
  written out, \<open>int\<close> as an integer with its two's complement conversion), raw memory as
  a list that is overwritten in place, the transition systems used for the concurrent parts,
  and the theorem collections the component theories add to.
\<close>

section \<open>Collections\<close>

named_theorems cpp_defs \<open>definitions a component proof unfolds\<close>
named_theorems size_simps \<open>facts about size_t arithmetic\<close>
named_theorems inv_intros \<open>preservation facts of component invariants\<close>

section \<open>Faults\<close>

text \<open>
  An exception, a failed assertion, a call of abort and undefined behaviour all end the run
  the model follows; they are values of \<open>fault\<close>, carried on the left of a sum.
\<close>

datatype fault =
    Out_Of_Range
  | Invalid_Argument
  | Assertion_Failed
  | Aborted
  | Undefined_Behaviour

type_synonym 'a result = "fault + 'a"

fun bind_result :: "'a result \<Rightarrow> ('a \<Rightarrow> 'b result) \<Rightarrow> 'b result" where
  "bind_result (Inl e) f = Inl e"
| "bind_result (Inr x) f = f x"

lemma bind_result_Inr: "bind_result r f = Inr y \<longleftrightarrow> (\<exists>x. r = Inr x \<and> f x = Inr y)"
  by (cases r) auto

lemma bind_result_assoc:
  "bind_result (bind_result r f) g = bind_result r (\<lambda>x. bind_result (f x) g)"
  by (cases r) auto

text \<open>
  A run that waits for the kernel may not have returned yet: \<open>None\<close>.
\<close>

type_synonym 'a outcome = "'a result option"

fun bind_outcome :: "'a outcome \<Rightarrow> ('a \<Rightarrow> 'b outcome) \<Rightarrow> 'b outcome" where
  "bind_outcome None f = None"
| "bind_outcome (Some (Inl e)) f = Some (Inl e)"
| "bind_outcome (Some (Inr x)) f = f x"

lemma outcome_cases:
  obtains "r = None" | e where "r = Some (Inl e)" | x where "r = Some (Inr x)"
  by (metis option.exhaust sum.exhaust)

lemma bind_outcome_assoc:
  "bind_outcome (bind_outcome r f) g = bind_outcome r (\<lambda>x. bind_outcome (f x) g)"
  by (rule outcome_cases [of r]) simp_all

lemma bind_outcome_Inr_id [simp]: "bind_outcome r (\<lambda>s. Some (Inr s)) = r"
  by (rule outcome_cases [of r]) simp_all

lemma bind_outcome_cong_Inr:
  assumes "\<And>x. r = Some (Inr x) \<Longrightarrow> f x = g x"
  shows "bind_outcome r f = bind_outcome r g"
  using assms by (rule_tac outcome_cases [of r]) simp_all

lemma bind_outcome_Some_Inr:
  "bind_outcome r f = Some (Inr y) \<longleftrightarrow> (\<exists>x. r = Some (Inr x) \<and> f x = Some (Inr y))"
  by (rule outcome_cases [of r]) auto

section \<open>Machine integers\<close>

text \<open>
  \<open>size_t\<close> is 64 bits wide. \<open>npos\<close> is \<open>std::string::npos\<close>, its largest value.
\<close>

definition size_max :: nat where
  "size_max = 18446744073709551616"

definition npos :: nat where
  "npos = 18446744073709551615"

definition size_add :: "nat \<Rightarrow> nat \<Rightarrow> nat" where
  "size_add a b = (a + b) mod size_max"

definition size_sub :: "nat \<Rightarrow> nat \<Rightarrow> nat" where
  "size_sub a b = (a + size_max - b) mod size_max"

definition int_to_size :: "int \<Rightarrow> nat" where
  "int_to_size x = nat (x mod 18446744073709551616)"

definition to_int32 :: "int \<Rightarrow> int" where
  "to_int32 x = (x + 2147483648) mod 4294967296 - 2147483648"

lemma size_max_pow: "size_max = 2 ^ 64"
  by (simp add: size_max_def)

lemma npos_less [size_simps]: "npos < size_max"
  by (simp add: npos_def size_max_def)

lemma size_add_npos [size_simps]: "size_add npos 1 = 0" "size_add npos (Suc 0) = 0"
  by (simp_all add: size_add_def npos_def size_max_def)

lemma size_add_small [size_simps]: "a + b < size_max \<Longrightarrow> size_add a b = a + b"
  by (simp add: size_add_def)

lemma size_sub_small [size_simps]:
  assumes "b \<le> a" and "a < size_max"
  shows "size_sub a b = a - b"
proof -
  have "a + size_max - b = (a - b) + size_max" using assms by simp
  then have "size_sub a b = (a - b) mod size_max" unfolding size_sub_def by (metis mod_add_self2)
  then show ?thesis using assms by simp
qed

lemma int_to_size_small [size_simps]:
  "0 \<le> x \<Longrightarrow> x < 18446744073709551616 \<Longrightarrow> int_to_size x = nat x"
  by (simp add: int_to_size_def)

lemma int_to_size_bound: "int_to_size x < size_max"
proof -
  have "x mod 18446744073709551616 < (18446744073709551616::int)"
    by (rule pos_mod_bound) simp
  then have "nat (x mod 18446744073709551616) < nat 18446744073709551616"
    by (subst nat_less_eq_zless) simp_all
  then show ?thesis by (simp add: int_to_size_def size_max_def)
qed

lemma to_int32_small [size_simps]: "- 2147483648 \<le> x \<Longrightarrow> x < 2147483648 \<Longrightarrow> to_int32 x = x"
  by (simp add: to_int32_def)

lemma to_int32_npos [size_simps]: "to_int32 (int npos) = - 1"
  by (simp add: to_int32_def npos_def)

lemma to_int32_bounds: "- 2147483648 \<le> to_int32 x \<and> to_int32 x < 2147483648"
  using pos_mod_sign [of 4294967296 "x + 2147483648"] pos_mod_bound [of 4294967296 "x + 2147483648"]
  by (simp add: to_int32_def)

section \<open>Raw memory\<close>

text \<open>
  A block of memory is the list of its cells; a copy into it overwrites as many cells as are
  copied, and copying past the end is undefined behaviour.
\<close>

definition mem_write :: "'a list \<Rightarrow> nat \<Rightarrow> 'a list \<Rightarrow> 'a list result" where
  "mem_write m p bs =
     (if p + length bs \<le> length m then Inr (take p m @ bs @ drop (p + length bs) m)
      else Inl Undefined_Behaviour)"

lemma mem_write_length: "mem_write m p bs = Inr m' \<Longrightarrow> length m' = length m"
  by (auto simp: mem_write_def split: if_splits)

lemma mem_write_take: "mem_write m p bs = Inr m' \<Longrightarrow> k \<le> p \<Longrightarrow> take k m' = take k m"
  by (auto simp: mem_write_def split: if_splits)

lemma mem_write_block: "mem_write m p bs = Inr m' \<Longrightarrow> take (length bs) (drop p m') = bs"
  by (auto simp: mem_write_def split: if_splits)

lemma mem_write_ok: "p + length bs \<le> length m \<Longrightarrow> \<exists>m'. mem_write m p bs = Inr m'"
  by (simp add: mem_write_def)

lemma mem_write_prefix:
  "mem_write m p bs = Inr m' \<Longrightarrow> n \<le> length bs \<Longrightarrow> take (p + n) m' = take p m @ take n bs"
  by (auto simp: mem_write_def min_def split: if_splits)

section \<open>Transition systems\<close>

text \<open>
  The concurrent components are step relations. The locale gives what they share: the states a
  run reaches, and that a property kept by every step holds in all of them.
\<close>

inductive run :: "('s \<Rightarrow> 's \<Rightarrow> bool) \<Rightarrow> 's \<Rightarrow> 's \<Rightarrow> bool" for step where
  run_refl: "run step s s"
| run_step: "run step s t \<Longrightarrow> step t u \<Longrightarrow> run step s u"

lemma run_single: "step s t \<Longrightarrow> run step s t"
  by (rule run_step [OF run_refl])

lemma run_trans: "run step t u \<Longrightarrow> run step s t \<Longrightarrow> run step s u"
  by (induction rule: run.induct) (auto intro: run.intros)

locale invariant_system =
  fixes init :: "'s \<Rightarrow> bool"
    and step :: "'s \<Rightarrow> 's \<Rightarrow> bool"
    and inv :: "'s \<Rightarrow> bool"
  assumes init_inv: "init s \<Longrightarrow> inv s"
    and step_inv: "inv s \<Longrightarrow> step s t \<Longrightarrow> inv t"
begin

lemma run_inv:
  assumes "run step s t" and "inv s"
  shows "inv t"
  using assms by (induction rule: run.induct) (auto intro: step_inv)

lemma reach_inv: "init s \<Longrightarrow> run step s t \<Longrightarrow> inv t"
  by (rule run_inv) (auto intro: init_inv)

end

text \<open>
  A finer system follows a coarser one: every step of it, in a state its invariant admits, is some
  number of steps of the coarser system on what the abstraction keeps of the state.
\<close>

locale simulation = invariant_system init cstep inv
  for init :: "'c \<Rightarrow> bool" and cstep :: "'c \<Rightarrow> 'c \<Rightarrow> bool" and inv :: "'c \<Rightarrow> bool" +
  fixes astep :: "'a \<Rightarrow> 'a \<Rightarrow> bool"
    and abs_of :: "'c \<Rightarrow> 'a"
  assumes follows: "inv s \<Longrightarrow> cstep s t \<Longrightarrow> run astep (abs_of s) (abs_of t)"
begin

lemma run_follows:
  assumes "run cstep s t" and "inv s"
  shows "run astep (abs_of s) (abs_of t)"
  using assms
proof (induction rule: run.induct)
  case (run_step s t u)
  have "inv t" by (rule run_inv [OF run_step.hyps(1) run_step.prems])
  from follows [OF this run_step.hyps(2)] show ?case by (rule run_trans) (rule run_step.IH [OF run_step.prems])
qed (rule run_refl)

lemma reach_follows: "init s \<Longrightarrow> run cstep s t \<Longrightarrow> run astep (abs_of s) (abs_of t)"
  by (rule run_follows [OF _ init_inv])

end

end
