(* ===== verification/Cpp_String.thy ===== *)
theory Cpp_String
  imports Prelude
begin

text \<open>
  The part of \<open>std::string\<close> the program uses: \<open>find\<close> of a character and of a string,
  \<open>substr\<close>, the range constructor, \<open>std::to_string\<close> and \<open>std::stoi\<close>. Positions are
  \<open>size_t\<close>; a failed search returns \<open>npos\<close>. A string of the model stands for one a machine
  can hold when its length is below \<open>npos\<close>, which the lemmas ask for where it matters.
\<close>

section \<open>Searching\<close>

fun index_from :: "('a \<Rightarrow> bool) \<Rightarrow> nat \<Rightarrow> 'a list \<Rightarrow> nat option" where
  "index_from P k [] = None"
| "index_from P k (x # xs) = (if P x then Some k else index_from P (Suc k) xs)"

definition find_char :: "char \<Rightarrow> string \<Rightarrow> nat \<Rightarrow> nat" where
  "find_char c s pos =
     (if pos \<le> length s
      then (case index_from ((=) c) pos (drop pos s) of None \<Rightarrow> npos | Some i \<Rightarrow> i)
      else npos)"

fun is_prefix :: "string \<Rightarrow> string \<Rightarrow> bool" where
  "is_prefix [] s = True"
| "is_prefix (c # cs) [] = False"
| "is_prefix (c # cs) (d # ds) = (c = d \<and> is_prefix cs ds)"

fun index_str :: "string \<Rightarrow> nat \<Rightarrow> string \<Rightarrow> nat option" where
  "index_str t k [] = (if t = [] then Some k else None)"
| "index_str t k (x # xs) = (if is_prefix t (x # xs) then Some k else index_str t (Suc k) xs)"

definition find_str :: "string \<Rightarrow> string \<Rightarrow> nat" where
  "find_str t s = (case index_str t 0 s of None \<Rightarrow> npos | Some i \<Rightarrow> i)"

lemma index_from_None: "index_from P k xs = None \<longleftrightarrow> (\<forall>x\<in>set xs. \<not> P x)"
  by (induction xs arbitrary: k) auto

lemma index_from_Some_bounds: "index_from P k xs = Some i \<Longrightarrow> k \<le> i \<and> i < k + length xs"
  by (induction xs arbitrary: k) (fastforce split: if_splits)+

lemma index_from_append:
  "\<forall>x\<in>set xs. \<not> P x \<Longrightarrow> index_from P k (xs @ ys) = index_from P (k + length xs) ys"
  by (induction xs arbitrary: k) auto

lemma index_from_Some_nth: "index_from P k xs = Some i \<Longrightarrow> P (xs ! (i - k))"
proof (induction xs arbitrary: k)
  case (Cons x xs)
  show ?case
  proof (cases "P x")
    case False
    with Cons.prems have *: "index_from P (Suc k) xs = Some i" by simp
    then have "P (xs ! (i - Suc k))" by (rule Cons.IH)
    moreover have "Suc k \<le> i" using index_from_Some_bounds [OF *] by simp
    ultimately show ?thesis by (simp add: nth_Cons' Suc_diff_le)
  qed (use Cons.prems in simp)
qed simp

lemma is_prefix_append [simp]: "is_prefix t (t @ s)"
  by (induction t) auto

lemma is_prefix_iff: "is_prefix t s \<longleftrightarrow> (\<exists>u. s = t @ u)"
  by (induction t s rule: is_prefix.induct) auto

lemma find_char_at:
  assumes "s = xs @ c # ys" and "pos \<le> length xs" and "c \<notin> set (drop pos xs)"
  shows "find_char c s pos = length xs"
proof -
  have "index_from ((=) c) pos (drop pos xs @ c # ys) = Some (length xs)"
    using assms(2,3) by (subst index_from_append) auto
  then show ?thesis using assms(1,2) by (simp add: find_char_def)
qed

lemma find_char_none:
  assumes "c \<notin> set (drop pos s)"
  shows "find_char c s pos = npos"
proof -
  have "index_from ((=) c) pos (drop pos s) = None"
    using assms by (auto simp: index_from_None)
  then show ?thesis by (simp add: find_char_def)
qed

lemma find_char_npos [simp]: "length s < npos \<Longrightarrow> find_char c s npos = npos"
  by (simp add: find_char_def)

lemma find_char_less:
  assumes "find_char c s pos \<noteq> npos"
  shows "find_char c s pos < length s \<and> pos \<le> find_char c s pos \<and> s ! find_char c s pos = c"
proof (cases "index_from ((=) c) pos (drop pos s)")
  case None
  then show ?thesis using assms by (simp add: find_char_def split: if_splits)
next
  case (Some i)
  have "pos \<le> length s" using assms by (rule contrapos_np) (simp add: find_char_def)
  moreover from Some have "drop pos s ! (i - pos) = c"
    by (auto dest: index_from_Some_nth)
  ultimately show ?thesis
    using Some index_from_Some_bounds [OF Some] by (simp add: find_char_def)
qed

lemma index_str_here: "is_prefix t s \<Longrightarrow> index_str t k s = Some k"
  by (cases s; cases t) auto

lemma split_at_char:
  assumes "c \<in> set s"
  shows "s = takeWhile (\<lambda>d. d \<noteq> c) s @ c # tl (dropWhile (\<lambda>d. d \<noteq> c) s)"
proof -
  have "dropWhile (\<lambda>d. d \<noteq> c) s \<noteq> []" using assms by (simp add: dropWhile_eq_Nil_conv)
  then have "dropWhile (\<lambda>d. d \<noteq> c) s = c # tl (dropWhile (\<lambda>d. d \<noteq> c) s)"
    using hd_dropWhile [of "\<lambda>d. d \<noteq> c" s] by (cases "dropWhile (\<lambda>d. d \<noteq> c) s") auto
  then show ?thesis by (metis takeWhile_dropWhile_id)
qed

lemma find_char_0:
  "c \<in> set s \<Longrightarrow> find_char c s 0 = length (takeWhile (\<lambda>d. d \<noteq> c) s)"
  by (rule find_char_at [OF split_at_char]) (auto dest: set_takeWhileD)

lemma find_str_prefix [simp]: "find_str t (t @ s) = 0"
  by (simp add: find_str_def index_str_here)

lemma index_str_bounds: "index_str t k s = Some i \<Longrightarrow> k \<le> i \<and> i \<le> k + length s"
  by (induction t k s rule: index_str.induct) (auto split: if_splits)

lemma find_str_le: "find_str t s \<noteq> npos \<Longrightarrow> find_str t s \<le> length s"
  using index_str_bounds [of t 0 s] by (auto simp: find_str_def split: option.splits)

lemma index_str_skip:
  "hd t \<notin> set xs \<Longrightarrow> t \<noteq> [] \<Longrightarrow> index_str t k (xs @ ys) = index_str t (k + length xs) ys"
  by (induction xs arbitrary: k) (cases t, auto)+

lemma index_str_inside: "\<exists>i. index_str t k (a @ t @ b) = Some i \<and> k \<le> i \<and> i \<le> k + length a"
proof (induction a arbitrary: k)
  case Nil
  show ?case by (simp add: index_str_here)
next
  case (Cons x a)
  obtain i where i: "index_str t (Suc k) (a @ t @ b) = Some i" "Suc k \<le> i" "i \<le> Suc k + length a"
    using Cons.IH by blast
  show ?case
  proof (cases "is_prefix t (x # a @ t @ b)")
    case True
    then show ?thesis by simp
  next
    case False
    then show ?thesis using i by simp
  qed
qed

section \<open>Cutting\<close>

definition substr :: "string \<Rightarrow> nat \<Rightarrow> nat \<Rightarrow> string result" where
  "substr s pos n = (if pos > length s then Inl Out_Of_Range else Inr (take n (drop pos s)))"

text \<open>\<open>string(s.begin() + a, s.begin() + b)\<close> is defined for a range inside the string only.\<close>

definition range_string :: "string \<Rightarrow> int \<Rightarrow> int \<Rightarrow> string result" where
  "range_string s a b =
     (if 0 \<le> a \<and> a \<le> b \<and> b \<le> int (length s) then Inr (take (nat (b - a)) (drop (nat a) s))
      else Inl Undefined_Behaviour)"

lemma substr_ok [simp]: "pos \<le> length s \<Longrightarrow> substr s pos n = Inr (take n (drop pos s))"
  by (simp add: substr_def)

lemma range_string_mid:
  assumes "s = a @ m @ b" and "i = int (length a)" and "j = int (length a + length m)"
  shows "range_string s i j = Inr m"
  using assms by (simp add: range_string_def)

section \<open>Decimal text\<close>

definition digit_char :: "nat \<Rightarrow> char" where
  "digit_char d = ''0123456789'' ! d"

fun dec_nat :: "nat \<Rightarrow> string" where
  "dec_nat n = (if n < 10 then [digit_char n] else dec_nat (n div 10) @ [digit_char (n mod 10)])"

declare dec_nat.simps [simp del]

definition to_string :: "int \<Rightarrow> string" where
  "to_string x = (if x < 0 then CHR ''-'' # dec_nat (nat (- x)) else dec_nat (nat x))"

definition digit_value :: "char \<Rightarrow> nat option" where
  "digit_value c = index_from ((=) c) 0 ''0123456789''"

fun parse_digits :: "nat \<Rightarrow> string \<Rightarrow> nat" where
  "parse_digits acc [] = acc"
| "parse_digits acc (c # cs) =
     (case digit_value c of None \<Rightarrow> acc | Some d \<Rightarrow> parse_digits (10 * acc + d) cs)"

definition is_space :: "char \<Rightarrow> bool" where
  "is_space c = (c \<in> {CHR '' '', CHR 0x09, CHR 0x0A, CHR 0x0B, CHR 0x0C, CHR 0x0D})"

text \<open>
  \<open>std::stoi\<close> in base 10: leading white space, an optional sign, then at least one digit,
  else \<open>std::invalid_argument\<close>; a value outside \<open>int\<close> raises \<open>std::out_of_range\<close>; what
  follows the digits is ignored.
\<close>

fun sign_split :: "string \<Rightarrow> int \<times> string" where
  "sign_split (c # cs) =
     (if c = CHR ''-'' then (- 1, cs) else if c = CHR ''+'' then (1, cs) else (1, c # cs))"
| "sign_split [] = (1, [])"

definition stoi :: "string \<Rightarrow> int result" where
  "stoi s =
     (let (sg, ds) = sign_split (dropWhile is_space s) in
      case ds of
        [] \<Rightarrow> Inl Invalid_Argument
      | c # cs \<Rightarrow>
          if digit_value c = None then Inl Invalid_Argument
          else let v = sg * int (parse_digits 0 ds) in
            if - 2147483648 \<le> v \<and> v < 2147483648 then Inr v else Inl Out_Of_Range)"

lemma digit_value_char [simp]: "d < 10 \<Longrightarrow> digit_value (digit_char d) = Some d"
proof -
  assume "d < 10"
  then have "d \<in> {0, 1, 2, 3, 4, 5, 6, 7, 8, 9}" by auto
  then show ?thesis by (elim insertE) (simp_all add: digit_value_def digit_char_def)
qed

lemma parse_digits_snoc:
  "\<forall>c\<in>set cs. digit_value c \<noteq> None \<Longrightarrow> d < 10 \<Longrightarrow>
   parse_digits acc (cs @ [digit_char d]) = 10 * parse_digits acc cs + d"
  by (induction cs arbitrary: acc) (auto split: option.splits)

lemma dec_nat_digits: "c \<in> set (dec_nat n) \<Longrightarrow> digit_value c \<noteq> None"
proof (induction n rule: dec_nat.induct)
  case (1 n)
  then show ?case by (subst (asm) (2) dec_nat.simps) (auto split: if_splits)
qed

lemma dec_nat_nonempty [simp]: "dec_nat n \<noteq> []"
  by (subst dec_nat.simps) simp

lemma parse_dec_nat [simp]: "parse_digits 0 (dec_nat n) = n"
proof (induction n rule: dec_nat.induct)
  case (1 n)
  show ?case
  proof (cases "n < 10")
    case True
    then show ?thesis by (subst dec_nat.simps) simp
  next
    case False
    with 1 have "parse_digits 0 (dec_nat (n div 10)) = n div 10" by simp
    moreover have "\<forall>c\<in>set (dec_nat (n div 10)). digit_value c \<noteq> None"
      using dec_nat_digits by blast
    ultimately show ?thesis using False
      by (subst dec_nat.simps) (simp add: parse_digits_snoc)
  qed
qed

lemma dec_nat_length: "n < 10 ^ k \<Longrightarrow> 0 < k \<Longrightarrow> length (dec_nat n) \<le> k"
proof (induction n arbitrary: k rule: dec_nat.induct)
  case (1 n)
  show ?case
  proof (cases "n < 10")
    case True
    with 1 show ?thesis by (subst dec_nat.simps) simp
  next
    case False
    with 1(2,3) obtain j where j: "k = Suc j" "0 < j"
      by (cases k) (auto, metis bot_nat_0.not_eq_extremum power_0 power_one_right mult.right_neutral)
    with 1(2) have "n div 10 < 10 ^ j" by (simp add: div_less_iff_less_mult mult.commute)
    with 1(1) False j(2) have "length (dec_nat (n div 10)) \<le> j" by blast
    with False j show ?thesis by (subst dec_nat.simps) simp
  qed
qed

end
