(* ===== verification/Http_Types.thy ===== *)
theory Http_Types
  imports Cpp_String
begin

text \<open>
  The data of \<open>HttpData.h\<close>: the state enumerations with the source's constructors, and the
  fields of class \<open>HttpData\<close> as the record \<open>http_data\<close>. Pointers are identifiers: the
  event loop and the channel are numbers, the weak pointer to the timer is an optional number.
\<close>

section \<open>Enumerations\<close>

datatype ProcessState =
    STATE_PARSE_URI
  | STATE_PARSE_HEADERS
  | STATE_RECV_BODY
  | STATE_ANALYSIS
  | STATE_FINISH

datatype URIState =
    PARSE_URI_AGAIN
  | PARSE_URI_ERROR
  | PARSE_URI_SUCCESS

datatype HeaderState =
    PARSE_HEADER_SUCCESS
  | PARSE_HEADER_AGAIN
  | PARSE_HEADER_ERROR

datatype AnalysisState =
    ANALYSIS_SUCCESS
  | ANALYSIS_ERROR

datatype ConnectionState =
    H_CONNECTED
  | H_DISCONNECTING
  | H_DISCONNECTED

datatype ParseState =
    H_START
  | H_KEY
  | H_COLON
  | H_SPACES_AFTER_COLON
  | H_VALUE
  | H_CR
  | H_LF
  | H_END_CR
  | H_END_LF

datatype HttpMethod =
    METHOD_POST
  | METHOD_GET
  | METHOD_HEAD

datatype HttpVersion =
    HTTP_10
  | HTTP_11

text \<open>
  The numbers the enumeration gives the processing states order the phases of a request; with
  them the type is a linear order.
\<close>

fun process_number :: "ProcessState \<Rightarrow> nat" where
  "process_number STATE_PARSE_URI = 1"
| "process_number STATE_PARSE_HEADERS = 2"
| "process_number STATE_RECV_BODY = 3"
| "process_number STATE_ANALYSIS = 4"
| "process_number STATE_FINISH = 5"

lemma process_number_inject: "process_number a = process_number b \<Longrightarrow> a = b"
  by (cases a; cases b) simp_all

instantiation ProcessState :: linorder
begin

definition less_eq_ProcessState :: "ProcessState \<Rightarrow> ProcessState \<Rightarrow> bool" where
  "less_eq_ProcessState a b = (process_number a \<le> process_number b)"

definition less_ProcessState :: "ProcessState \<Rightarrow> ProcessState \<Rightarrow> bool" where
  "less_ProcessState a b = (process_number a < process_number b)"

instance
  by standard
    (auto simp: less_eq_ProcessState_def less_ProcessState_def intro: process_number_inject)

end

section \<open>The class\<close>

record http_data =
  event_loop :: nat
  channel :: nat
  fd :: nat
  buffer_in :: string
  buffer_out :: string
  is_error :: bool
  file_name :: string
  path :: string
  read_cur :: int
  keep_alive :: bool
  headers :: "string \<rightharpoonup> string"
  timer :: "nat option"
  connection_state :: ConnectionState
  http_method :: HttpMethod
  http_version :: HttpVersion
  process_state :: ProcessState
  parse_state :: ParseState

text \<open>
  The constructor's initialiser list. The source misspells \<open>parse_state_\<close> there; the model
  takes the value it writes, \<open>H_START\<close>.
\<close>

definition new_http_data :: "nat \<Rightarrow> nat \<Rightarrow> nat \<Rightarrow> http_data" where
  "new_http_data loop chan connection_fd =
     \<lparr>event_loop = loop, channel = chan, fd = connection_fd,
      buffer_in = [], buffer_out = [], is_error = False,
      file_name = [], path = [], read_cur = 0, keep_alive = False,
      headers = Map.empty, timer = None,
      connection_state = H_CONNECTED, http_method = METHOD_GET, http_version = HTTP_11,
      process_state = STATE_PARSE_URI, parse_state = H_START\<rparr>"

end
