(* ===== verification/Http_Parse.thy ===== *)
theory Http_Parse
  imports Http_Types
begin

text \<open>
  \<open>HttpData::parse_URI\<close> and \<open>HttpData::parse_Headers\<close> of \<open>HttpData.cpp\<close>: the request
  line parser with its \<open>size_t\<close> positions (a failed \<open>find\<close> is \<open>npos\<close>, a large number,
  so the source's tests \<open>cur < 0\<close> never hold) and the header automaton with the local
  indices that start at -1 in every call.
\<close>

section \<open>The request line\<close>

definition CR :: char where "CR = CHR 0x0D"

definition LF :: char where "LF = CHR 0x0A"

lemma CR_LF [simp]: "CR \<noteq> LF" "LF \<noteq> CR" "CR \<noteq> CHR '':''" "LF \<noteq> CHR '':''"
  "CR \<noteq> CHR '' ''" "CR \<noteq> CHR ''r''" "LF \<noteq> CHR ''r''" "CHR '':'' \<noteq> CR" "CHR '' '' \<noteq> CR"
  "CHR '':'' \<noteq> LF" "CHR ''r'' \<noteq> CR" "CHR ''r'' \<noteq> LF" "CHR ''/'' \<noteq> CR" "CR \<noteq> CHR ''/''"
  "LF \<noteq> CHR '' ''" "CHR '' '' \<noteq> LF"
  by (simp_all add: CR_def LF_def)

definition parse_version :: "string \<Rightarrow> nat \<Rightarrow> http_data \<Rightarrow> (URIState \<times> http_data) result" where
  "parse_version request_line cur0 h =
     (let cur = find_char CHR ''/'' request_line cur0 in
      if cur < 0 then Inr (PARSE_URI_ERROR, h)
      else if size_sub (length request_line) cur \<le> 3 then Inr (PARSE_URI_ERROR, h)
      else bind_result (substr request_line (size_add cur 1) 3) (\<lambda>version.
        if version = ''1.0'' then Inr (PARSE_URI_SUCCESS, h\<lparr>http_version := HTTP_10\<rparr>)
        else if version = ''1.1'' then Inr (PARSE_URI_SUCCESS, h\<lparr>http_version := HTTP_11\<rparr>)
        else Inr (PARSE_URI_ERROR, h)))"

definition parse_file_name :: "string \<Rightarrow> nat \<Rightarrow> nat \<Rightarrow> string result" where
  "parse_file_name request_line cur cur' =
     (if size_sub cur' cur > 1
      then bind_result (substr request_line (size_add cur 1) (size_sub (size_sub cur' cur) 1)) (\<lambda>f.
        let q = find_char CHR ''?'' f 0 in if q \<ge> 0 then substr f 0 q else Inr f)
      else Inr ''index.html'')"

definition parse_path :: "string \<Rightarrow> nat \<Rightarrow> http_data \<Rightarrow> (URIState \<times> http_data) result" where
  "parse_path request_line cur0 h =
     (let cur = find_char CHR ''/'' request_line cur0 in
      if cur < 0
      then Inr (PARSE_URI_SUCCESS, h\<lparr>file_name := ''index.html'', http_version := HTTP_11\<rparr>)
      else let cur' = find_char CHR '' '' request_line cur in
        if cur' < 0 then Inr (PARSE_URI_ERROR, h)
        else bind_result (parse_file_name request_line cur cur') (\<lambda>f.
          parse_version request_line cur' (h\<lparr>file_name := f\<rparr>)))"

definition parse_method :: "string \<Rightarrow> http_data \<Rightarrow> (URIState \<times> http_data) result" where
  "parse_method request_line h =
     (let cur_get = to_int32 (int (find_str ''GET'' request_line));
          cur_post = to_int32 (int (find_str ''POST'' request_line));
          cur_head = to_int32 (int (find_str ''HEAD'' request_line)) in
      if cur_get \<ge> 0 then parse_path request_line (int_to_size cur_get) (h\<lparr>http_method := METHOD_GET\<rparr>)
      else if cur_post \<ge> 0 then parse_path request_line (int_to_size cur_post) (h\<lparr>http_method := METHOD_POST\<rparr>)
      else if cur_head \<ge> 0 then parse_path request_line (int_to_size cur_head) (h\<lparr>http_method := METHOD_HEAD\<rparr>)
      else Inr (PARSE_URI_ERROR, h))"

definition parse_URI :: "http_data \<Rightarrow> (URIState \<times> http_data) result" where
  "parse_URI h =
     (let string1 = buffer_in h;
          cur = find_char CR string1 (int_to_size (read_cur h)) in
      if cur < 0 then Inr (PARSE_URI_AGAIN, h)
      else bind_result (substr string1 0 cur) (\<lambda>request_line.
        bind_result (if length string1 > size_add cur 1 then substr string1 (size_add cur 1) npos
                     else Inr []) (\<lambda>rest.
          parse_method request_line (h\<lparr>buffer_in := rest\<rparr>))))"

section \<open>The header automaton\<close>

text \<open>
  The locals of \<open>parse_Headers\<close> with the two members it writes while scanning. One step is
  the body of the \<open>for\<close> loop: it goes on, returns \<open>PARSE_HEADER_ERROR\<close>, or is undefined
  (a range constructor over indices that were never set).
\<close>

record header_scan =
  key_start :: int
  key_end :: int
  value_start :: int
  value_end :: int
  scan_cur :: int
  finished :: bool
  scan_state :: ParseState
  scan_headers :: "string \<rightharpoonup> string"

datatype scan_step =
    Go header_scan
  | Stop header_scan
  | Crash fault

definition store_header :: "string \<Rightarrow> int \<Rightarrow> header_scan \<Rightarrow> scan_step" where
  "store_header s i sc =
     (case range_string s (key_start sc) (key_end sc) of
        Inl e \<Rightarrow> Crash e
      | Inr key \<Rightarrow>
          (case range_string s (value_start sc) (value_end sc) of
             Inl e \<Rightarrow> Crash e
           | Inr val \<Rightarrow>
               Go (sc\<lparr>scan_state := H_LF, scan_headers := (scan_headers sc)(key \<mapsto> val),
                      scan_cur := i\<rparr>)))"

definition header_step :: "string \<Rightarrow> nat \<Rightarrow> header_scan \<Rightarrow> scan_step" where
  "header_step s i sc =
     (let c = s ! i; n = to_int32 (int i) in
      case scan_state sc of
        H_START \<Rightarrow>
          if c = LF \<or> c = CHR ''r'' then Go sc
          else Go (sc\<lparr>scan_state := H_KEY, key_start := n, scan_cur := n\<rparr>)
      | H_KEY \<Rightarrow>
          if c = CHR '':'' then
            (let sc' = sc\<lparr>key_end := n\<rparr> in
             if key_end sc' - key_start sc' \<le> 0 then Stop sc'
             else Go (sc'\<lparr>scan_state := H_COLON\<rparr>))
          else if c = LF \<or> c = CR then Stop sc
          else Go sc
      | H_COLON \<Rightarrow>
          if c = CHR '' '' then Go (sc\<lparr>scan_state := H_SPACES_AFTER_COLON\<rparr>) else Stop sc
      | H_SPACES_AFTER_COLON \<Rightarrow> Go (sc\<lparr>scan_state := H_VALUE, value_start := n\<rparr>)
      | H_VALUE \<Rightarrow>
          if c = CR then
            (let sc' = sc\<lparr>scan_state := H_CR, value_end := n\<rparr> in
             if value_end sc' - value_start sc' \<le> 0 then Stop sc' else Go sc')
          else if size_sub i (int_to_size (value_start sc)) > 255 then Stop sc
          else Go sc
      | H_CR \<Rightarrow>
          if c = LF then store_header s n sc
          else Stop sc
      | H_LF \<Rightarrow>
          if c = CR then Go (sc\<lparr>scan_state := H_END_CR\<rparr>)
          else Go (sc\<lparr>key_start := n, scan_state := H_KEY\<rparr>)
      | H_END_CR \<Rightarrow>
          if c = LF then Go (sc\<lparr>scan_state := H_END_LF\<rparr>) else Stop sc
      | H_END_LF \<Rightarrow> Go (sc\<lparr>finished := True, key_start := n, scan_cur := n\<rparr>))"

datatype scan_result =
    Scanned nat header_scan
  | Rejected header_scan
  | Crashed fault

function header_loop :: "string \<Rightarrow> nat \<Rightarrow> header_scan \<Rightarrow> scan_result" where
  "header_loop s i sc =
     (if i < length s \<and> \<not> finished sc
      then (case header_step s i sc of
              Go sc' \<Rightarrow> header_loop s (Suc i) sc'
            | Stop sc' \<Rightarrow> Rejected sc'
            | Crash e \<Rightarrow> Crashed e)
      else Scanned i sc)"
  by pat_completeness auto
termination
  by (relation "measure (\<lambda>(s, i, sc). length s - i)") auto

declare header_loop.simps [simp del]

definition header_scan_start :: "http_data \<Rightarrow> header_scan" where
  "header_scan_start h =
     \<lparr>key_start = - 1, key_end = - 1, value_start = - 1, value_end = - 1, scan_cur = 0,
      finished = False, scan_state = parse_state h, scan_headers = headers h\<rparr>"

definition parse_Headers :: "http_data \<Rightarrow> (HeaderState \<times> http_data) result" where
  "parse_Headers h =
     (case header_loop (buffer_in h) 0 (header_scan_start h) of
        Crashed e \<Rightarrow> Inl e
      | Rejected sc \<Rightarrow>
          Inr (PARSE_HEADER_ERROR, h\<lparr>parse_state := scan_state sc, headers := scan_headers sc\<rparr>)
      | Scanned i sc \<Rightarrow>
          (let h' = h\<lparr>parse_state := scan_state sc, headers := scan_headers sc\<rparr> in
           if scan_state sc = H_END_LF
           then bind_result (substr (buffer_in h) i npos)
                  (\<lambda>b. Inr (PARSE_HEADER_SUCCESS, h'\<lparr>buffer_in := b\<rparr>))
           else bind_result (substr (buffer_in h) (int_to_size (scan_cur sc)) npos)
                  (\<lambda>b. Inr (PARSE_HEADER_AGAIN, h'\<lparr>buffer_in := b\<rparr>))))"

section \<open>Facts about the request line parser\<close>

lemma parse_version_total:
  assumes "length l < npos"
  shows "\<exists>st v. parse_version l c h = Inr (st, h\<lparr>http_version := v\<rparr>) \<and> st \<noteq> PARSE_URI_AGAIN"
proof -
  let ?p = "find_char CHR ''/'' l c"
  have pos: "size_add ?p 1 \<le> length l"
  proof (cases "?p = npos")
    case True
    then show ?thesis by (simp add: size_simps)
  next
    case False
    then have "?p < length l" by (simp add: find_char_less)
    then show ?thesis using assms npos_less by (simp add: size_add_small)
  qed
  have err: "\<exists>st v. Inr (PARSE_URI_ERROR, h)
      = (Inr (st, h\<lparr>http_version := v\<rparr>) :: (URIState \<times> http_data) result) \<and> st \<noteq> PARSE_URI_AGAIN"
    by (intro exI [of _ PARSE_URI_ERROR] exI [of _ "http_version h"]) simp
  have ok: "\<exists>st v. Inr (PARSE_URI_SUCCESS, h\<lparr>http_version := w\<rparr>)
      = (Inr (st, h\<lparr>http_version := v\<rparr>) :: (URIState \<times> http_data) result) \<and> st \<noteq> PARSE_URI_AGAIN" for w
    by (intro exI [of _ PARSE_URI_SUCCESS] exI [of _ w]) simp
  show ?thesis
    unfolding parse_version_def Let_def
    by (simp only: substr_ok [OF pos] bind_result.simps err ok split: if_split) simp
qed

lemma parse_file_name_total:
  assumes "length l < npos" and "c = find_char CHR ''/'' l c0" and "c' = find_char CHR '' '' l c"
  shows "\<exists>f. parse_file_name l c c' = Inr f"
proof (cases "c = npos")
  case True
  then have "c' = npos" using assms(1,3) by simp
  with True show ?thesis by (simp add: parse_file_name_def size_sub_def size_max_def npos_def)
next
  case False
  then have "c < length l" using assms(2) find_char_less by blast
  then have le: "size_add c 1 \<le> length l" using assms(1) npos_less by (simp add: size_add_small)
  have "\<exists>g. (let q = find_char CHR ''?'' f 0 in if q \<ge> 0 then substr f 0 q else Inr f) = Inr g" for f
    by (simp add: Let_def)
  then show ?thesis using le by (auto simp: parse_file_name_def)
qed

lemma parse_path_total:
  assumes "length l < npos"
  shows "\<exists>st f v. parse_path l c h = Inr (st, h\<lparr>file_name := f, http_version := v\<rparr>)
           \<and> st \<noteq> PARSE_URI_AGAIN"
proof -
  obtain f where f: "parse_file_name l (find_char CHR ''/'' l c)
      (find_char CHR '' '' l (find_char CHR ''/'' l c)) = Inr f"
    using parse_file_name_total [OF assms refl refl] by blast
  obtain st v where "parse_version l (find_char CHR '' '' l (find_char CHR ''/'' l c))
      (h\<lparr>file_name := f\<rparr>) = Inr (st, h\<lparr>file_name := f, http_version := v\<rparr>) \<and> st \<noteq> PARSE_URI_AGAIN"
    using parse_version_total [OF assms] by blast
  then show ?thesis using f by (auto simp: parse_path_def Let_def)
qed

lemma parse_method_total:
  assumes "length l < npos"
  shows "\<exists>st m f v. parse_method l h
           = Inr (st, h\<lparr>http_method := m, file_name := f, http_version := v\<rparr>) \<and> st \<noteq> PARSE_URI_AGAIN"
proof -
  have sub: "\<exists>st m' f v. parse_path l c (h\<lparr>http_method := m\<rparr>)
      = Inr (st, h\<lparr>http_method := m', file_name := f, http_version := v\<rparr>) \<and> st \<noteq> PARSE_URI_AGAIN"
    for c m
    using parse_path_total [OF assms, of c "h\<lparr>http_method := m\<rparr>"] by fastforce
  have err: "\<exists>st m f v. Inr (PARSE_URI_ERROR, h)
      = (Inr (st, h\<lparr>http_method := m, file_name := f, http_version := v\<rparr>) :: (URIState \<times> http_data) result)
      \<and> st \<noteq> PARSE_URI_AGAIN"
    by (intro exI [of _ PARSE_URI_ERROR] exI [of _ "http_method h"] exI [of _ "file_name h"]
        exI [of _ "http_version h"]) simp
  show ?thesis
    unfolding parse_method_def Let_def by (simp only: sub err split: if_split) simp
qed

text \<open>The first carriage return splits the buffer.\<close>

definition before_CR :: "string \<Rightarrow> string" where
  "before_CR s = takeWhile (\<lambda>c. c \<noteq> CR) s"

definition after_CR :: "string \<Rightarrow> string" where
  "after_CR s = tl (dropWhile (\<lambda>c. c \<noteq> CR) s)"

lemma split_CR: "CR \<in> set s \<Longrightarrow> s = before_CR s @ CR # after_CR s"
  unfolding before_CR_def after_CR_def by (rule split_at_char)

lemma before_CR_line [simp]: "CR \<notin> set l \<Longrightarrow> before_CR (l @ CR # r) = l"
  by (induction l) (auto simp: before_CR_def)

lemma after_CR_line [simp]: "CR \<notin> set l \<Longrightarrow> after_CR (l @ CR # r) = r"
  by (induction l) (auto simp: after_CR_def)

lemma CR_notin_before [simp]: "CR \<notin> set (before_CR s)"
  by (auto simp: before_CR_def dest: set_takeWhileD)

lemma buffer_in_same [simp]: "buffer_in h = b \<Longrightarrow> h\<lparr>buffer_in := b\<rparr> = h"
  by auto

lemma parse_URI_split:
  assumes "length (buffer_in h) < npos" and "read_cur h = 0"
  shows "parse_URI h =
    (if CR \<in> set (buffer_in h)
     then parse_method (before_CR (buffer_in h)) (h\<lparr>buffer_in := after_CR (buffer_in h)\<rparr>)
     else parse_method (buffer_in h) h)"
proof (cases "CR \<in> set (buffer_in h)")
  case True
  let ?b = "before_CR (buffer_in h)" and ?a = "after_CR (buffer_in h)"
  note s = split_CR [OF True]
  have cur: "find_char CR (buffer_in h) 0 = length ?b"
    by (rule find_char_at [OF s]) simp_all
  have len: "length (buffer_in h) = length ?b + 1 + length ?a" by (subst s) simp
  then have add: "size_add (length ?b) 1 = length ?b + 1"
    using assms(1) npos_less by (intro size_add_small) simp
  have "take (length ?b) (buffer_in h) = ?b" by (subst s) simp
  moreover have "drop (length ?b + 1) (buffer_in h) = ?a" by (subst s) simp
  moreover have "take npos ?a = ?a" using len assms(1) by simp
  ultimately show ?thesis
    using True cur add len assms(2) by (auto simp: parse_URI_def Let_def int_to_size_def)
next
  case False
  then have "find_char CR (buffer_in h) 0 = npos" by (simp add: find_char_none)
  with False assms show ?thesis
    by (cases "buffer_in h = []") (simp_all add: parse_URI_def Let_def int_to_size_def size_simps)
qed

section \<open>Well-formed request lines\<close>

definition request_line :: "string \<Rightarrow> string \<Rightarrow> string \<Rightarrow> string" where
  "request_line w f v = w @ '' /'' @ f @ '' HTTP/'' @ v"

definition target_file :: "string \<Rightarrow> string" where
  "target_file f = (if f = [] then ''index.html'' else takeWhile (\<lambda>c. c \<noteq> CHR ''?'') f)"

lemma cut_query:
  assumes "length f < npos"
  shows "(let q = find_char CHR ''?'' f 0 in if q \<ge> 0 then substr f 0 q else Inr f)
           = Inr (takeWhile (\<lambda>c. c \<noteq> CHR ''?'') f)"
proof (cases "CHR ''?'' \<in> set f")
  case True
  let ?b = "takeWhile (\<lambda>c. c \<noteq> CHR ''?'') f"
  have "take (length ?b) f = ?b" by (metis append_eq_conv_conj takeWhile_dropWhile_id)
  moreover have "find_char CHR ''?'' f 0 = length ?b" by (rule find_char_0 [OF True])
  ultimately show ?thesis by (simp add: Let_def)
next
  case False
  then have "find_char CHR ''?'' f 0 = npos" by (simp add: find_char_none)
  moreover have "takeWhile (\<lambda>c. c \<noteq> CHR ''?'') f = f"
    unfolding takeWhile_eq_all_conv using False by blast
  ultimately show ?thesis using assms by (simp del: takeWhile_eq_all_conv add: Let_def)
qed

lemma parse_file_name_target:
  assumes "length l < npos" and "l = pre @ CHR ''/'' # f @ post"
  shows "parse_file_name l (length pre) (length pre + 1 + length f) = Inr (target_file f)"
proof -
  have len: "length pre + 1 + length f < size_max" using assms npos_less by simp
  then have sub: "size_sub (length pre + 1 + length f) (length pre) = length f + 1"
    by (simp add: size_sub_small)
  have sub': "size_sub (length f + 1) 1 = length f" using len by (simp add: size_sub_small)
  have add: "size_add (length pre) 1 = length pre + 1" using len by (simp add: size_add_small)
  have cut: "substr l (length pre + 1) (length f) = Inr f" using assms by simp
  show ?thesis
  proof (cases "f = []")
    case True
    then show ?thesis using sub by (simp add: parse_file_name_def target_file_def)
  next
    case False
    have "length f < npos" using assms by simp
    then have "(let q = find_char CHR ''?'' f 0 in if q \<ge> 0 then substr f 0 q else Inr f)
           = Inr (target_file f)" using False by (simp only: cut_query target_file_def if_False)
    then show ?thesis using False
      by (simp only: parse_file_name_def sub sub' add cut bind_result.simps) simp
  qed
qed

lemma parse_version_at:
  assumes "length l < npos" and "l = pre @ '' HTTP/'' @ v"
    and "(v, ver) \<in> {(''1.0'', HTTP_10), (''1.1'', HTTP_11)}"
  shows "parse_version l (length pre) h = Inr (PARSE_URI_SUCCESS, h\<lparr>http_version := ver\<rparr>)"
proof -
  have "l = (pre @ '' HTTP'') @ CHR ''/'' # v" using assms(2) by simp
  then have cur: "find_char CHR ''/'' l (length pre) = length pre + 5"
    by (subst find_char_at [of l "pre @ '' HTTP''" _ v]) auto
  have len: "length l = length pre + 9" and small: "length l < size_max"
    using assms npos_less by auto
  then have arith: "size_sub (length l) (length pre + 5) = 4" "size_add (length pre + 5) 1 = length pre + 6"
    by (simp_all add: size_sub_small size_add_small)
  have cut: "substr l (length pre + 6) 3 = Inr v" using assms(2,3) len by auto
  have "v = ''1.0'' \<and> ver = HTTP_10 \<or> v = ''1.1'' \<and> ver = HTTP_11" using assms(3) by auto
  then show ?thesis
    by (auto simp only: parse_version_def cur arith cut Let_def bind_result.simps) simp_all
qed

lemma parse_path_line:
  assumes "length l < npos" and "l = pre @ CHR ''/'' # f @ '' HTTP/'' @ v"
    and "c \<le> length pre" and "CHR ''/'' \<notin> set (drop c pre)" and "CHR '' '' \<notin> set f"
    and "(v, ver) \<in> {(''1.0'', HTTP_10), (''1.1'', HTTP_11)}"
  shows "parse_path l c h = Inr (PARSE_URI_SUCCESS, h\<lparr>file_name := target_file f, http_version := ver\<rparr>)"
proof -
  have slash: "find_char CHR ''/'' l c = length pre"
    using assms(2-4) by (intro find_char_at) auto
  have "l = (pre @ CHR ''/'' # f) @ CHR '' '' # ''HTTP/'' @ v" using assms(2) by simp
  then have space: "find_char CHR '' '' l (length pre) = length pre + 1 + length f"
    using assms(5)
    by (subst find_char_at [of l "pre @ CHR ''/'' # f" _ "''HTTP/'' @ v"]) auto
  have fname: "parse_file_name l (length pre) (length pre + 1 + length f) = Inr (target_file f)"
    by (rule parse_file_name_target) (use assms(1,2) in auto)
  have "parse_version l (length (pre @ CHR ''/'' # f)) (h\<lparr>file_name := target_file f\<rparr>)
      = Inr (PARSE_URI_SUCCESS, h\<lparr>file_name := target_file f, http_version := ver\<rparr>)"
    by (subst parse_version_at [OF assms(1) _ assms(6)]) (use assms(2) in auto)
  then show ?thesis using slash space fname by (simp add: parse_path_def Let_def)
qed

lemma find_str_first: "find_str t (t @ s) = 0" by simp

lemma parse_method_line:
  assumes "length l < 2147483648"
    and "(w, m) \<in> {(''GET'', METHOD_GET), (''POST'', METHOD_POST), (''HEAD'', METHOD_HEAD)}"
    and "l = w @ s"
    and "m \<noteq> METHOD_GET \<Longrightarrow> find_str ''GET'' l = npos"
    and "m = METHOD_HEAD \<Longrightarrow> find_str ''POST'' l = npos"
  shows "parse_method l h = parse_path l 0 (h\<lparr>http_method := m\<rparr>)"
proof -
  have "find_str w l = 0" unfolding assms(3) by (rule find_str_first)
  then show ?thesis
    using assms(2,4,5) by (auto simp: parse_method_def Let_def to_int32_npos to_int32_small int_to_size_small)
qed

lemma parse_URI_returns:
  assumes "length (buffer_in h) < npos" and "read_cur h = 0"
  shows "\<exists>st m f v. parse_URI h = Inr (st, h\<lparr>buffer_in :=
             (if CR \<in> set (buffer_in h) then after_CR (buffer_in h) else buffer_in h),
             http_method := m, file_name := f, http_version := v\<rparr>)
           \<and> st \<noteq> PARSE_URI_AGAIN"
proof (cases "CR \<in> set (buffer_in h)")
  case True
  have "length (before_CR (buffer_in h)) < npos"
    using assms(1) by (simp add: before_CR_def order_le_less_trans [OF length_takeWhile_le])
  from parse_method_total [OF this, of "h\<lparr>buffer_in := after_CR (buffer_in h)\<rparr>"]
  show ?thesis using True by (simp add: parse_URI_split [OF assms])
next
  case False
  with parse_method_total [OF assms(1), of h] show ?thesis
    by (simp add: parse_URI_split [OF assms])
qed

text \<open>
  C22. The request line parser is total and never asks for more input: for every buffer a machine
  can hold it returns \<open>PARSE_URI_SUCCESS\<close> or \<open>PARSE_URI_ERROR\<close> without an exception,
  writes only the method, file name and version, and consumes exactly up to the first carriage
  return, or nothing when there is none. \<open>PARSE_URI_AGAIN\<close>, which the code means to return
  for an incomplete line, cannot be returned.
\<close>

theorem parse_URI_total:
  assumes "length (buffer_in h) < npos" and "read_cur h = 0"
  shows "\<exists>st m f v. parse_URI h = Inr (st, h\<lparr>buffer_in :=
             (if CR \<in> set (buffer_in h) then after_CR (buffer_in h) else buffer_in h),
             http_method := m, file_name := f, http_version := v\<rparr>)
           \<and> st \<noteq> PARSE_URI_AGAIN"
  by (rule parse_URI_returns [OF assms])

theorem parse_URI_total_witness:
  "\<exists>st m f v. parse_URI ((new_http_data 0 0 5)\<lparr>buffer_in := ''GET''\<rparr>)
     = Inr (st, (new_http_data 0 0 5)\<lparr>buffer_in := ''GET'', http_method := m, file_name := f,
              http_version := v\<rparr>) \<and> st \<noteq> PARSE_URI_AGAIN"
  using parse_URI_total [of "(new_http_data 0 0 5)\<lparr>buffer_in := ''GET''\<rparr>"]
  by (simp add: new_http_data_def npos_def CR_def)

lemma parse_URI_line:
  assumes "(w, m) \<in> {(''GET'', METHOD_GET), (''POST'', METHOD_POST), (''HEAD'', METHOD_HEAD)}"
    and "(v, ver) \<in> {(''1.0'', HTTP_10), (''1.1'', HTTP_11)}"
    and "CR \<notin> set f" and "CHR '' '' \<notin> set f"
    and "m \<noteq> METHOD_GET \<Longrightarrow> find_str ''GET'' (request_line w f v) = npos"
    and "m = METHOD_HEAD \<Longrightarrow> find_str ''POST'' (request_line w f v) = npos"
    and "buffer_in h = request_line w f v @ CR # rest"
    and "length (buffer_in h) < 2147483648" and "read_cur h = 0"
  shows "parse_URI h = Inr (PARSE_URI_SUCCESS, h\<lparr>buffer_in := rest, http_method := m,
           file_name := target_file f, http_version := ver\<rparr>)"
proof -
  let ?l = "request_line w f v"
  have noCR: "CR \<notin> set ?l" using assms(1-3) by (auto simp: request_line_def CR_def)
  have len: "length ?l < 2147483648" using assms(7,8) by simp
  then have lenn: "length ?l < npos" by (simp add: npos_def)
  have "parse_URI h = parse_method ?l (h\<lparr>buffer_in := rest\<rparr>)"
    using assms(7-9) noCR by (subst parse_URI_split) (auto simp: npos_def)
  also have "\<dots> = parse_path ?l 0 (h\<lparr>buffer_in := rest, http_method := m\<rparr>)"
    by (rule parse_method_line [OF len assms(1)]) (use assms(5,6) in \<open>auto simp: request_line_def\<close>)
  also have "\<dots> = Inr (PARSE_URI_SUCCESS, h\<lparr>buffer_in := rest, http_method := m,
           file_name := target_file f, http_version := ver\<rparr>)"
    by (rule parse_path_line [OF lenn, where pre = "w @ '' ''" and v = v])
      (use assms(1,2,4) in \<open>auto simp: request_line_def\<close>)
  finally show ?thesis .
qed

text \<open>
  C2. A well-formed request line is parsed as it reads: for \<open>GET\<close>, \<open>POST\<close> and
  \<open>HEAD\<close>, a path without spaces and version 1.0 or 1.1, the parser stores the method, the
  file name without its query (\<open>index.html\<close> for the empty path) and the version, and leaves
  what follows the carriage return in the buffer. The method is found by searching the whole line,
  so the line must not hold the name of a method tried earlier.
\<close>

theorem parse_URI_well_formed:
  assumes "(w, m) \<in> {(''GET'', METHOD_GET), (''POST'', METHOD_POST), (''HEAD'', METHOD_HEAD)}"
    and "(v, ver) \<in> {(''1.0'', HTTP_10), (''1.1'', HTTP_11)}"
    and "CR \<notin> set f" and "CHR '' '' \<notin> set f"
    and "m \<noteq> METHOD_GET \<Longrightarrow> find_str ''GET'' (request_line w f v) = npos"
    and "m = METHOD_HEAD \<Longrightarrow> find_str ''POST'' (request_line w f v) = npos"
    and "buffer_in h = request_line w f v @ CR # rest"
    and "length (buffer_in h) < 2147483648" and "read_cur h = 0"
  shows "parse_URI h = Inr (PARSE_URI_SUCCESS, h\<lparr>buffer_in := rest, http_method := m,
           file_name := target_file f, http_version := ver\<rparr>)"
  by (rule parse_URI_line [OF assms])

theorem parse_URI_well_formed_witness:
  "parse_URI ((new_http_data 0 0 5)\<lparr>buffer_in := request_line ''HEAD'' ''a.png?x'' ''1.0'' @ [CR, LF]\<rparr>)
     = Inr (PARSE_URI_SUCCESS, (new_http_data 0 0 5)\<lparr>buffer_in := [LF], http_method := METHOD_HEAD,
           file_name := ''a.png'', http_version := HTTP_10\<rparr>)"
proof -
  let ?h = "(new_http_data 0 0 5)\<lparr>buffer_in := request_line ''HEAD'' ''a.png?x'' ''1.0'' @ [CR, LF]\<rparr>"
  have "parse_URI ?h = Inr (PARSE_URI_SUCCESS, ?h\<lparr>buffer_in := [LF], http_method := METHOD_HEAD,
           file_name := target_file ''a.png?x'', http_version := HTTP_10\<rparr>)"
    by (rule parse_URI_well_formed [where w = "''HEAD''" and v = "''1.0''"])
      (simp_all add: request_line_def new_http_data_def find_str_def CR_def)
  then show ?thesis by (simp add: target_file_def)
qed

lemma find_shadowed:
  assumes "w \<in> {''POST'', ''HEAD''}" and "f = a @ ''GET'' @ b"
  shows "\<exists>i. find_str ''GET'' (request_line w f v) = i \<and> length w + 2 \<le> i \<and> i \<le> length w + 2 + length f"
proof -
  obtain i where i: "index_str ''GET'' (length w + 2) (a @ ''GET'' @ b @ '' HTTP/'' @ v) = Some i"
      "length w + 2 \<le> i" "i \<le> length w + 2 + length a"
    using index_str_inside by blast
  have "CHR ''G'' \<notin> set (w @ '' /'')" using assms(1) by auto
  then have "index_str ''GET'' 0 ((w @ '' /'') @ (a @ ''GET'' @ b @ '' HTTP/'' @ v)) = Some i"
    using i(1) by (subst index_str_skip) auto
  then have "find_str ''GET'' (request_line w f v) = i" by (simp add: find_str_def request_line_def assms(2))
  then show ?thesis using i(2,3) assms(2) by simp
qed

lemma slash_behind_target:
  assumes "length w + 2 \<le> i" and "i \<le> length w + 2 + length f" and "CHR ''/'' \<notin> set f" and "CHR '' '' \<notin> set v"
  shows "find_char CHR ''/'' (request_line w f v) i = length (w @ '' /'' @ f @ '' HTTP'')"
    and "find_char CHR '' '' (request_line w f v) (length (w @ '' /'' @ f @ '' HTTP'')) = npos"
proof -
  have l: "request_line w f v = (w @ '' /'' @ f @ '' HTTP'') @ CHR ''/'' # v" by (simp add: request_line_def)
  show "find_char CHR ''/'' (request_line w f v) i = length (w @ '' /'' @ f @ '' HTTP'')"
  proof (rule find_char_at [OF l])
    have "length (w @ '' /'') \<le> i" using assms(1) by simp
    then obtain j where j: "i = length (w @ '' /'') + j" using le_Suc_ex by blast
    have "drop i ((w @ '' /'') @ f @ '' HTTP'') = drop j (f @ '' HTTP'')" unfolding j by simp
    moreover have "CHR ''/'' \<notin> set (drop j (f @ '' HTTP''))"
      using assms(3) by (auto dest!: in_set_dropD)
    ultimately show "CHR ''/'' \<notin> set (drop i (w @ '' /'' @ f @ '' HTTP''))" by simp
  qed (use assms(2) in auto)
  have "drop (length x) (x @ y) = y" for x y :: string by simp
  then have "drop (length (w @ '' /'' @ f @ '' HTTP'')) (request_line w f v) = CHR ''/'' # v" by (metis l)
  then have "CHR '' '' \<notin> set (drop (length (w @ '' /'' @ f @ '' HTTP'')) (request_line w f v))"
    using assms(4) by auto
  then show "find_char CHR '' '' (request_line w f v) (length (w @ '' /'' @ f @ '' HTTP'')) = npos"
    by (rule find_char_none)
qed

text \<open>
  The method is looked for in the whole line, \<open>GET\<close> first: a well-formed \<open>POST\<close> or
  \<open>HEAD\<close> request whose path holds the letters \<open>GET\<close> is taken for a \<open>GET\<close> whose target
  starts at those letters, finds no version behind it and is rejected with \<open>PARSE_URI_ERROR\<close>.
\<close>

theorem parse_URI_shadowed_method:
  assumes "w \<in> {''POST'', ''HEAD''}" and "v \<in> {''1.0'', ''1.1''}"
    and "f = a @ ''GET'' @ b" and "CHR ''/'' \<notin> set f" and "CR \<notin> set f"
    and "buffer_in h = request_line w f v @ CR # rest"
    and "length (buffer_in h) < 2147483648" and "read_cur h = 0"
  shows "\<exists>h'. parse_URI h = Inr (PARSE_URI_ERROR, h') \<and> http_method h' = METHOD_GET"
proof -
  let ?l = "request_line w f v" and ?g = "h\<lparr>buffer_in := rest, http_method := METHOD_GET\<rparr>"
  have noCR: "CR \<notin> set ?l" using assms(1,2,5) by (auto simp: request_line_def CR_def)
  have len: "length ?l < 2147483648" using assms(6,7) by simp
  then have lenn: "length ?l < npos" by (simp add: npos_def)
  obtain i where get: "find_str ''GET'' ?l = i" and i: "length w + 2 \<le> i" "i \<le> length w + 2 + length f"
    using find_shadowed [OF assms(1,3)] by blast
  then have i32: "to_int32 (int i) = int i" "int_to_size (int i) = i"
    using len by (simp_all add: request_line_def to_int32_small int_to_size_small)
  have "CHR '' '' \<notin> set v" using assms(2) by auto
  note slash = slash_behind_target(1) [OF i assms(4) this] and space = slash_behind_target(2) [OF i assms(4) this]
  obtain g where fname: "parse_file_name ?l (length (w @ '' /'' @ f @ '' HTTP'')) npos = Inr g"
    using parse_file_name_total [OF lenn slash [symmetric] space [symmetric]] by blast
  have "size_sub (length ?l) npos = length ?l + 1"
    using lenn by (simp add: size_sub_def size_max_def npos_def)
  moreover have "take 3 ?l \<noteq> ''1.0''" "take 3 ?l \<noteq> ''1.1''" using assms(1) by (auto simp: request_line_def)
  ultimately have "parse_version ?l npos (?g\<lparr>file_name := g\<rparr>) = Inr (PARSE_URI_ERROR, ?g\<lparr>file_name := g\<rparr>)"
    using lenn by (simp add: parse_version_def Let_def size_add_npos)
  then have "parse_path ?l i ?g = Inr (PARSE_URI_ERROR, ?g\<lparr>file_name := g\<rparr>)"
    using slash space fname by (simp add: parse_path_def Let_def)
  then have "parse_method ?l (h\<lparr>buffer_in := rest\<rparr>) = Inr (PARSE_URI_ERROR, ?g\<lparr>file_name := g\<rparr>)"
    using get i32 by (simp add: parse_method_def Let_def)
  moreover have "parse_URI h = parse_method ?l (h\<lparr>buffer_in := rest\<rparr>)"
    using assms(6-8) noCR by (subst parse_URI_split) (auto simp: npos_def)
  ultimately show ?thesis by simp
qed

theorem parse_URI_shadowed_method_witness:
  "\<exists>h'. parse_URI ((new_http_data 0 0 5)\<lparr>buffer_in := request_line ''POST'' ''wiGET.html'' ''1.1'' @ [CR, LF]\<rparr>)
      = Inr (PARSE_URI_ERROR, h') \<and> http_method h' = METHOD_GET"
  by (rule parse_URI_shadowed_method [where w = "''POST''" and a = "''wi''" and b = "''.html''"
        and f = "''wiGET.html''" and v = "''1.1''" and rest = "[LF]"])
    (simp_all add: request_line_def new_http_data_def CR_def)

end
