(* ===== verification/Http_Headers.thy ===== *)
theory Http_Headers
  imports Http_Parse
begin

text \<open>
  What \<open>HttpData::parse_Headers\<close> does with a header block: the loop is followed over the
  pieces of a line, then over the lines of a block, and the results are stated for the buffers
  the server meets: a complete block, a block followed by more bytes, a block without lines and
  a block that arrives in two reads.
\<close>

section \<open>Following the loop\<close>

lemma header_loop_go:
  "i < length s \<Longrightarrow> \<not> finished sc \<Longrightarrow> header_step s i sc = Go sc' \<Longrightarrow>
   header_loop s i sc = header_loop s (Suc i) sc'"
  by (subst header_loop.simps) simp

lemma header_loop_stop:
  "i < length s \<Longrightarrow> \<not> finished sc \<Longrightarrow> header_step s i sc = Stop sc' \<Longrightarrow>
   header_loop s i sc = Rejected sc'"
  by (subst header_loop.simps) simp

lemma header_loop_crash:
  "i < length s \<Longrightarrow> \<not> finished sc \<Longrightarrow> header_step s i sc = Crash e \<Longrightarrow>
   header_loop s i sc = Crashed e"
  by (subst header_loop.simps) simp

lemma header_loop_end:
  "length s \<le> i \<or> finished sc \<Longrightarrow> header_loop s i sc = Scanned i sc"
  by (subst header_loop.simps) auto

lemma loop_start:
  assumes "s = pre @ ls @ post" and "\<forall>c\<in>set ls. c = LF \<or> c = CHR ''r''"
    and "scan_state sc = H_START" and "\<not> finished sc"
  shows "header_loop s (length pre) sc = header_loop s (length pre + length ls) sc"
  using assms
proof (induction ls arbitrary: pre)
  case (Cons c ls)
  have "header_step s (length pre) sc = Go sc"
    using Cons.prems by (auto simp: header_step_def Let_def nth_append)
  then have "header_loop s (length pre) sc = header_loop s (length (pre @ [c])) sc"
    using Cons.prems by (simp add: header_loop_go)
  also have "\<dots> = header_loop s (length (pre @ [c]) + length ls) sc"
    by (rule Cons.IH) (use Cons.prems in auto)
  finally show ?case by simp
qed simp

definition key_char :: "char \<Rightarrow> bool" where
  "key_char c = (c \<noteq> CHR '':'' \<and> c \<noteq> CR \<and> c \<noteq> LF)"

lemma loop_key:
  assumes "s = pre @ k @ post" and "\<forall>c\<in>set k. key_char c"
    and "scan_state sc = H_KEY" and "\<not> finished sc"
  shows "header_loop s (length pre) sc = header_loop s (length pre + length k) sc"
  using assms
proof (induction k arbitrary: pre)
  case (Cons c k)
  have "header_step s (length pre) sc = Go sc"
    using Cons.prems by (auto simp: header_step_def Let_def nth_append key_char_def)
  then have "header_loop s (length pre) sc = header_loop s (length (pre @ [c])) sc"
    using Cons.prems by (simp add: header_loop_go)
  also have "\<dots> = header_loop s (length (pre @ [c]) + length k) sc"
    by (rule Cons.IH) (use Cons.prems in auto)
  finally show ?case by simp
qed simp

lemma loop_value:
  assumes "s = pre @ v @ post" and "CR \<notin> set v"
    and "scan_state sc = H_VALUE" and "\<not> finished sc"
    and "value_start sc = int a" and "a \<le> length pre" and "length pre + length v \<le> a + 256"
    and "length s < 2147483648"
  shows "header_loop s (length pre) sc = header_loop s (length pre + length v) sc"
  using assms
proof (induction v arbitrary: pre)
  case (Cons c v)
  have len: "length pre < size_max" using Cons.prems(1,8) by (simp add: size_max_def)
  have "int_to_size (int a) = a" using Cons.prems(1,6,8) by (simp add: int_to_size_small)
  then have "size_sub (length pre) (int_to_size (int a)) = length pre - a"
    using Cons.prems(6) len by (simp add: size_sub_small)
  then have "size_sub (length pre) (int_to_size (int a)) \<le> 255"
    using Cons.prems(7) by simp
  then have "header_step s (length pre) sc = Go sc"
    using Cons.prems(1-5) by (auto simp: header_step_def Let_def nth_append)
  then have "header_loop s (length pre) sc = header_loop s (length (pre @ [c])) sc"
    using Cons.prems by (simp add: header_loop_go)
  also have "\<dots> = header_loop s (length (pre @ [c]) + length v) sc"
    by (rule Cons.IH) (use Cons.prems in auto)
  finally show ?case by simp
qed simp

section \<open>Lines\<close>

definition render_header :: "string \<times> string \<Rightarrow> string" where
  "render_header kv = fst kv @ '': '' @ snd kv @ [CR, LF]"

definition render_headers :: "(string \<times> string) list \<Rightarrow> string" where
  "render_headers hs = concat (map render_header hs)"

definition ok_header :: "string \<times> string \<Rightarrow> bool" where
  "ok_header kv =
     (fst kv \<noteq> [] \<and> list_all key_char (fst kv) \<and>
      snd kv \<noteq> [] \<and> CR \<notin> set (snd kv) \<and> length (snd kv) \<le> 256)"

definition store_headers ::
  "(string \<rightharpoonup> string) \<Rightarrow> (string \<times> string) list \<Rightarrow> (string \<rightharpoonup> string)" where
  "store_headers m hs = foldl (\<lambda>m (k, v). m(k \<mapsto> v)) m hs"

lemma store_headers_simps [simp]:
  "store_headers m [] = m" "store_headers m ((k, v) # hs) = store_headers (m(k \<mapsto> v)) hs"
  by (simp_all add: store_headers_def)

lemma render_headers_simps [simp]:
  "render_headers [] = []" "render_headers (kv # hs) = render_header kv @ render_headers hs"
  by (simp_all add: render_headers_def)

text \<open>
  A line from inside its key (the part \<open>k0\<close> already scanned) to its carriage return; the key's
  start index is the one the automaton holds, whatever it is.
\<close>

lemma loop_to_CR:
  assumes s: "s = p0 @ (k0 @ k) @ '': '' @ v @ [CR, LF] @ post"
    and k: "\<forall>c\<in>set k. key_char c"
    and v: "v \<noteq> []" "CR \<notin> set v" "length v \<le> 256"
    and sc: "scan_state sc = H_KEY" "\<not> finished sc" "key_start sc < int n"
    and len: "length s < 2147483648"
    and n: "n = length p0 + length (k0 @ k)"
  shows "header_loop s (length (p0 @ k0)) sc =
    header_loop s (Suc (n + 2 + length v))
      (sc\<lparr>key_end := int n, value_start := int (n + 2), scan_state := H_CR,
          value_end := int (n + 2 + length v)\<rparr>)"
proof -
  have ls: "length s = n + length v + 4 + length post" using s n by simp
  have i32: "to_int32 (int j) = int j" if "j \<le> n + length v + 4" for j
    using that len ls by (simp add: to_int32_small)
  have at: "s ! n = CHR '':''" "s ! (n + 1) = CHR '' ''" "s ! (n + 2 + length v) = CR"
    using s n by (simp_all add: nth_append)
  let ?a = "sc\<lparr>key_end := int n, scan_state := H_COLON\<rparr>"
  let ?b = "sc\<lparr>key_end := int n, scan_state := H_SPACES_AFTER_COLON\<rparr>"
  let ?c = "sc\<lparr>key_end := int n, scan_state := H_VALUE, value_start := int (n + 2)\<rparr>"
  let ?d = "?c\<lparr>scan_state := H_CR, value_end := int (n + 2 + length v)\<rparr>"
  have "header_loop s (length (p0 @ k0)) sc = header_loop s (length (p0 @ k0) + length k) sc"
    by (rule loop_key [where post = "'': '' @ v @ [CR, LF] @ post"]) (use s k sc in auto)
  also have "\<dots> = header_loop s n sc" by (simp add: n add.assoc)
  also have "\<dots> = header_loop s (n + 1) ?a"
    using ls sc at i32 [of n]
    by (subst header_loop_go [where sc' = ?a]) (auto simp: header_step_def Let_def)
  also have "\<dots> = header_loop s (n + 2) ?b"
    using ls sc at by (subst header_loop_go [where sc' = ?b]) (auto simp: header_step_def Let_def)
  also have "\<dots> = header_loop s (n + 3) ?c"
    using ls sc i32 [of "n + 2"] v(1)
    by (subst header_loop_go [where sc' = ?c]) (auto simp: header_step_def Let_def numeral_3_eq_3)
  also have "\<dots> = header_loop s (n + 2 + length v) ?c"
  proof -
    have "header_loop s (length (p0 @ (k0 @ k) @ '': '' @ [hd v])) ?c =
      header_loop s (length (p0 @ (k0 @ k) @ '': '' @ [hd v]) + length (tl v)) ?c"
      by (rule loop_value [where a = "n + 2" and post = "[CR, LF] @ post"])
        (use s v sc len in \<open>auto simp: n dest: list.set_sel(2)\<close>)
    moreover have "length (p0 @ (k0 @ k) @ '': '' @ [hd v]) = n + 3" by (simp add: n)
    moreover have "n + 3 + length (tl v) = n + 2 + length v" using v(1) by (cases v) auto
    ultimately show ?thesis by (simp only:)
  qed
  also have "\<dots> = header_loop s (Suc (n + 2 + length v)) ?d"
    using ls sc at i32 [of "n + 2 + length v"] v(1)
    by (subst header_loop_go [where sc' = ?d]) (auto simp: header_step_def Let_def)
  finally show ?thesis by simp
qed

text \<open>The whole line, when the key's start index is the right one.\<close>

lemma loop_line:
  assumes s: "s = p0 @ (k0 @ k) @ '': '' @ v @ [CR, LF] @ post"
    and k: "\<forall>c\<in>set k. key_char c" and ne: "k0 @ k \<noteq> []"
    and v: "v \<noteq> []" "CR \<notin> set v" "length v \<le> 256"
    and sc: "scan_state sc = H_KEY" "\<not> finished sc" "key_start sc = int (length p0)"
    and len: "length s < 2147483648"
  defines "n \<equiv> length p0 + length (k0 @ k)"
  shows "header_loop s (length (p0 @ k0)) sc =
    header_loop s (n + length v + 4)
      (sc\<lparr>key_end := int n, value_start := int (n + 2), value_end := int (n + 2 + length v),
          scan_state := H_LF, scan_headers := (scan_headers sc)(k0 @ k \<mapsto> v),
          scan_cur := int (n + length v + 3)\<rparr>)"
proof -
  let ?d = "sc\<lparr>key_end := int n, value_start := int (n + 2), scan_state := H_CR,
      value_end := int (n + 2 + length v)\<rparr>"
  have ls: "length s = n + length v + 4 + length post" using s n_def by simp
  have i32: "to_int32 (int (Suc (n + 2 + length v))) = int (Suc (n + 2 + length v))"
    using len ls by (simp add: to_int32_small)
  have at: "s ! Suc (n + 2 + length v) = LF" using s n_def by (simp add: nth_append)
  have "key_start sc < int n" using ne sc(3) n_def by (cases k0) auto
  note loop_to_CR [OF s k v sc(1,2) this len n_def [THEN meta_eq_to_obj_eq]]
  also have "header_loop s (Suc (n + 2 + length v)) ?d = header_loop s (n + length v + 4)
      (?d\<lparr>scan_state := H_LF, scan_headers := (scan_headers sc)(k0 @ k \<mapsto> v),
          scan_cur := int (n + length v + 3)\<rparr>)"
  proof -
    have "range_string s (int (length p0)) (int n) = Inr (k0 @ k)"
      by (rule range_string_mid [OF s]) (simp_all add: n_def)
    moreover have "range_string s (int (n + 2)) (int (n + 2 + length v)) = Inr v"
      by (rule range_string_mid [where a = "p0 @ (k0 @ k) @ '': ''" and b = "[CR, LF] @ post"])
        (simp_all add: s n_def)
    ultimately show ?thesis
      using ls sc at i32
      by (subst header_loop_go)
        (auto simp: header_step_def store_header_def Let_def algebra_simps eval_nat_numeral)
  qed
  finally show ?thesis by simp
qed

text \<open>Whole lines, from the state after the end of a line to the same state.\<close>

lemma loop_lines:
  assumes "s = p0 @ render_headers hs @ post" and "list_all ok_header hs"
    and "scan_state sc = H_LF" and "\<not> finished sc" and "length s < 2147483648"
    and "p0 \<noteq> []" and "scan_cur sc = int (length p0) - 1"
  shows "\<exists>sc'. header_loop s (length p0) sc = header_loop s (length (p0 @ render_headers hs)) sc'
     \<and> scan_state sc' = H_LF \<and> \<not> finished sc'
     \<and> scan_headers sc' = store_headers (scan_headers sc) hs
     \<and> scan_cur sc' = int (length (p0 @ render_headers hs)) - 1"
  using assms
proof (induction hs arbitrary: p0 sc)
  case Nil
  then show ?case by auto
next
  case (Cons kv hs)
  obtain c k v where kv: "kv = (c # k, v)"
    using Cons.prems(2) by (cases kv; cases "fst kv") (auto simp: ok_header_def)
  have ok: "key_char c" "\<forall>c\<in>set k. key_char c" "v \<noteq> []" "CR \<notin> set v" "length v \<le> 256"
    and oks: "list_all ok_header hs"
    using Cons.prems(2) by (auto simp: kv ok_header_def list_all_iff)
  have s: "s = p0 @ ([c] @ k) @ '': '' @ v @ [CR, LF] @ (render_headers hs @ post)"
    using Cons.prems(1) by (simp add: kv render_header_def)
  have pos: "length (p0 @ render_header kv) = length p0 + length ([c] @ k) + length v + 4"
    by (simp add: kv render_header_def)
  have "to_int32 (int (length p0)) = int (length p0)"
    using Cons.prems(1,5) by (simp add: to_int32_small)
  then have "header_step s (length p0) sc
      = Go (sc\<lparr>key_start := int (length p0), scan_state := H_KEY\<rparr>)"
    using Cons.prems(3,4) ok(1) s by (simp add: header_step_def Let_def key_char_def nth_append)
  then have "header_loop s (length p0) sc
      = header_loop s (length (p0 @ [c])) (sc\<lparr>key_start := int (length p0), scan_state := H_KEY\<rparr>)"
    using Cons.prems(4) s by (simp add: header_loop_go)
  also have "\<dots> = header_loop s (length (p0 @ render_header kv))
      (sc\<lparr>key_start := int (length p0), scan_state := H_KEY, key_end := int (length p0 + length ([c] @ k)),
          value_start := int (length p0 + length ([c] @ k) + 2),
          value_end := int (length p0 + length ([c] @ k) + 2 + length v),
          scan_state := H_LF, scan_headers := (scan_headers sc)([c] @ k \<mapsto> v),
          scan_cur := int (length p0 + length ([c] @ k) + length v + 3)\<rparr>)"
    (is "_ = header_loop s _ ?sc1")
    unfolding pos using Cons.prems(4,5) ok by (subst loop_line [OF s]) simp_all
  finally have step: "header_loop s (length p0) sc = header_loop s (length (p0 @ render_header kv)) ?sc1" .
  have "\<exists>sc'. header_loop s (length (p0 @ render_header kv)) ?sc1
        = header_loop s (length ((p0 @ render_header kv) @ render_headers hs)) sc'
     \<and> scan_state sc' = H_LF \<and> \<not> finished sc'
     \<and> scan_headers sc' = store_headers (scan_headers ?sc1) hs
     \<and> scan_cur sc' = int (length ((p0 @ render_header kv) @ render_headers hs)) - 1"
    by (rule Cons.IH) (use Cons.prems oks in \<open>auto simp: kv render_header_def\<close>)
  then show ?case unfolding step by (simp add: kv)
qed

section \<open>Blocks\<close>

lemma dropWhile_split: "\<exists>rs. k = rs @ dropWhile P k \<and> (\<forall>c\<in>set rs. P c)"
  by (rule exI [of _ "takeWhile P k"]) (auto dest: set_takeWhileD)

text \<open>
  The first line of a block, from the line feed the request line leaves to the state after the
  line: leading \<open>r\<close>s of the key are skipped like line feeds.
\<close>

definition skip_r :: "string \<Rightarrow> string" where
  "skip_r k = dropWhile (\<lambda>c. c = CHR ''r'') k"

lemma loop_first_line:
  assumes s: "s = LF # render_header (k, v) @ post"
    and ok: "ok_header (k, v)" and ne: "skip_r k \<noteq> []"
    and sc: "scan_state sc = H_START" "\<not> finished sc" and len: "length s < 2147483648"
  defines "e \<equiv> length (LF # render_header (k, v))"
  shows "\<exists>sc'. header_loop s 0 sc = header_loop s e sc' \<and> scan_state sc' = H_LF \<and> \<not> finished sc'
     \<and> scan_headers sc' = (scan_headers sc)(skip_r k \<mapsto> v) \<and> scan_cur sc' = int e - 1"
proof -
  obtain rs where rs: "k = rs @ skip_r k" "\<forall>c\<in>set rs. c = CHR ''r''"
    using dropWhile_split [of k "\<lambda>c. c = CHR ''r''"] unfolding skip_r_def by blast
  obtain c kk where ck: "skip_r k = c # kk" using ne by (cases "skip_r k") auto
  have c: "c \<noteq> CHR ''r''" using ck by (simp add: skip_r_def dropWhile_eq_Cons_conv)
  have "list_all key_char k" using ok by (simp add: ok_header_def)
  then have "list_all key_char (c # kk)" using rs(1) ck by (metis list_all_append)
  then have keys: "key_char c" "\<forall>c\<in>set kk. key_char c" by (simp_all add: list_all_iff)
  have okv: "v \<noteq> []" "CR \<notin> set v" "length v \<le> 256" using ok by (auto simp: ok_header_def)
  let ?p0 = "LF # rs"
  have s': "s = ?p0 @ ([c] @ kk) @ '': '' @ v @ [CR, LF] @ post"
    using s rs(1) ck by (simp add: render_header_def)
  have e: "e = length ?p0 + length ([c] @ kk) + length v + 4"
  proof -
    have "length k = length rs + length (c # kk)" using rs(1) ck by (metis length_append)
    then show ?thesis by (simp add: e_def render_header_def)
  qed
  have "header_loop s (length ([] :: string)) sc = header_loop s (length ([] :: string) + length ?p0) sc"
    by (rule loop_start) (use s' rs sc in auto)
  then have "header_loop s 0 sc = header_loop s (length ?p0) sc" by simp
  also have "\<dots> = header_loop s (length (?p0 @ [c]))
      (sc\<lparr>scan_state := H_KEY, key_start := int (length ?p0), scan_cur := int (length ?p0)\<rparr>)"
  proof -
    have "to_int32 (int (length ?p0)) = int (length ?p0)" using s' len by (simp add: to_int32_small)
    moreover have "s ! length ?p0 = c" using s' by (simp add: nth_append)
    ultimately have "header_step s (length ?p0) sc
        = Go (sc\<lparr>scan_state := H_KEY, key_start := int (length ?p0), scan_cur := int (length ?p0)\<rparr>)"
      using sc c keys(1) by (simp add: header_step_def Let_def key_char_def)
    then show ?thesis using s' sc by (subst header_loop_go) auto
  qed
  also have "\<dots> = header_loop s e (sc\<lparr>key_start := int (length ?p0),
        key_end := int (length ?p0 + length ([c] @ kk)),
        value_start := int (length ?p0 + length ([c] @ kk) + 2),
        value_end := int (length ?p0 + length ([c] @ kk) + 2 + length v),
        scan_state := H_LF, scan_headers := (scan_headers sc)([c] @ kk \<mapsto> v),
        scan_cur := int (length ?p0 + length ([c] @ kk) + length v + 3)\<rparr>)"
    (is "_ = header_loop s e ?sc1")
    unfolding e by (subst loop_line [OF s' keys(2) _ okv]) (use sc len in simp_all)
  finally have eq: "header_loop s 0 sc = header_loop s e ?sc1" .
  show ?thesis by (rule exI, rule conjI, rule eq) (use sc ck in \<open>simp add: e\<close>)
qed

lemma loop_finish:
  assumes "s = p0 @ [CR, LF] @ rest" and "scan_state sc = H_LF" and "\<not> finished sc"
  shows "\<exists>sc'. header_loop s (length p0) sc = Scanned (length s - length (tl rest)) sc'
     \<and> scan_state sc' = H_END_LF \<and> scan_headers sc' = scan_headers sc"
proof -
  let ?b = "sc\<lparr>scan_state := H_END_LF\<rparr>"
  have "header_loop s (length p0) sc = header_loop s (Suc (length p0)) (sc\<lparr>scan_state := H_END_CR\<rparr>)"
    using assms by (subst header_loop_go) (auto simp: header_step_def Let_def nth_append)
  also have "\<dots> = header_loop s (length p0 + 2) ?b"
    using assms by (subst header_loop_go [where sc' = ?b]) (auto simp: header_step_def Let_def nth_append)
  finally have two: "header_loop s (length p0) sc = header_loop s (length p0 + 2) ?b" .
  show ?thesis
  proof (cases rest)
    case Nil
    then show ?thesis using two assms(1) by (simp add: header_loop_end)
  next
    case (Cons c cs)
    let ?c = "?b\<lparr>finished := True, key_start := to_int32 (int (length p0 + 2)),
        scan_cur := to_int32 (int (length p0 + 2))\<rparr>"
    have "header_loop s (length p0 + 2) ?b = header_loop s (Suc (length p0 + 2)) ?c"
      using assms Cons by (subst header_loop_go [where sc' = ?c]) (auto simp: header_step_def Let_def)
    also have "\<dots> = Scanned (length p0 + 3) ?c" by (subst header_loop_end) auto
    finally show ?thesis using two assms(1) Cons by auto
  qed
qed

lemma parse_Headers_block:
  assumes "parse_state h = H_START"
    and "buffer_in h = LF # render_headers ((k, v) # hs) @ [CR, LF] @ rest"
    and "list_all ok_header ((k, v) # hs)" and "skip_r k \<noteq> []"
    and "length (buffer_in h) < 2147483648"
  shows "parse_Headers h = Inr (PARSE_HEADER_SUCCESS,
     h\<lparr>parse_state := H_END_LF, headers := store_headers (headers h) ((skip_r k, v) # hs),
       buffer_in := tl rest\<rparr>)"
proof -
  let ?s = "buffer_in h" and ?p1 = "LF # render_header (k, v)"
  have s: "?s = LF # render_header (k, v) @ (render_headers hs @ [CR, LF] @ rest)"
    using assms(2) by simp
  have ok: "ok_header (k, v)" and oks: "list_all ok_header hs" using assms(3) by simp_all
  obtain sc1 where sc1: "header_loop ?s 0 (header_scan_start h) = header_loop ?s (length ?p1) sc1"
      "scan_state sc1 = H_LF" "\<not> finished sc1" "scan_headers sc1 = (headers h)(skip_r k \<mapsto> v)"
      "scan_cur sc1 = int (length ?p1) - 1"
    using loop_first_line [OF s ok assms(4), of "header_scan_start h"] assms(1,5)
    by (auto simp: header_scan_start_def)
  have s1: "?s = ?p1 @ render_headers hs @ ([CR, LF] @ rest)" using s by simp
  obtain sc2 where sc2: "header_loop ?s (length ?p1) sc1 = header_loop ?s (length (?p1 @ render_headers hs)) sc2"
      "scan_state sc2 = H_LF" "\<not> finished sc2" "scan_headers sc2 = store_headers (scan_headers sc1) hs"
    using loop_lines [OF s1 oks sc1(2,3) assms(5) _ sc1(5)] by auto
  have s2: "?s = (?p1 @ render_headers hs) @ [CR, LF] @ rest" using s by simp
  obtain sc3 where sc3: "header_loop ?s (length (?p1 @ render_headers hs)) sc2
        = Scanned (length ?s - length (tl rest)) sc3"
      "scan_state sc3 = H_END_LF" "scan_headers sc3 = scan_headers sc2"
    using loop_finish [OF s2 sc2(2,3)] by auto
  have "\<exists>x. ?s = x @ tl rest" using s2 by (cases rest) (simp, metis append_assoc append_Cons append_Nil list.sel(3))
  then have "drop (length ?s - length (tl rest)) ?s = tl rest" by auto
  moreover have "length (tl rest) \<le> npos" using assms(2,5) by (simp add: npos_def)
  ultimately show ?thesis
    using sc1(1,4) sc2(1,4) sc3 by (simp add: parse_Headers_def Let_def)
qed

text \<open>
  C3. A complete header block after the request line is parsed as a sequence of stores: every
  line \<open>key: value\<close> puts its value under its key, later lines overwriting earlier ones, and the
  call reports success. Two deviations of the code are exact in the statement: leading \<open>r\<close>s of
  the first key are lost (the code compares with the letter r where it means the carriage
  return), and the first byte after the block is dropped together with it (\<open>tl rest\<close>), because
  the loop advances once more after it is finished.
\<close>

theorem parse_Headers_complete:
  assumes "parse_state h = H_START"
    and "buffer_in h = LF # render_headers ((k, v) # hs) @ [CR, LF] @ rest"
    and "list_all ok_header ((k, v) # hs)" and "skip_r k \<noteq> []"
    and "length (buffer_in h) < 2147483648"
  shows "parse_Headers h = Inr (PARSE_HEADER_SUCCESS,
     h\<lparr>parse_state := H_END_LF, headers := store_headers (headers h) ((skip_r k, v) # hs),
       buffer_in := tl rest\<rparr>)"
  by (rule parse_Headers_block [OF assms])

theorem parse_Headers_complete_witness:
  "parse_Headers ((new_http_data 0 0 5)\<lparr>buffer_in :=
       LF # render_headers [(''rHost'', ''a''), (''X'', ''bc'')] @ [CR, LF] @ ''12''\<rparr>)
     = Inr (PARSE_HEADER_SUCCESS, (new_http_data 0 0 5)\<lparr>parse_state := H_END_LF,
         headers := [''Host'' \<mapsto> ''a'', ''X'' \<mapsto> ''bc''], buffer_in := ''2''\<rparr>)"
proof -
  let ?h = "(new_http_data 0 0 5)\<lparr>buffer_in :=
       LF # render_headers [(''rHost'', ''a''), (''X'', ''bc'')] @ [CR, LF] @ ''12''\<rparr>"
  have "parse_Headers ?h = Inr (PARSE_HEADER_SUCCESS, ?h\<lparr>parse_state := H_END_LF,
     headers := store_headers (headers ?h) ((skip_r ''rHost'', ''a'') # [(''X'', ''bc'')]),
     buffer_in := tl ''12''\<rparr>)"
    by (rule parse_Headers_complete)
      (simp_all add: new_http_data_def render_header_def ok_header_def key_char_def skip_r_def CR_def LF_def)
  then show ?thesis by (simp add: skip_r_def new_http_data_def)
qed

text \<open>
  A request without header lines is always rejected: when the blank line follows the request
  line at once, as the protocol allows, the header parser takes the carriage return of the blank
  line for the first character of a key and reports an error, which \<open>handle_read\<close> answers
  with status 400.
\<close>

theorem parse_Headers_no_lines:
  assumes "parse_state h = H_START" and "buffer_in h = LF # [CR, LF] @ rest"
  shows "parse_Headers h = Inr (PARSE_HEADER_ERROR, h\<lparr>parse_state := H_KEY\<rparr>)"
proof -
  let ?a = "header_scan_start h"
  let ?b = "?a\<lparr>scan_state := H_KEY, key_start := 1, scan_cur := 1\<rparr>"
  have "header_loop (buffer_in h) 0 ?a = header_loop (buffer_in h) (Suc 0) ?a"
    using assms by (intro header_loop_go) (auto simp: header_step_def header_scan_start_def Let_def)
  also have "\<dots> = header_loop (buffer_in h) (Suc (Suc 0)) ?b"
    using assms
    by (intro header_loop_go) (auto simp: header_step_def header_scan_start_def Let_def to_int32_def)
  also have "\<dots> = Rejected ?b"
    using assms by (intro header_loop_stop) (auto simp: header_step_def header_scan_start_def Let_def)
  finally show ?thesis by (simp add: parse_Headers_def header_scan_start_def)
qed

theorem parse_Headers_no_lines_witness:
  "parse_Headers ((new_http_data 0 0 5)\<lparr>buffer_in := [LF, CR, LF]\<rparr>)
     = Inr (PARSE_HEADER_ERROR, (new_http_data 0 0 5)\<lparr>buffer_in := [LF, CR, LF], parse_state := H_KEY\<rparr>)"
  using parse_Headers_no_lines [of "(new_http_data 0 0 5)\<lparr>buffer_in := [LF, CR, LF]\<rparr>" "[]"]
  by (simp add: new_http_data_def)

section \<open>Safety of a fresh call\<close>

text \<open>The indices the automaton has set, state by state.\<close>

definition scan_ok :: "nat \<Rightarrow> header_scan \<Rightarrow> bool" where
  "scan_ok i sc =
     (0 \<le> scan_cur sc \<and> scan_cur sc \<le> int i \<and>
      (scan_state sc \<in> {H_KEY, H_COLON, H_SPACES_AFTER_COLON, H_VALUE, H_CR} \<longrightarrow> 0 \<le> key_start sc) \<and>
      (scan_state sc \<in> {H_COLON, H_SPACES_AFTER_COLON, H_VALUE, H_CR} \<longrightarrow>
         key_start sc < key_end sc \<and> key_end sc \<le> int i) \<and>
      (scan_state sc \<in> {H_VALUE, H_CR} \<longrightarrow> 0 \<le> value_start sc) \<and>
      (scan_state sc = H_CR \<longrightarrow> value_start sc < value_end sc \<and> value_end sc \<le> int i))"

lemma header_step_ok:
  assumes "scan_ok i sc" and "i < length s" and "length s < 2147483648"
  shows "case header_step s i sc of Go sc' \<Rightarrow> scan_ok (Suc i) sc' | Stop sc' \<Rightarrow> True | Crash e \<Rightarrow> False"
proof -
  have n: "to_int32 (int i) = int i" using assms by (simp add: to_int32_small)
  show ?thesis
  proof (cases "scan_state sc")
    case H_CR
    then show ?thesis using assms n
      by (auto simp: header_step_def store_header_def scan_ok_def range_string_def Let_def)
  qed (use assms n in \<open>auto simp: header_step_def scan_ok_def Let_def\<close>)
qed

lemma header_loop_ok:
  assumes "scan_ok i sc" and "i \<le> length s" and "length s < 2147483648"
  shows "case header_loop s i sc of
           Scanned j sc' \<Rightarrow> j \<le> length s \<and> scan_ok j sc' | Rejected sc' \<Rightarrow> True | Crashed e \<Rightarrow> False"
  using assms
proof (induction s i sc rule: header_loop.induct)
  case (1 s i sc)
  show ?case
  proof (cases "i < length s \<and> \<not> finished sc")
    case True
    note ok = header_step_ok [OF "1.prems"(1) conjunct1 [OF True] "1.prems"(3)]
    show ?thesis
    proof (cases "header_step s i sc")
      case (Go sc')
      have "case header_loop s (Suc i) sc' of
           Scanned j sc' \<Rightarrow> j \<le> length s \<and> scan_ok j sc' | Rejected sc' \<Rightarrow> True | Crashed e \<Rightarrow> False"
        by (rule "1.IH" [OF True Go]) (use True Go ok "1.prems" in auto)
      then show ?thesis using True Go by (simp add: header_loop_go)
    qed (use True ok in \<open>simp_all add: header_loop_stop\<close>)
  next
    case False
    then show ?thesis using "1.prems" by (subst header_loop.simps) auto
  qed
qed

lemma parse_Headers_returns:
  assumes "parse_state h = H_START" and "length (buffer_in h) < 2147483648"
  shows "\<exists>st h'. parse_Headers h = Inr (st, h')"
proof -
  have "scan_ok 0 (header_scan_start h)"
    using assms(1) by (simp add: scan_ok_def header_scan_start_def)
  from header_loop_ok [OF this _ assms(2)]
  have ok: "case header_loop (buffer_in h) 0 (header_scan_start h) of
      Scanned j sc' \<Rightarrow> j \<le> length (buffer_in h) \<and> scan_ok j sc' | Rejected sc' \<Rightarrow> True | Crashed e \<Rightarrow> False"
    by simp
  show ?thesis
  proof (cases "header_loop (buffer_in h) 0 (header_scan_start h)")
    case (Scanned j sc)
    with ok have j: "j \<le> length (buffer_in h)" "0 \<le> scan_cur sc" "scan_cur sc \<le> int j"
      by (auto simp: scan_ok_def)
    then have "int_to_size (scan_cur sc) \<le> length (buffer_in h)"
      using assms(2) by (simp add: int_to_size_small)
    then show ?thesis using Scanned j by (simp add: parse_Headers_def Let_def)
  qed (use ok in \<open>simp_all add: parse_Headers_def\<close>)
qed

text \<open>
  C23. A header parse that starts fresh is safe: from \<open>H_START\<close>, on every buffer shorter than
  2 GiB, it never builds a string from unset indices and never cuts outside the buffer, so the call
  returns one of the three results.
\<close>

theorem parse_Headers_fresh_safe:
  assumes "parse_state h = H_START" and "length (buffer_in h) < 2147483648"
  shows "\<exists>st h'. parse_Headers h = Inr (st, h')"
  by (rule parse_Headers_returns [OF assms])

theorem parse_Headers_fresh_safe_witness:
  "\<exists>st h'. parse_Headers ((new_http_data 0 0 5)\<lparr>buffer_in := LF # ''Ho''\<rparr>) = Inr (st, h')"
  by (rule parse_Headers_fresh_safe) (simp_all add: new_http_data_def)

section \<open>Blocks that arrive in two reads\<close>

text \<open>The automaton inside a key at the end of the buffer.\<close>

lemma loop_partial_key:
  assumes "s = p0 @ p" and "p \<noteq> []" and "\<forall>c\<in>set p. key_char c"
    and "scan_state sc = H_LF" and "\<not> finished sc" and "length s < 2147483648"
  shows "header_loop s (length p0) sc
    = Scanned (length s) (sc\<lparr>key_start := int (length p0), scan_state := H_KEY\<rparr>)"
proof -
  obtain c k where p: "p = c # k" using assms(2) by (cases p) auto
  let ?a = "sc\<lparr>key_start := int (length p0), scan_state := H_KEY\<rparr>"
  have "to_int32 (int (length p0)) = int (length p0)" using assms(1,6) by (simp add: to_int32_small)
  then have "header_loop s (length p0) sc = header_loop s (length (p0 @ [c])) ?a"
    using assms(1,3-5) p
    by (subst header_loop_go [where sc' = ?a]) (auto simp: header_step_def Let_def key_char_def nth_append)
  also have "\<dots> = header_loop s (length (p0 @ [c]) + length k) ?a"
    by (rule loop_key [where post = "[]"]) (use assms p in auto)
  also have "\<dots> = Scanned (length s) ?a" using assms(1) p by (simp add: header_loop_end)
  finally show ?thesis .
qed

lemma render_headers_last:
  "hs \<noteq> [] \<Longrightarrow> \<exists>x. render_headers hs = x @ [LF]"
proof (induction hs)
  case (Cons kv hs)
  then show ?case
    by (cases "hs = []") (auto simp: render_header_def)
qed simp

text \<open>
  A header block that arrives in two reads, cut inside the name of its second or a later
  header, is rejected whatever follows: the first call asks for more input but leaves the line
  feed of the last complete line in the buffer while the automaton stays inside a key, so the
  next call meets the line feed there and reports an error (status 400).
\<close>

theorem parse_Headers_split_rejected:
  assumes "parse_state h = H_START"
    and "buffer_in h = LF # render_headers ((k, v) # hs) @ p"
    and "list_all ok_header ((k, v) # hs)" and "skip_r k \<noteq> []"
    and "p \<noteq> []" and "list_all key_char p"
    and "length (buffer_in h) < 2147483648"
  shows "\<exists>h1. parse_Headers h = Inr (PARSE_HEADER_AGAIN, h1) \<and> buffer_in h1 = LF # p
     \<and> (\<forall>later. \<exists>h2. parse_Headers (h1\<lparr>buffer_in := buffer_in h1 @ later\<rparr>) = Inr (PARSE_HEADER_ERROR, h2))"
proof -
  let ?s = "buffer_in h" and ?p1 = "LF # render_header (k, v)"
  have s: "?s = LF # render_header (k, v) @ (render_headers hs @ p)" using assms(2) by simp
  have ok: "ok_header (k, v)" and oks: "list_all ok_header hs" using assms(3) by simp_all
  obtain sc1 where sc1: "header_loop ?s 0 (header_scan_start h) = header_loop ?s (length ?p1) sc1"
      "scan_state sc1 = H_LF" "\<not> finished sc1" "scan_cur sc1 = int (length ?p1) - 1"
    using loop_first_line [OF s ok assms(4), of "header_scan_start h"] assms(1,7)
    by (auto simp: header_scan_start_def)
  have s1: "?s = ?p1 @ render_headers hs @ p" using s by simp
  let ?p2 = "?p1 @ render_headers hs"
  obtain sc2 where sc2: "header_loop ?s (length ?p1) sc1 = header_loop ?s (length ?p2) sc2"
      "scan_state sc2 = H_LF" "\<not> finished sc2" "scan_cur sc2 = int (length ?p2) - 1"
    using loop_lines [OF s1 oks sc1(2,3) assms(7) _ sc1(4)] by auto
  have s2: "?s = ?p2 @ p" using s by simp
  let ?sc3 = "sc2\<lparr>key_start := int (length ?p2), scan_state := H_KEY\<rparr>"
  have loop: "header_loop ?s 0 (header_scan_start h) = Scanned (length ?s) ?sc3"
    using loop_partial_key [OF s2 assms(5) _ sc2(2,3) assms(7)] assms(6) sc1(1) sc2(1)
    by (simp add: list_all_iff)
  obtain x where x: "?p2 = x @ [LF]"
    using render_headers_last [of "(k, v) # hs"] by auto
  then have xs: "?s = x @ LF # p" using s2 by simp
  have "length ?p2 = length x + 1" using x by (metis length_append length_Cons list.size(3) One_nat_def)
  then have "scan_cur ?sc3 = int (length x)" using sc2(4) by simp
  then have cur: "int_to_size (scan_cur ?sc3) = length x"
    using assms(7) xs by (simp add: int_to_size_small)
  have "drop (length x) ?s = LF # p" using xs by simp
  moreover have "length (LF # p) \<le> npos" using assms(7) xs by (simp add: npos_def)
  ultimately have first: "parse_Headers h = Inr (PARSE_HEADER_AGAIN,
      h\<lparr>parse_state := H_KEY, headers := scan_headers sc2, buffer_in := LF # p\<rparr>)"
    using loop cur xs by (simp add: parse_Headers_def Let_def)
  have "\<exists>h2. parse_Headers (g\<lparr>buffer_in := (LF # p) @ later\<rparr>) = Inr (PARSE_HEADER_ERROR, h2)"
    if "parse_state g = H_KEY" for g later
  proof -
    let ?g = "g\<lparr>buffer_in := (LF # p) @ later\<rparr>"
    have "header_loop (buffer_in ?g) 0 (header_scan_start ?g) = Rejected (header_scan_start ?g)"
      using that by (intro header_loop_stop) (auto simp: header_step_def header_scan_start_def Let_def)
    then show ?thesis by (simp add: parse_Headers_def)
  qed
  then show ?thesis using first by simp
qed

theorem parse_Headers_split_rejected_witness:
  "\<exists>h1. parse_Headers ((new_http_data 0 0 5)\<lparr>buffer_in :=
        LF # render_headers [(''Host'', ''a'')] @ ''Conn''\<rparr>) = Inr (PARSE_HEADER_AGAIN, h1)
     \<and> (\<exists>h2. parse_Headers (h1\<lparr>buffer_in := buffer_in h1 @ ''ection: close''\<rparr>)
           = Inr (PARSE_HEADER_ERROR, h2))"
proof -
  let ?h = "(new_http_data 0 0 5)\<lparr>buffer_in := LF # render_headers [(''Host'', ''a'')] @ ''Conn''\<rparr>"
  have "\<exists>h1. parse_Headers ?h = Inr (PARSE_HEADER_AGAIN, h1) \<and> buffer_in h1 = LF # ''Conn''
     \<and> (\<forall>later. \<exists>h2. parse_Headers (h1\<lparr>buffer_in := buffer_in h1 @ later\<rparr>) = Inr (PARSE_HEADER_ERROR, h2))"
    by (rule parse_Headers_split_rejected [where k = "''Host''" and v = "''a''" and hs = "[]"])
      (simp_all add: new_http_data_def render_header_def ok_header_def key_char_def skip_r_def CR_def LF_def)
  then show ?thesis by blast
qed

text \<open>
  A header block cut inside its first header name is worse: the second call builds the key
  from the index -1 its local still holds, which is undefined behaviour (the iterator
  \<open>begin() - 1\<close>).
\<close>

theorem parse_Headers_split_first_key:
  assumes "parse_state h = H_START" and "buffer_in h = LF # k1"
    and "k1 \<noteq> []" and "hd k1 \<noteq> CHR ''r''" and "list_all key_char k1" and "list_all key_char k2"
    and "v \<noteq> []" and "CR \<notin> set v" and "length v \<le> 256"
    and "later = k2 @ '': '' @ v @ [CR, LF] @ rest" and "length k1 + length later < 2147483647"
  shows "\<exists>h1. parse_Headers h = Inr (PARSE_HEADER_AGAIN, h1)
     \<and> parse_Headers (h1\<lparr>buffer_in := buffer_in h1 @ later\<rparr>) = Inl Undefined_Behaviour"
proof -
  obtain c k where k1: "k1 = c # k" using assms(3) by (cases k1) auto
  let ?s = "buffer_in h" and ?a = "header_scan_start h"
  let ?b = "?a\<lparr>scan_state := H_KEY, key_start := 1, scan_cur := 1\<rparr>"
  have "header_loop ?s 0 ?a = header_loop ?s (Suc 0) ?a"
    using assms(1,2) by (intro header_loop_go) (auto simp: header_step_def header_scan_start_def Let_def)
  also have "\<dots> = header_loop ?s (length [LF, c]) ?b"
    using assms(1,2,4,5) k1
    by (subst header_loop_go [where sc' = ?b])
      (auto simp: header_step_def header_scan_start_def Let_def to_int32_def key_char_def)
  also have "\<dots> = header_loop ?s (length [LF, c] + length k) ?b"
    by (rule loop_key [where post = "[]"])
      (use assms(2,5) k1 in \<open>auto simp: header_scan_start_def list_all_iff\<close>)
  also have "\<dots> = Scanned (length ?s) ?b" using assms(2) k1 by (simp add: header_loop_end)
  finally have first: "parse_Headers h = Inr (PARSE_HEADER_AGAIN,
      h\<lparr>parse_state := H_KEY, buffer_in := k1\<rparr>)"
    using assms(2,11) by (simp add: parse_Headers_def header_scan_start_def int_to_size_def npos_def Let_def)
  let ?g = "h\<lparr>parse_state := H_KEY, buffer_in := k1 @ later\<rparr>"
  let ?n = "length (k1 @ k2)" and ?t = "k1 @ later" and ?c = "header_scan_start ?g"
  have t: "?t = [] @ ([] @ k1 @ k2) @ '': '' @ v @ [CR, LF] @ rest" using assms(10) by simp
  have len: "length ?t < 2147483648" using assms(11) by simp
  let ?d = "?c\<lparr>key_end := int ?n, value_start := int (?n + 2), scan_state := H_CR,
          value_end := int (?n + 2 + length v)\<rparr>"
  have "header_loop ?t (length ([] @ [] :: string)) ?c = header_loop ?t (Suc (?n + 2 + length v)) ?d"
    by (rule loop_to_CR [OF t])
      (use assms(5-9) len in \<open>auto simp: header_scan_start_def list_all_iff\<close>)
  also have "\<dots> = Crashed Undefined_Behaviour"
  proof (rule header_loop_crash)
    have "?t ! Suc (?n + 2 + length v) = LF" by (simp add: t nth_append)
    then show "header_step ?t (Suc (?n + 2 + length v)) ?d = Crash Undefined_Behaviour"
      by (simp add: header_step_def store_header_def header_scan_start_def range_string_def)
  qed (use assms(10) in \<open>simp_all add: header_scan_start_def\<close>)
  finally have "parse_Headers ?g = Inl Undefined_Behaviour" by (simp add: parse_Headers_def)
  then show ?thesis using first by simp
qed

theorem parse_Headers_split_first_key_witness:
  "\<exists>h1. parse_Headers ((new_http_data 0 0 5)\<lparr>buffer_in := LF # ''Ho''\<rparr>) = Inr (PARSE_HEADER_AGAIN, h1)
     \<and> parse_Headers (h1\<lparr>buffer_in := buffer_in h1 @ ''st: a'' @ [CR, LF, CR, LF]\<rparr>)
       = Inl Undefined_Behaviour"
  by (rule parse_Headers_split_first_key [where ?k1.0 = "''Ho''" and ?k2.0 = "''st''" and v = "''a''" and rest = "[CR, LF]"])
    (simp_all add: new_http_data_def key_char_def CR_def LF_def)

end
