(* ===== verification/Util_IO.thy ===== *)
theory Util_IO
  imports Cpp_String
begin

unbundle bit_operations_syntax

text \<open>
  \<open>Util.cpp\<close>: the loops around \<open>read\<close> and \<open>write\<close> and the socket set-up. The kernel
  is an argument: the list of the results its successive calls give, so a function that has used
  the whole list without returning has not returned yet (\<open>None\<close>). What a loop hands to the
  kernel is part of its result.
\<close>

section \<open>System calls\<close>

datatype errno = EINTR | EAGAIN | EOTHER

datatype 'a sysres = Ret 'a | Err errno

type_synonym reads = "string sysres list"
type_synonym writes = "nat sysres list"

definition MAX_BUFFER_SIZE :: nat where
  "MAX_BUFFER_SIZE = 4096"

section \<open>Reading\<close>

text \<open>
  \<open>readn(int, void*, size_t)\<close>. The test for the end of file is an assignment in the source
  (\<open>n_read = 0\<close>): it clears the count and never breaks the loop. The model follows it; a read
  writes at \<open>buff_ptr\<close>, the cell \<open>p\<close> of the caller's memory.
\<close>

fun readn_buf ::
  "reads \<Rightarrow> string \<Rightarrow> nat \<Rightarrow> nat \<Rightarrow> int \<Rightarrow> (int \<times> string \<times> reads) result option" where
  "readn_buf es mem p n_left sum_read =
     (if n_left = 0 then Some (Inr (sum_read, mem, es))
      else case es of
        [] \<Rightarrow> None
      | Err e # es' \<Rightarrow>
          (case e of
             EINTR \<Rightarrow> (let n_read = 0 in
               readn_buf es' mem (p + n_read) (n_left - n_read) (sum_read + int n_read))
           | EAGAIN \<Rightarrow> Some (Inr (sum_read, mem, es'))
           | EOTHER \<Rightarrow> Some (Inr (- 1, mem, es')))
      | Ret bs # es' \<Rightarrow>
          (case mem_write mem p bs of
             Inl f \<Rightarrow> Some (Inl f)
           | Inr mem' \<Rightarrow> (let n_read = 0 in
               readn_buf es' mem' (p + n_read) (n_left - n_read) (sum_read + int n_read))))"

declare readn_buf.simps [simp del]

text \<open>\<open>readn(int, std::string&, bool&)\<close>.\<close>

fun readn_zero ::
  "reads \<Rightarrow> string \<Rightarrow> bool \<Rightarrow> int \<Rightarrow> (int \<times> string \<times> bool \<times> reads) option" where
  "readn_zero [] buffer_in zero sum_read = None"
| "readn_zero (Err e # es) buffer_in zero sum_read =
     (case e of
        EINTR \<Rightarrow> readn_zero es buffer_in zero sum_read
      | EAGAIN \<Rightarrow> Some (sum_read, buffer_in, zero, es)
      | EOTHER \<Rightarrow> Some (- 1, buffer_in, zero, es))"
| "readn_zero (Ret bs # es) buffer_in zero sum_read =
     (let n_read = int (length bs) in
      if n_read = 0 then Some (sum_read, buffer_in, True, es)
      else readn_zero es (buffer_in @ bs) zero (sum_read + n_read))"

text \<open>\<open>readn(int, std::string&)\<close>.\<close>

fun readn :: "reads \<Rightarrow> string \<Rightarrow> int \<Rightarrow> (int \<times> string \<times> reads) option" where
  "readn [] buffer_in sum_read = None"
| "readn (Err e # es) buffer_in sum_read =
     (case e of
        EINTR \<Rightarrow> readn es buffer_in sum_read
      | EAGAIN \<Rightarrow> Some (sum_read, buffer_in, es)
      | EOTHER \<Rightarrow> Some (- 1, buffer_in, es))"
| "readn (Ret bs # es) buffer_in sum_read =
     (let n_read = int (length bs) in
      if n_read = 0 then Some (sum_read, buffer_in, es)
      else readn es (buffer_in @ bs) (sum_read + n_read))"

section \<open>Writing\<close>

text \<open>
  The loop both \<open>writen\<close> functions share: \<open>data\<close> from \<open>buffer_ptr\<close> on; the bytes the
  kernel took are collected in \<open>sent\<close>. A count above the length asked for would wrap
  \<open>n_left\<close>; it is undefined here.
\<close>

datatype write_end = Written int string writes | Again int string writes | Failed string writes

fun write_loop :: "writes \<Rightarrow> string \<Rightarrow> int \<Rightarrow> string \<Rightarrow> write_end result option" where
  "write_loop es data sum_write sent =
     (if data = [] then Some (Inr (Written sum_write sent es))
      else case es of
        [] \<Rightarrow> None
      | Err e # es' \<Rightarrow>
          (case e of
             EINTR \<Rightarrow> write_loop es' data sum_write sent
           | EAGAIN \<Rightarrow> Some (Inr (Again sum_write sent es'))
           | EOTHER \<Rightarrow> Some (Inr (Failed sent es')))
      | Ret n_write # es' \<Rightarrow>
          if n_write > length data then Some (Inl Undefined_Behaviour)
          else write_loop es' (drop n_write data) (sum_write + int n_write) (sent @ take n_write data))"

declare write_loop.simps [simp del]

lemma write_loop_call:
  "write_loop es [] s sent = Some (Inr (Written s sent es))"
  "data \<noteq> [] \<Longrightarrow> write_loop [] data s sent = None"
  "data \<noteq> [] \<Longrightarrow> write_loop (Ret n # es) data s sent =
     (if n > length data then Some (Inl Undefined_Behaviour)
      else write_loop es (drop n data) (s + int n) (sent @ take n data))"
  "data \<noteq> [] \<Longrightarrow> write_loop (Err EINTR # es) data s sent = write_loop es data s sent"
  "data \<noteq> [] \<Longrightarrow> write_loop (Err EAGAIN # es) data s sent = Some (Inr (Again s sent es))"
  "data \<noteq> [] \<Longrightarrow> write_loop (Err EOTHER # es) data s sent = Some (Inr (Failed sent es))"
  by (subst write_loop.simps, simp)+

definition writen_buf :: "writes \<Rightarrow> string \<Rightarrow> (int \<times> string \<times> writes) result option" where
  "writen_buf es data =
     (case write_loop es data 0 [] of
        None \<Rightarrow> None
      | Some (Inl f) \<Rightarrow> Some (Inl f)
      | Some (Inr (Written s sent es')) \<Rightarrow> Some (Inr (s, sent, es'))
      | Some (Inr (Again s sent es')) \<Rightarrow> Some (Inr (s, sent, es'))
      | Some (Inr (Failed sent es')) \<Rightarrow> Some (Inr (- 1, sent, es')))"

text \<open>\<open>writen(int, std::string&)\<close>: the result, the buffer after, the bytes sent.\<close>

definition cut_written :: "string \<Rightarrow> int \<Rightarrow> string result" where
  "cut_written buffer sum_write =
     (if sum_write = to_int32 (int (length buffer)) then Inr []
      else substr buffer (int_to_size sum_write) npos)"

definition writen :: "writes \<Rightarrow> string \<Rightarrow> (int \<times> string \<times> string \<times> writes) result option" where
  "writen es buffer =
     (case write_loop es buffer 0 [] of
        None \<Rightarrow> None
      | Some (Inl f) \<Rightarrow> Some (Inl f)
      | Some (Inr (Written s sent es')) \<Rightarrow>
          Some (bind_result (cut_written buffer s) (\<lambda>b. Inr (s, b, sent, es')))
      | Some (Inr (Again s sent es')) \<Rightarrow>
          Some (bind_result (cut_written buffer s) (\<lambda>b. Inr (s, b, sent, es')))
      | Some (Inr (Failed sent es')) \<Rightarrow> Some (Inr (- 1, buffer, sent, es')))"

section \<open>Socket options and set-up\<close>

text \<open>
  The calls that only configure a descriptor are a trace of operations; their results, where the
  code looks at them, are arguments.
\<close>

datatype sockop =
    Socket
  | Set_Reuseaddr nat
  | Set_Nodelay nat
  | Set_Linger nat nat
  | Bind nat nat
  | Listen nat nat
  | Set_Flags nat "32 word"
  | Shutdown_Write nat
  | Ignore_Sigpipe
  | Close nat

definition O_NONBLOCK :: "32 word" where
  "O_NONBLOCK = 0x800"

text \<open>\<open>getfl\<close> is what \<open>F_GETFL\<close> returns and \<open>setfl\<close> what \<open>F_SETFL\<close> does.\<close>

definition set_socket_nonblock :: "nat \<Rightarrow> 32 word \<Rightarrow> 32 word \<Rightarrow> int \<times> sockop list" where
  "set_socket_nonblock fd getfl setfl =
     (if getfl = - 1 then (- 1, [])
      else let flag = getfl OR O_NONBLOCK in
        if setfl = - 1 then (- 1, [Set_Flags fd flag]) else (0, [Set_Flags fd flag]))"

definition set_socket_nodelay :: "nat \<Rightarrow> sockop list" where
  "set_socket_nodelay fd = [Set_Nodelay fd]"

definition set_socket_nolinger :: "nat \<Rightarrow> sockop list" where
  "set_socket_nolinger fd = [Set_Linger fd 30]"

definition shutdown_writer :: "nat \<Rightarrow> sockop list" where
  "shutdown_writer fd = [Shutdown_Write fd]"

definition handle_for_signal_pipe :: "sockop list" where
  "handle_for_signal_pipe = [Ignore_Sigpipe]"

text \<open>
  \<open>set_socket_bind_listen\<close>: the descriptor \<open>socket\<close> returned (none when it failed) and
  whether each of the later calls succeeded. The port is stored through an \<open>unsigned short\<close>.
\<close>

definition set_socket_bind_listen ::
  "int \<Rightarrow> nat option \<Rightarrow> bool \<Rightarrow> bool \<Rightarrow> bool \<Rightarrow> (int \<times> sockop list) result" where
  "set_socket_bind_listen port socket_fd reuse_ok bind_ok listen_ok =
     (if \<not> (port \<ge> 0 \<and> port \<le> 65535) then Inl Assertion_Failed
      else case socket_fd of
        None \<Rightarrow> Inr (- 1, [Socket])
      | Some listen_fd \<Rightarrow>
          if \<not> reuse_ok then Inr (- 1, [Socket, Set_Reuseaddr listen_fd, Close listen_fd])
          else if \<not> bind_ok then
            Inr (- 1, [Socket, Set_Reuseaddr listen_fd, Bind listen_fd (nat (port mod 65536)), Close listen_fd])
          else if \<not> listen_ok then
            Inr (- 1, [Socket, Set_Reuseaddr listen_fd, Bind listen_fd (nat (port mod 65536)),
                       Listen listen_fd 2048, Close listen_fd])
          else Inr (int listen_fd, [Socket, Set_Reuseaddr listen_fd,
                       Bind listen_fd (nat (port mod 65536)), Listen listen_fd 2048]))"

section \<open>What the read loops return\<close>

text \<open>A result after which the string loop goes on: some bytes, or an interrupted call.\<close>

fun more_reads :: "string sysres \<Rightarrow> bool" where
  "more_reads (Ret bs) = (bs \<noteq> [])"
| "more_reads (Err e) = (e = EINTR)"

fun read_bytes :: "string sysres \<Rightarrow> string" where
  "read_bytes (Ret bs) = bs"
| "read_bytes (Err e) = []"

definition all_bytes :: "reads \<Rightarrow> string" where
  "all_bytes es = concat (map read_bytes es)"

lemma all_bytes_simps [simp]:
  "all_bytes [] = []" "all_bytes (e # es) = read_bytes e @ all_bytes es"
  by (simp_all add: all_bytes_def)

lemma readn_zero_prefix:
  "list_all more_reads es \<Longrightarrow> readn_zero (es @ es') b z s
     = readn_zero es' (b @ all_bytes es) z (s + int (length (all_bytes es)))"
proof (induction es arbitrary: b s)
  case (Cons e es)
  then show ?case by (cases e) (auto simp: add.assoc)
qed simp

lemma readn_prefix:
  "list_all more_reads es \<Longrightarrow> readn (es @ es') b s
     = readn es' (b @ all_bytes es) (s + int (length (all_bytes es)))"
proof (induction es arbitrary: b s)
  case (Cons e es)
  then show ?case by (cases e) (auto simp: add.assoc)
qed simp

lemma readn_zero_pending: "list_all more_reads es \<Longrightarrow> readn_zero es b z s = None"
  using readn_zero_prefix [of es "[]" b z s] by simp

text \<open>
  C13. The string read loop gathers exactly what the kernel delivers: over any run of chunks and
  interrupted calls it appends all bytes in order, and at the first other result it returns the
  number of bytes read on \<open>EAGAIN\<close> and at the end of file, the latter flagged in
  \<open>zero\<close>, and -1 on another error. It has not returned while every result was of the first kind.
\<close>

theorem readn_zero_gathers:
  assumes "list_all more_reads es"
  shows "readn_zero es b z 0 = None
    \<and> readn_zero (es @ Err EAGAIN # rest) b z 0 = Some (int (length (all_bytes es)), b @ all_bytes es, z, rest)
    \<and> readn_zero (es @ Ret [] # rest) b z 0 = Some (int (length (all_bytes es)), b @ all_bytes es, True, rest)
    \<and> readn_zero (es @ Err EOTHER # rest) b z 0 = Some (- 1, b @ all_bytes es, z, rest)"
  using assms by (simp add: readn_zero_prefix readn_zero_pending)

theorem readn_zero_gathers_witness:
  "readn_zero [Ret ''ab'', Err EINTR, Ret ''c'', Ret []] ''x'' False 0 = Some (3, ''xabc'', True, [])"
  using readn_zero_gathers [of "[Ret ''ab'', Err EINTR, Ret ''c'']" "''x''" False "[]"] by simp

text \<open>
  The read loop over raw memory never reports a byte: asked for a positive number of bytes it
  returns 0 or -1, whatever the kernel delivers, and only through an error result; over chunks,
  interrupted calls and ends of file it has not returned. The cause is the assignment in the test
  for the end of file; the reader of the event loop's wake-up counter meets it on every wake-up.
\<close>

fun read_error :: "string sysres \<Rightarrow> bool" where
  "read_error (Ret bs) = False"
| "read_error (Err e) = (e \<noteq> EINTR)"

lemma readn_buf_result:
  assumes "0 < n" and "readn_buf es mem p n s = Some (Inr (r, m, rest))"
  shows "(r = s \<or> r = - 1) \<and> (\<exists>e \<in> set es. read_error e)"
  using assms
proof (induction es mem p n s rule: readn_buf.induct)
  case (1 es mem p n s)
  show ?case
  proof (cases es)
    case Nil
    with "1.prems" show ?thesis by (subst (asm) readn_buf.simps) simp
  next
    case (Cons e es')
    show ?thesis
    proof (cases e)
      case (Ret bs)
      then obtain m' where "mem_write mem p bs = Inr m'" "readn_buf es' m' p n s = Some (Inr (r, m, rest))"
        using "1.prems" Cons by (subst (asm) readn_buf.simps) (auto split: sum.splits)
      then show ?thesis using "1.IH"(1) [OF _ Cons Ret, of m' 0] "1.prems"(1) Cons by simp
    next
      case (Err en)
      show ?thesis
      proof (cases en)
        case EINTR
        then have "readn_buf es' mem p n s = Some (Inr (r, m, rest))"
          using "1.prems" Cons Err by (subst (asm) readn_buf.simps) simp
        then show ?thesis using "1.IH"(2) [OF _ Cons Err EINTR, of 0] "1.prems"(1) Cons by simp
      qed (use "1.prems" Cons Err in \<open>subst (asm) readn_buf.simps, simp\<close>)+
    qed
  qed
qed

theorem readn_buf_never_positive:
  assumes "0 < n" and "readn_buf es mem 0 n 0 = Some (Inr (r, m, rest))"
  shows "r \<in> {0, - 1} \<and> (\<exists>e \<in> set es. read_error e)"
  using readn_buf_result [OF assms] by simp

theorem readn_buf_never_positive_witness:
  "readn_buf [Ret ''12345678'', Err EAGAIN] ''........'' 0 8 0 = Some (Inr (0, ''12345678'', []))
   \<and> (0::int) \<in> {0, - 1}"
proof -
  have run: "readn_buf [Ret ''12345678'', Err EAGAIN] ''........'' 0 8 0 = Some (Inr (0, ''12345678'', []))"
    by (simp add: readn_buf.simps mem_write_def)
  show ?thesis using run readn_buf_never_positive [OF _ run] by simp
qed

section \<open>What the write loops return\<close>

fun end_sent :: "write_end \<Rightarrow> string" where
  "end_sent (Written s sent es) = sent"
| "end_sent (Again s sent es) = sent"
| "end_sent (Failed sent es) = sent"

lemma write_loop_conserves:
  "write_loop es data s sent = Some (Inr w) \<Longrightarrow>
   \<exists>x y. data = x @ y \<and> end_sent w = sent @ x
     \<and> (\<forall>s' t es'. w = Written s' t es' \<longrightarrow> y = [] \<and> s' = s + int (length x))
     \<and> (\<forall>s' t es'. w = Again s' t es' \<longrightarrow> s' = s + int (length x))"
proof (induction es arbitrary: data s sent)
  case Nil
  then show ?case by (cases "data = []") (auto simp: write_loop_call)
next
  case (Cons e es)
  show ?case
  proof (cases "data = [] \<or> e \<in> range Err")
    case True
    then consider "data = []" | "data \<noteq> []" "e = Err EINTR" | "data \<noteq> []" "e = Err EAGAIN" | "data \<noteq> []" "e = Err EOTHER"
      by (auto intro: errno.exhaust)
    then show ?thesis using Cons by cases (auto simp: write_loop_call)
  next
    case False
    then obtain n where d: "data \<noteq> []" "e = Ret n" by (cases e) auto
    then have le: "n \<le> length data"
      and run: "write_loop es (drop n data) (s + int n) (sent @ take n data) = Some (Inr w)"
      using Cons.prems by (simp_all add: write_loop_call split: if_splits)
    from Cons.IH [OF run] obtain x y where
      xy: "drop n data = x @ y" "end_sent w = (sent @ take n data) @ x"
        "\<forall>s' t es'. w = Written s' t es' \<longrightarrow> y = [] \<and> s' = s + int n + int (length x)"
        "\<forall>s' t es'. w = Again s' t es' \<longrightarrow> s' = s + int n + int (length x)"
      by blast
    have "data = (take n data @ x) @ y" using xy(1) by (metis append.assoc append_take_drop_id)
    then show ?thesis using xy(2-4) le by (intro exI [of _ "take n data @ x"] exI [of _ y]) auto
  qed
qed

lemma write_loop_fault:
  "write_loop es data s sent = Some (Inl f) \<Longrightarrow> f = Undefined_Behaviour"
proof (induction es arbitrary: data s sent)
  case Nil
  then show ?case by (subst (asm) write_loop.simps) (auto split: if_splits)
next
  case (Cons e es)
  show ?case
    by (insert Cons.prems, subst (asm) write_loop.simps)
      (auto split: if_splits sysres.splits errno.splits dest: Cons.IH)
qed

lemma cut_written_prefix:
  assumes "length (x @ y) < 2147483648"
  shows "cut_written (x @ y) (int (length x)) = Inr y"
proof -
  have "to_int32 (int (length (x @ y))) = int (length (x @ y))" "int_to_size (int (length x)) = length x"
    using assms by (simp_all add: to_int32_small int_to_size_small)
  then show ?thesis using assms by (simp add: cut_written_def npos_def)
qed

lemma writen_split:
  assumes "writen es buffer = Some r" and "length buffer < 2147483648" and "r \<noteq> Inl Undefined_Behaviour"
  shows "\<exists>n b sent rest. r = Inr (n, b, sent, rest)
     \<and> (n \<noteq> - 1 \<longrightarrow> sent @ b = buffer \<and> n = int (length sent))
     \<and> (n = - 1 \<longrightarrow> b = buffer \<and> (\<exists>y. buffer = sent @ y))"
proof (cases "write_loop es buffer 0 []")
  case None
  then show ?thesis using assms(1) by (simp add: writen_def)
next
  case (Some w)
  show ?thesis
  proof (cases w)
    case (Inl f)
    have "f = Undefined_Behaviour" using Some Inl by (auto dest: write_loop_fault)
    then show ?thesis using assms Some Inl by (simp add: writen_def)
  next
    case (Inr e)
    obtain x y where xy: "buffer = x @ y" "end_sent e = x"
        "\<forall>s' t es'. e = Written s' t es' \<longrightarrow> y = [] \<and> s' = int (length x)"
        "\<forall>s' t es'. e = Again s' t es' \<longrightarrow> s' = int (length x)"
      using write_loop_conserves [OF Some [unfolded Inr]] by auto
    have cut: "cut_written buffer (int (length x)) = Inr y"
      using cut_written_prefix assms(2) xy(1) by simp
    show ?thesis
      using assms(1) Some Inr xy cut by (cases e) (auto simp: writen_def)
  qed
qed



end
