(* ===== verification/Timer_Queue.thy ===== *)
theory Timer_Queue
  imports Prelude "HOL-Library.Multiset"
begin

text \<open>
  \<open>Timer.cpp\<close> and \<open>Timer.h\<close>: the timers of a loop and the priority queue that holds them.
  A timer is a cell of a store, named by its number; the queue holds the only lasting owner of each
  timer, so a weak pointer to a timer locks exactly while its number is queued. Connections are
  numbers too; destroying a timer that still owns its connection closes the connection, which
  the operations report. The queue itself is \<open>std::priority_queue\<close>, known through its contract:
  the locale \<open>priority_queue\<close> states the contract, the loop of \<open>handle_expired_event\<close> is
  verified against it, and a list kept in order of expiry times realises it.
\<close>

section \<open>Timers\<close>

record timer_node =
  deleted :: bool
  expired_time :: nat
  http_data_ptr :: "nat option"

type_synonym timeval = "int \<times> int"

text \<open>
  The clock the timers use: seconds modulo 10000 and microseconds, in milliseconds. Both are not
  negative, so the truncating division of the source is \<open>div\<close>.
\<close>

definition clock_ms :: "timeval \<Rightarrow> int" where
  "clock_ms now = (fst now mod 10000) * 1000 + snd now div 1000"

definition new_timer :: "timeval \<Rightarrow> nat option \<Rightarrow> int \<Rightarrow> timer_node" where
  "new_timer now request_data timeout =
     \<lparr>deleted = False, expired_time = int_to_size (clock_ms now + timeout),
      http_data_ptr = request_data\<rparr>"

text \<open>The copy constructor leaves the flag \<open>delete_\<close> as it finds the memory (\<open>garbage\<close>).\<close>

definition copy_timer :: "bool \<Rightarrow> timer_node \<Rightarrow> timer_node" where
  "copy_timer garbage t = \<lparr>deleted = garbage, expired_time = 0, http_data_ptr = http_data_ptr t\<rparr>"

definition set_deleted :: "timer_node \<Rightarrow> timer_node" where
  "set_deleted t = t\<lparr>deleted := True\<rparr>"

definition is_valid :: "timeval \<Rightarrow> timer_node \<Rightarrow> bool \<times> timer_node" where
  "is_valid now t =
     (let temp = int_to_size (clock_ms now) in
      if temp < expired_time t then (True, t) else (False, set_deleted t))"

definition is_deleted :: "timer_node \<Rightarrow> bool" where
  "is_deleted t = deleted t"

definition update_timer :: "timeval \<Rightarrow> int \<Rightarrow> timer_node \<Rightarrow> timer_node" where
  "update_timer now timeout t = t\<lparr>expired_time := int_to_size (clock_ms now + timeout)\<rparr>"

definition get_expired_time :: "timer_node \<Rightarrow> nat" where
  "get_expired_time t = expired_time t"

definition clear_request :: "timer_node \<Rightarrow> timer_node" where
  "clear_request t = set_deleted (t\<lparr>http_data_ptr := None\<rparr>)"

text \<open>The destructor: the connections on which \<open>handle_close\<close> is called.\<close>

definition destroy_timer :: "timer_node \<Rightarrow> nat list" where
  "destroy_timer t = (case http_data_ptr t of None \<Rightarrow> [] | Some h \<Rightarrow> [h])"

section \<open>The priority queue and its user\<close>

locale priority_queue =
  fixes empty :: "'q"
    and push :: "('a \<Rightarrow> nat) \<Rightarrow> 'a \<Rightarrow> 'q \<Rightarrow> 'q"
    and top :: "'q \<Rightarrow> 'a option"
    and pop :: "'q \<Rightarrow> 'q"
    and elems :: "'q \<Rightarrow> 'a multiset"
    and ordered :: "('a \<Rightarrow> nat) \<Rightarrow> 'q \<Rightarrow> bool"
  assumes elems_empty: "elems empty = {#}"
    and ordered_empty: "ordered key empty"
    and elems_push: "elems (push key x q) = add_mset x (elems q)"
    and ordered_push: "ordered key q \<Longrightarrow> ordered key (push key x q)"
    and top_None: "top q = None \<Longrightarrow> elems q = {#}"
    and top_in: "top q = Some x \<Longrightarrow> x \<in># elems q"
    and top_least: "ordered key q \<Longrightarrow> top q = Some x \<Longrightarrow> y \<in># elems q \<Longrightarrow> key x \<le> key y"
    and elems_pop: "top q = Some x \<Longrightarrow> elems (pop q) = elems q - {#x#}"
    and ordered_pop: "ordered key q \<Longrightarrow> top q = Some x \<Longrightarrow> ordered key (pop q)"
begin

lemma size_pop: "top q = Some x \<Longrightarrow> size (elems (pop q)) < size (elems q)"
  using top_in by (simp add: elems_pop size_Diff1_less)

end

text \<open>
  The sweep: \<open>dead i x\<close> is the verdict on the element at the front in the \<open>i\<close>-th
  iteration, which may read the clock anew.
\<close>

locale expiring_queue = priority_queue +
  fixes dead :: "nat \<Rightarrow> 'b \<Rightarrow> bool"
    and sweep :: "nat \<Rightarrow> 'a \<Rightarrow> 'b list \<times> 'a"
  assumes sweep_eq: "sweep i q =
      (case top q of
         None \<Rightarrow> ([], q)
       | Some x \<Rightarrow> if dead i x then (case sweep (Suc i) (pop q) of (xs, q') \<Rightarrow> (x # xs, q'))
                  else ([], q))"
begin

lemma sweep_post:
  assumes "sweep i q = (xs, q')"
  shows "mset xs + elems q' = elems q
    \<and> (\<forall>k < length xs. dead (i + k) (xs ! k))
    \<and> (\<forall>x. top q' = Some x \<longrightarrow> \<not> dead (i + length xs) x)"
  using assms
proof (induction "size (elems q)" arbitrary: i q xs rule: less_induct)
  case less
  show ?case
  proof (cases "top q")
    case None
    then show ?thesis using less.prems by (subst (asm) sweep_eq) simp
  next
    case (Some x)
    show ?thesis
    proof (cases "dead i x")
      case False
      then show ?thesis using less.prems Some by (subst (asm) sweep_eq) simp
    next
      case True
      then obtain ys where ys: "sweep (Suc i) (pop q) = (ys, q')" "xs = x # ys"
        using less.prems Some by (subst (asm) sweep_eq) (auto split: prod.splits)
      from less.hyps [OF size_pop [OF Some] ys(1)]
      have post: "mset ys + elems q' = elems (pop q)" "\<forall>k < length ys. dead (Suc i + k) (ys ! k)"
        "\<forall>x. top q' = Some x \<longrightarrow> \<not> dead (Suc i + length ys) x" by auto
      have "mset xs + elems q' = elems q"
        using post(1) ys(2) elems_pop [OF Some] top_in [OF Some] by simp
      moreover have "\<forall>k < length xs. dead (i + k) (xs ! k)"
        using post(2) ys(2) True by (auto simp: nth_Cons split: nat.splits)
      ultimately show ?thesis using post(3) ys(2) by simp
    qed
  qed
qed

lemma sweep_ordered: "sweep i q = (xs, q') \<Longrightarrow> ordered key q \<Longrightarrow> ordered key q'"
proof (induction "size (elems q)" arbitrary: i q xs rule: less_induct)
  case less
  show ?case
  proof (cases "top q")
    case None
    then show ?thesis using less.prems by (subst (asm) sweep_eq) simp
  next
    case (Some x)
    show ?thesis
    proof (cases "dead i x")
      case False
      then show ?thesis using less.prems Some by (subst (asm) sweep_eq) simp
    next
      case True
      then obtain ys where "sweep (Suc i) (pop q) = (ys, q')"
        using less.prems(1) Some by (subst (asm) sweep_eq) (auto split: prod.splits)
      then show ?thesis using less.hyps [OF size_pop [OF Some]] ordered_pop [OF less.prems(2) Some] by blast
    qed
  qed
qed

text \<open>
  When death is the passing of the key, one survivor at the front speaks for all: nothing left in
  the queue has passed at the last look.
\<close>

lemma sweep_survivors:
  assumes "sweep i q = (xs, q')" and "ordered key q"
    and "\<And>j x. now_of j \<ge> key x \<Longrightarrow> dead j x"
    and "y \<in># elems q'"
  shows "now_of (i + length xs) < key y"
proof -
  from assms(4) obtain x where x: "top q' = Some x" using top_None by (cases "top q'") auto
  then have "\<not> dead (i + length xs) x" using sweep_post [OF assms(1)] by blast
  then have "now_of (i + length xs) < key x" using assms(3) not_le by blast
  also have "key x \<le> key y" using top_least sweep_ordered assms(1,2,4) x by blast
  finally show ?thesis .
qed

end

section \<open>The queue of a loop\<close>

text \<open>The realisation: numbers of timers in order of their keys.\<close>

fun pq_top :: "'a list \<Rightarrow> 'a option" where
  "pq_top [] = None"
| "pq_top (x # q) = Some x"

definition pq_push :: "('a \<Rightarrow> nat) \<Rightarrow> 'a \<Rightarrow> 'a list \<Rightarrow> 'a list" where
  "pq_push key x q = insort_key key x q"

definition pq_ordered :: "('a \<Rightarrow> nat) \<Rightarrow> 'a list \<Rightarrow> bool" where
  "pq_ordered key q = sorted (map key q)"

lemma pq_top_least:
  "pq_ordered key q \<Longrightarrow> pq_top q = Some x \<Longrightarrow> y \<in># mset q \<Longrightarrow> key x \<le> key y"
  by (cases q) (auto simp: pq_ordered_def)

lemma pq_top_None: "pq_top q = None \<Longrightarrow> mset q = {#}"
  by (cases q) auto

lemma pq_top_Some: "pq_top q = Some x \<Longrightarrow> \<exists>r. q = x # r"
  by (cases q) auto

interpretation pq: priority_queue "[]" pq_push pq_top tl mset pq_ordered
  by unfold_locales
    (auto simp: pq_ordered_def pq_push_def sorted_insort_key dest: pq_top_None pq_top_Some
      intro: pq_top_least [unfolded pq_ordered_def])

record timer_queue =
  timers :: "nat \<Rightarrow> timer_node"
  timer_pqueue :: "nat list"
  next_timer :: nat

definition timer_key :: "(nat \<Rightarrow> timer_node) \<Rightarrow> nat \<Rightarrow> nat" where
  "timer_key st x = get_expired_time (st x)"

text \<open>
  \<open>add_timer\<close> allocates the timer, queues it and returns its number, which
  \<open>link_timer\<close> stores in the connection.
\<close>

definition add_timer :: "timeval \<Rightarrow> nat \<Rightarrow> int \<Rightarrow> timer_queue \<Rightarrow> nat \<times> timer_queue" where
  "add_timer now h timeout tq =
     (let t = next_timer tq; st = (timers tq)(t := new_timer now (Some h) timeout) in
      (t, tq\<lparr>timers := st, timer_pqueue := pq_push (timer_key st) t (timer_pqueue tq),
             next_timer := Suc t\<rparr>))"

text \<open>
  \<open>handle_expired_event\<close>: \<open>clock i\<close> is what \<open>gettimeofday\<close> gives in the \<open>i\<close>-th
  iteration. The first component lists the timers that were popped, as they were destroyed.
\<close>

fun expire_loop ::
  "(nat \<Rightarrow> timeval) \<Rightarrow> nat \<Rightarrow> (nat \<Rightarrow> timer_node) \<Rightarrow> nat list \<Rightarrow>
   timer_node list \<times> (nat \<Rightarrow> timer_node) \<times> nat list" where
  "expire_loop clock i st [] = ([], st, [])"
| "expire_loop clock i st (cur_timer # q) =
     (if is_deleted (st cur_timer)
      then (case expire_loop clock (Suc i) st q of (ds, st', q') \<Rightarrow> (st cur_timer # ds, st', q'))
      else (case is_valid (clock i) (st cur_timer) of (valid, t') \<Rightarrow>
        if \<not> valid
        then (case expire_loop clock (Suc i) (st(cur_timer := t')) q of
                (ds, st', q') \<Rightarrow> (t' # ds, st', q'))
        else ([], st(cur_timer := t'), cur_timer # q)))"

definition handle_expired_event ::
  "(nat \<Rightarrow> timeval) \<Rightarrow> timer_queue \<Rightarrow> nat list \<times> timer_queue" where
  "handle_expired_event clock tq =
     (case expire_loop clock 0 (timers tq) (timer_pqueue tq) of
        (ds, st, q) \<Rightarrow> (concat (map destroy_timer ds), tq\<lparr>timers := st, timer_pqueue := q\<rparr>))"

section \<open>The timer queue keeps its order\<close>

definition tq_ok :: "timer_queue \<Rightarrow> bool" where
  "tq_ok tq = (pq_ordered (timer_key (timers tq)) (timer_pqueue tq) \<and> distinct (timer_pqueue tq)
     \<and> (\<forall>t \<in> set (timer_pqueue tq). t < next_timer tq))"

lemma pq_ordered_cong:
  "\<forall>t \<in> set q. key t = key' t \<Longrightarrow> pq_ordered key q = pq_ordered key' q"
  unfolding pq_ordered_def by (metis map_cong)

lemma add_timer_ok [inv_intros]:
  assumes "tq_ok tq" and "add_timer now h timeout tq = (t, tq')"
  shows "tq_ok tq' \<and> mset (timer_pqueue tq') = add_mset t (mset (timer_pqueue tq))
     \<and> timers tq' t = new_timer now (Some h) timeout \<and> t \<notin> set (timer_pqueue tq)
     \<and> (\<forall>u \<in> set (timer_pqueue tq). timers tq' u = timers tq u)"
proof -
  let ?st = "(timers tq)(next_timer tq := new_timer now (Some h) timeout)"
  have old: "u \<noteq> next_timer tq \<and> u < next_timer tq" if "u \<in> set (timer_pqueue tq)" for u
    using assms(1) that by (auto simp: tq_ok_def)
  then have "\<forall>u \<in> set (timer_pqueue tq). timer_key (timers tq) u = timer_key ?st u"
    by (auto simp: timer_key_def)
  then have "pq_ordered (timer_key ?st) (timer_pqueue tq)"
    using assms(1) pq_ordered_cong by (auto simp: tq_ok_def)
  then have "pq_ordered (timer_key ?st) (pq_push (timer_key ?st) (next_timer tq) (timer_pqueue tq))"
    by (rule pq.ordered_push)
  moreover have m: "mset (pq_push (timer_key ?st) (next_timer tq) (timer_pqueue tq))
      = add_mset (next_timer tq) (mset (timer_pqueue tq))" by (rule pq.elems_push)
  moreover from m have "set (pq_push (timer_key ?st) (next_timer tq) (timer_pqueue tq))
      = insert (next_timer tq) (set (timer_pqueue tq))" by (metis set_mset_add_mset_insert set_mset_mset)
  moreover from m have "distinct (pq_push (timer_key ?st) (next_timer tq) (timer_pqueue tq))"
    using old assms(1) by (auto simp: tq_ok_def pq_push_def distinct_insort)
  ultimately show ?thesis using assms old by (auto simp: add_timer_def tq_ok_def Let_def less_Suc_eq)
qed

section \<open>The sweep\<close>

text \<open>The verdict on a timer and the loop on the numbers alone.\<close>

definition timer_dead :: "(nat \<Rightarrow> timeval) \<Rightarrow> (nat \<Rightarrow> timer_node) \<Rightarrow> nat \<Rightarrow> nat \<Rightarrow> bool" where
  "timer_dead clock st i x = (is_deleted (st x) \<or> \<not> fst (is_valid (clock i) (st x)))"

fun expire_ids ::
  "(nat \<Rightarrow> timeval) \<Rightarrow> (nat \<Rightarrow> timer_node) \<Rightarrow> nat \<Rightarrow> nat list \<Rightarrow> nat list \<times> nat list" where
  "expire_ids clock st i [] = ([], [])"
| "expire_ids clock st i (x # q) =
     (if timer_dead clock st i x
      then (case expire_ids clock st (Suc i) q of (xs, q') \<Rightarrow> (x # xs, q')) else ([], x # q))"

interpretation sweep: expiring_queue "[]" pq_push pq_top tl mset pq_ordered
    "timer_dead clock st" "expire_ids clock st" for clock st
proof unfold_locales
  show "expire_ids clock st i q = (case pq_top q of None \<Rightarrow> ([], q)
      | Some x \<Rightarrow> if timer_dead clock st i x
          then (case expire_ids clock st (Suc i) (tl q) of (xs, q') \<Rightarrow> (x # xs, q')) else ([], q))" for i q
    by (cases q) simp_all
qed

lemma expire_ids_split: "expire_ids clock st i q = (xs, q') \<Longrightarrow> q = xs @ q'"
  by (induction clock st i q arbitrary: xs rule: expire_ids.induct) (auto split: if_splits prod.splits)

text \<open>A destroyed timer still names the connection it owned.\<close>

lemma is_valid_keeps:
  "is_valid now t = (v, t') \<Longrightarrow> http_data_ptr t' = http_data_ptr t \<and> expired_time t' = expired_time t"
  by (auto simp: is_valid_def set_deleted_def Let_def split: if_splits)

lemma is_valid_true: "is_valid now t = (True, t') \<Longrightarrow> t' = t"
  by (auto simp: is_valid_def Let_def split: if_splits)

lemma timer_dead_cong: "st x = st' x \<Longrightarrow> timer_dead clock st i x = timer_dead clock st' i x"
  by (simp add: timer_dead_def)

lemma expire_ids_cong:
  "\<forall>x \<in> set q. st x = st' x \<Longrightarrow> expire_ids clock st i q = expire_ids clock st' i q"
  by (induction q arbitrary: i) (auto cong: timer_dead_cong split: prod.splits)

lemma expire_loop_ids:
  assumes "distinct q" and "expire_ids clock st i q = (xs, q')"
  shows "\<exists>ds st'. expire_loop clock i st q = (ds, st', q')
     \<and> map destroy_timer ds = map (destroy_timer \<circ> st) xs \<and> (\<forall>x. x \<notin> set xs \<longrightarrow> st' x = st x)"
  using assms
proof (induction q arbitrary: i st xs)
  case Nil
  then show ?case by simp
next
  case (Cons x q)
  show ?case
  proof (cases "timer_dead clock st i x")
    case False
    then have "\<not> is_deleted (st x)" "is_valid (clock i) (st x) = (True, st x)"
      by (auto simp: timer_dead_def is_valid_def Let_def split: if_splits)
    then show ?thesis using Cons.prems(2) False by auto
  next
    case True
    then obtain ys where ys: "expire_ids clock st (Suc i) q = (ys, q')" "xs = x # ys"
      using Cons.prems(2) by (auto split: prod.splits)
    show ?thesis
    proof (cases "is_deleted (st x)")
      case del: True
      from Cons.IH [OF _ ys(1)] Cons.prems(1) obtain ds st' where
        "expire_loop clock (Suc i) st q = (ds, st', q')" "map destroy_timer ds = map (destroy_timer \<circ> st) ys"
        "\<forall>z. z \<notin> set ys \<longrightarrow> st' z = st z" by auto
      then show ?thesis using del ys(2) by auto
    next
      case live: False
      then obtain t' where t': "is_valid (clock i) (st x) = (False, t')"
        using True by (cases "is_valid (clock i) (st x)") (auto simp: timer_dead_def)
      let ?st = "st(x := t')"
      have same: "\<forall>z \<in> set q. st z = ?st z" using Cons.prems(1) by auto
      then have "expire_ids clock ?st (Suc i) q = (ys, q')" using ys(1) expire_ids_cong by metis
      from Cons.IH [OF _ this] Cons.prems(1) obtain ds st' where
        ds: "expire_loop clock (Suc i) ?st q = (ds, st', q')" "map destroy_timer ds = map (destroy_timer \<circ> ?st) ys"
        "\<forall>z. z \<notin> set ys \<longrightarrow> st' z = ?st z" by (metis distinct.simps(2))
      have "set ys \<subseteq> set q" using expire_ids_split [OF ys(1)] by auto
      then have "map (destroy_timer \<circ> ?st) ys = map (destroy_timer \<circ> st) ys"
        using Cons.prems(1) by auto
      moreover have "destroy_timer t' = destroy_timer (st x)"
        using is_valid_keeps [OF t'] by (simp add: destroy_timer_def)
      ultimately show ?thesis using ds live t' ys(2) by auto
    qed
  qed
qed

lemma handle_expired_event_post:
  assumes "tq_ok tq" and "handle_expired_event clock tq = (closed, tq')"
  shows "\<exists>xs. timer_pqueue tq = xs @ timer_pqueue tq'
     \<and> closed = concat (map (destroy_timer \<circ> timers tq) xs)
     \<and> (\<forall>k < length xs. timer_dead clock (timers tq) k (xs ! k))
     \<and> (\<forall>t \<in> set (timer_pqueue tq'). timers tq' t = timers tq t
           \<and> int_to_size (clock_ms (clock (length xs))) < expired_time (timers tq t))
     \<and> tq_ok tq'"
proof -
  let ?st = "timers tq" and ?q = "timer_pqueue tq"
  obtain xs q' where ids: "expire_ids clock ?st 0 ?q = (xs, q')" by (cases "expire_ids clock ?st 0 ?q")
  have ord: "pq_ordered (timer_key ?st) ?q" and dist: "distinct ?q"
    using assms(1) by (auto simp: tq_ok_def)
  note split = expire_ids_split [OF ids]
  obtain ds st' where ds: "expire_loop clock 0 ?st ?q = (ds, st', q')"
      "map destroy_timer ds = map (destroy_timer \<circ> ?st) xs" "\<forall>x. x \<notin> set xs \<longrightarrow> st' x = ?st x"
    using expire_loop_ids [OF dist ids] by auto
  then have tq': "tq' = tq\<lparr>timers := st', timer_pqueue := q'\<rparr>"
      "closed = concat (map (destroy_timer \<circ> ?st) xs)"
    using assms(2) by (auto simp: handle_expired_event_def)
  have keep: "st' t = ?st t" if "t \<in> set q'" for t using that ds(3) dist split by auto
  have "\<forall>k < length xs. timer_dead clock ?st (0 + k) (xs ! k)"
    using sweep.sweep_post [OF ids] by blast
  moreover have "int_to_size (clock_ms (clock (0 + length xs))) < timer_key ?st t" if "t \<in> set q'" for t
    by (rule sweep.sweep_survivors [where now_of = "\<lambda>i. int_to_size (clock_ms (clock i))", OF ids ord])
      (use that in \<open>auto simp: timer_dead_def is_valid_def timer_key_def get_expired_time_def Let_def\<close>)
  moreover have "tq_ok tq'"
  proof -
    have "pq_ordered (timer_key ?st) q'" by (rule sweep.sweep_ordered [OF ids ord])
    moreover have "\<forall>t \<in> set q'. timer_key ?st t = timer_key st' t" using keep by (simp add: timer_key_def)
    ultimately show ?thesis using assms(1) split tq'(1) pq_ordered_cong by (fastforce simp: tq_ok_def)
  qed
  ultimately show ?thesis
    using split tq' keep by (auto simp: timer_key_def get_expired_time_def)
qed

text \<open>
  C12. One call of \<open>handle_expired_event\<close> on a well-ordered queue pops a prefix of the queue:
  timers that were deleted or had passed when they were looked at; it closes exactly the
  connections these timers still own, in their order, keeps the queue well-ordered, and leaves
  behind only timers that had not passed at the last reading of the clock.
\<close>

theorem handle_expired_event_sweeps:
  assumes "tq_ok tq" and "handle_expired_event clock tq = (closed, tq')"
  shows "\<exists>xs. timer_pqueue tq = xs @ timer_pqueue tq'
     \<and> closed = concat (map (destroy_timer \<circ> timers tq) xs)
     \<and> (\<forall>k < length xs. timer_dead clock (timers tq) k (xs ! k))
     \<and> (\<forall>t \<in> set (timer_pqueue tq'). timers tq' t = timers tq t
           \<and> int_to_size (clock_ms (clock (length xs))) < expired_time (timers tq t))
     \<and> tq_ok tq'"
  by (rule handle_expired_event_post [OF assms])

theorem handle_expired_event_sweeps_witness:
  "\<exists>tq'. handle_expired_event (\<lambda>i. (1, 500000)) (snd (add_timer (1, 0) 7 100 (snd (add_timer (1, 0) 8 2000
       \<lparr>timers = (\<lambda>t. new_timer (0, 0) None 0), timer_pqueue = [], next_timer = 0\<rparr>)))) = ([7], tq')
     \<and> tq_ok tq'"
proof -
  let ?tq = "snd (add_timer (1, 0) 7 100 (snd (add_timer (1, 0) 8 2000
       \<lparr>timers = (\<lambda>t. new_timer (0, 0) None 0), timer_pqueue = [], next_timer = 0\<rparr>)))"
  have ok: "tq_ok ?tq"
    by (simp add: tq_ok_def add_timer_def pq_push_def pq_ordered_def timer_key_def new_timer_def
        get_expired_time_def int_to_size_def clock_ms_def Let_def)
  obtain closed tq' where run: "handle_expired_event (\<lambda>i. (1, 500000)) ?tq = (closed, tq')" by fastforce
  have "closed = [7]" using run
    by (simp add: handle_expired_event_def add_timer_def pq_push_def timer_key_def new_timer_def is_valid_def
        is_deleted_def get_expired_time_def int_to_size_def clock_ms_def destroy_timer_def set_deleted_def Let_def
        split: prod.splits)
  then show ?thesis using handle_expired_event_sweeps [OF ok run] run by blast
qed

section \<open>The clock\<close>

text \<open>Milliseconds since the epoch, of which the timers see the remainder.\<close>

definition epoch_ms :: "timeval \<Rightarrow> int" where
  "epoch_ms now = fst now * 1000 + snd now div 1000"

definition ok_time :: "timeval \<Rightarrow> bool" where
  "ok_time now = (0 \<le> fst now \<and> 0 \<le> snd now \<and> snd now < 1000000)"

lemma clock_ms_epoch:
  assumes "ok_time now"
  shows "clock_ms now = epoch_ms now mod 10000000"
proof -
  let ?s = "fst now" and ?u = "snd now div 1000"
  have u: "0 \<le> ?u" "?u < 1000" using assms by (auto simp: ok_time_def)
  have "epoch_ms now = 10000000 * (?s div 10000) + ((?s mod 10000) * 1000 + ?u)"
    using div_mult_mod_eq [of ?s 10000] unfolding epoch_ms_def by linarith
  moreover have "0 \<le> (?s mod 10000) * 1000 + ?u" "(?s mod 10000) * 1000 + ?u < 10000000"
    using u pos_mod_bound [of 10000 ?s] pos_mod_sign [of 10000 ?s] by simp_all
  ultimately show ?thesis by (simp add: clock_ms_def)
qed

lemma clock_ms_bounds: "ok_time now \<Longrightarrow> 0 \<le> clock_ms now \<and> clock_ms now < 10000000"
  by (simp add: clock_ms_epoch)

text \<open>
  Within one period of 10000 seconds the timers are exact: a timer set with a positive
  timeout is valid at a later moment of the period exactly while less than the timeout has passed,
  provided its expiry lies within the period as well.
\<close>

theorem timer_exact_in_period:
  assumes "ok_time t0" and "ok_time t1" and "0 < d"
    and "epoch_ms t0 mod 10000000 + d < 10000000"
    and "epoch_ms t0 \<le> epoch_ms t1" and "epoch_ms t0 div 10000000 = epoch_ms t1 div 10000000"
  shows "fst (is_valid t1 (new_timer t0 h d)) \<longleftrightarrow> epoch_ms t1 < epoch_ms t0 + d"
proof -
  have c: "clock_ms t0 = epoch_ms t0 mod 10000000" "clock_ms t1 = epoch_ms t1 mod 10000000"
    using assms(1,2) by (simp_all add: clock_ms_epoch)
  have "epoch_ms t1 - epoch_ms t0 = clock_ms t1 - clock_ms t0"
    using c assms(6) by (simp add: minus_div_mult_eq_mod [symmetric])
  moreover have "0 \<le> clock_ms t0" "0 \<le> clock_ms t1" "clock_ms t1 < 10000000" using c by simp_all
  ultimately show ?thesis
    using assms(3,4) c(1)
    by (auto simp: is_valid_def new_timer_def int_to_size_small nat_less_eq_zless Let_def)
qed

theorem timer_exact_in_period_witness:
  "fst (is_valid (3, 999000) (new_timer (2, 0) (Some 1) 2000)) \<longleftrightarrow> (3999::int) < 4000"
  using timer_exact_in_period [of "(2, 0)" "(3, 999000)" 2000 "Some 1"]
  by (simp add: ok_time_def epoch_ms_def)

text \<open>
  C37. A timer whose expiry falls beyond the end of the 10000-second period never expires: its
  expiry time is at least 10000000, and the clock it is compared with never gets there. No sweep
  removes it unless it is deleted, so an idle connection opened in the last seconds of a period is
  never closed by its timer.
\<close>

theorem timer_across_period_never_expires:
  assumes "ok_time t0" and "0 < d" and "d < 2147483648"
    and "10000000 \<le> epoch_ms t0 mod 10000000 + d" and "ok_time now"
  shows "is_valid now (new_timer t0 h d) = (True, new_timer t0 h d)"
proof -
  have "clock_ms t0 + d \<ge> 10000000" using assms(1,4) by (simp add: clock_ms_epoch)
  moreover have "clock_ms t0 + d < 18446744073709551616"
    using clock_ms_bounds [OF assms(1)] assms(3) by simp
  ultimately have "int_to_size (clock_ms now) < int_to_size (clock_ms t0 + d)"
    using clock_ms_bounds [OF assms(5)] by (simp add: int_to_size_small nat_less_eq_zless)
  then show ?thesis by (simp add: is_valid_def new_timer_def)
qed

theorem timer_across_period_never_expires_witness:
  "is_valid (20000, 0) (new_timer (9999, 0) (Some 3) 2000) = (True, new_timer (9999, 0) (Some 3) 2000)"
  by (rule timer_across_period_never_expires) (simp_all add: ok_time_def epoch_ms_def)

end
