(* ===== verification/Channel.thy ===== *)
theory Channel
  imports Prelude
begin

unbundle bit_operations_syntax

text \<open>
  \<open>Channel.cpp\<close> and \<open>Channel.h\<close>: a descriptor with the events it waits for, the events
  \<open>epoll\<close> reported, and up to four handlers. The handlers the program binds to channels are the
  values of \<open>callback\<close>; what they do is an argument of the dispatcher, because they change the
  channel and more than the channel.
\<close>

section \<open>Event masks\<close>

abbreviation EPOLLIN :: "32 word" where "EPOLLIN \<equiv> 0x1"
abbreviation EPOLLPRI :: "32 word" where "EPOLLPRI \<equiv> 0x2"
abbreviation EPOLLOUT :: "32 word" where "EPOLLOUT \<equiv> 0x4"
abbreviation EPOLLERR :: "32 word" where "EPOLLERR \<equiv> 0x8"
abbreviation EPOLLHUP :: "32 word" where "EPOLLHUP \<equiv> 0x10"
abbreviation EPOLLRDHUP :: "32 word" where "EPOLLRDHUP \<equiv> 0x2000"
abbreviation EPOLLONESHOT :: "32 word" where "EPOLLONESHOT \<equiv> 0x40000000"
abbreviation EPOLLET :: "32 word" where "EPOLLET \<equiv> 0x80000000"

section \<open>The class\<close>

datatype callback =
    Http_Handle_Read
  | Http_Handle_Write
  | Http_Handle_Connect
  | Accept_New_Connection
  | Accept_Cur_Connection
  | Wakeup_Handle_Read
  | Wakeup_Handle_Connect

record channel_state =
  ch_fd :: nat
  ch_events :: "32 word"
  ch_revents :: "32 word"
  ch_last_events :: "32 word"
  holder :: "nat option"
  read_handler :: "callback option"
  write_handler :: "callback option"
  connect_handler :: "callback option"
  error_handler :: "callback option"

text \<open>The constructors leave \<open>revents_\<close> as they find the memory (\<open>garbage\<close>).\<close>

definition new_channel_fd :: "32 word \<Rightarrow> nat \<Rightarrow> channel_state" where
  "new_channel_fd garbage fd =
     \<lparr>ch_fd = fd, ch_events = 0, ch_revents = garbage, ch_last_events = 0, holder = None,
      read_handler = None, write_handler = None, connect_handler = None, error_handler = None\<rparr>"

definition new_channel :: "32 word \<Rightarrow> channel_state" where
  "new_channel garbage = new_channel_fd garbage 0"

definition set_fd :: "nat \<Rightarrow> channel_state \<Rightarrow> channel_state" where
  "set_fd fd ch = ch\<lparr>ch_fd := fd\<rparr>"

definition set_holder :: "nat \<Rightarrow> channel_state \<Rightarrow> channel_state" where
  "set_holder h ch = ch\<lparr>holder := Some h\<rparr>"

text \<open>The holder is a weak pointer: it locks while its object lives.\<close>

definition get_holder :: "(nat \<Rightarrow> bool) \<Rightarrow> channel_state \<Rightarrow> nat option" where
  "get_holder alive ch =
     (case holder ch of None \<Rightarrow> None | Some h \<Rightarrow> if alive h then Some h else None)"

definition get_fd :: "channel_state \<Rightarrow> nat" where
  "get_fd ch = ch_fd ch"

definition get_events :: "channel_state \<Rightarrow> 32 word" where
  "get_events ch = ch_events ch"

definition get_last_events :: "channel_state \<Rightarrow> 32 word" where
  "get_last_events ch = ch_last_events ch"

definition set_read_handler :: "callback \<Rightarrow> channel_state \<Rightarrow> channel_state" where
  "set_read_handler h ch = ch\<lparr>read_handler := Some h\<rparr>"

definition set_write_handler :: "callback \<Rightarrow> channel_state \<Rightarrow> channel_state" where
  "set_write_handler h ch = ch\<lparr>write_handler := Some h\<rparr>"

definition set_connect_handler :: "callback \<Rightarrow> channel_state \<Rightarrow> channel_state" where
  "set_connect_handler h ch = ch\<lparr>connect_handler := Some h\<rparr>"

definition set_error_handler :: "callback \<Rightarrow> channel_state \<Rightarrow> channel_state" where
  "set_error_handler h ch = ch\<lparr>error_handler := Some h\<rparr>"

definition set_events :: "32 word \<Rightarrow> channel_state \<Rightarrow> channel_state" where
  "set_events ev ch = ch\<lparr>ch_events := ev\<rparr>"

definition set_revents :: "32 word \<Rightarrow> channel_state \<Rightarrow> channel_state" where
  "set_revents ev ch = ch\<lparr>ch_revents := ev\<rparr>"

definition equal_and_update_last_events :: "channel_state \<Rightarrow> bool \<times> channel_state" where
  "equal_and_update_last_events ch =
     (let result = (ch_events ch = ch_last_events ch) in
      (result, ch\<lparr>ch_last_events := ch_events ch\<rparr>))"

section \<open>Dispatch\<close>

text \<open>
  The channel is a part of a larger state: \<open>get\<close> reads it and \<open>upd\<close> changes it. The three
  small methods run their handler when it is set.
\<close>

fun call_handler :: "(callback \<Rightarrow> 's \<Rightarrow> 's outcome) \<Rightarrow> callback option \<Rightarrow> 's \<Rightarrow> 's outcome" where
  "call_handler handle None s = Some (Inr s)"
| "call_handler handle (Some h) s = handle h s"

definition channel_handle_read ::
  "('s \<Rightarrow> channel_state) \<Rightarrow> (callback \<Rightarrow> 's \<Rightarrow> 's outcome) \<Rightarrow> 's \<Rightarrow> 's outcome" where
  "channel_handle_read get handle s = call_handler handle (read_handler (get s)) s"

definition channel_handle_write ::
  "('s \<Rightarrow> channel_state) \<Rightarrow> (callback \<Rightarrow> 's \<Rightarrow> 's outcome) \<Rightarrow> 's \<Rightarrow> 's outcome" where
  "channel_handle_write get handle s = call_handler handle (write_handler (get s)) s"

definition channel_handle_connect ::
  "('s \<Rightarrow> channel_state) \<Rightarrow> (callback \<Rightarrow> 's \<Rightarrow> 's outcome) \<Rightarrow> 's \<Rightarrow> 's outcome" where
  "channel_handle_connect get handle s = call_handler handle (connect_handler (get s)) s"

definition handle_events ::
  "('s \<Rightarrow> channel_state) \<Rightarrow> ((channel_state \<Rightarrow> channel_state) \<Rightarrow> 's \<Rightarrow> 's) \<Rightarrow>
   (callback \<Rightarrow> 's \<Rightarrow> 's outcome) \<Rightarrow> 's \<Rightarrow> 's outcome" where
  "handle_events get upd handle s0 =
     (let s = upd (set_events 0) s0; revents = (\<lambda>s. ch_revents (get s)) in
      if revents s AND EPOLLHUP \<noteq> 0 \<and> revents s AND EPOLLIN = 0
      then Some (Inr (upd (set_events 0) s))
      else if revents s AND EPOLLERR \<noteq> 0
      then bind_outcome (call_handler handle (error_handler (get s)) s)
             (\<lambda>s. Some (Inr (upd (set_events 0) s)))
      else
        bind_outcome
          (if revents s AND (EPOLLIN OR EPOLLPRI OR EPOLLRDHUP) \<noteq> 0
           then channel_handle_read get handle s else Some (Inr s))
          (\<lambda>s. bind_outcome
            (if revents s AND EPOLLOUT \<noteq> 0
             then channel_handle_write get handle s else Some (Inr s))
            (\<lambda>s. channel_handle_connect get handle s)))"

text \<open>What the handlers and the updates of the events preserve is preserved by the dispatch.\<close>

lemma handle_events_preserves:
  assumes "handle_events get upd handle s = Some (Inr s')"
    and refl: "\<And>s. R s s" and trans: "\<And>a b c. R a b \<Longrightarrow> R b c \<Longrightarrow> R a c"
    and upd: "\<And>ev s. R s (upd (set_events ev) s)"
    and handler: "\<And>c s s'. handle c s = Some (Inr s') \<Longrightarrow> R s s'"
  shows "R s s'"
proof -
  have call: "R a b" if "call_handler handle h a = Some (Inr b)" for h a b
    using that refl handler by (cases h) auto
  let ?s = "upd (set_events 0) s"
  define X where "X = (if ch_revents (get ?s) AND (EPOLLIN OR EPOLLPRI OR EPOLLRDHUP) \<noteq> 0
      then channel_handle_read get handle ?s else Some (Inr ?s))"
  define Y where "Y a = (if ch_revents (get a) AND EPOLLOUT \<noteq> 0
      then channel_handle_write get handle a else Some (Inr a))" for a
  have "handle_events get upd handle s =
     (if ch_revents (get ?s) AND EPOLLHUP \<noteq> 0 \<and> ch_revents (get ?s) AND EPOLLIN = 0
      then Some (Inr (upd (set_events 0) ?s))
      else if ch_revents (get ?s) AND EPOLLERR \<noteq> 0
      then bind_outcome (call_handler handle (error_handler (get ?s)) ?s) (\<lambda>s. Some (Inr (upd (set_events 0) s)))
      else bind_outcome X (\<lambda>a. bind_outcome (Y a) (channel_handle_connect get handle)))"
    by (simp add: handle_events_def Let_def X_def Y_def cong: if_cong)
  note run = this [symmetric, unfolded assms(1)]
  consider "s' = upd (set_events 0) ?s"
    | a where "call_handler handle (error_handler (get ?s)) ?s = Some (Inr a)" "s' = upd (set_events 0) a"
    | a b where "X = Some (Inr a)" "Y a = Some (Inr b)" "channel_handle_connect get handle b = Some (Inr s')"
    using run by (auto simp: bind_outcome_Some_Inr split: if_splits)
  then show ?thesis
  proof cases
    case 1
    then show ?thesis using trans [OF upd upd] by simp
  next
    case (2 a)
    then show ?thesis using trans [OF upd trans [OF call [OF 2(1)] upd]] by simp
  next
    case (3 a b)
    have "R ?s a" using 3(1) refl call by (auto simp: X_def channel_handle_read_def split: if_splits)
    moreover have "R a b" using 3(2) refl call by (auto simp: Y_def channel_handle_write_def split: if_splits)
    moreover have "R b s'" using 3(3) call by (simp add: channel_handle_connect_def)
    ultimately show ?thesis using upd trans by blast
  qed
qed

section \<open>The dispatch table\<close>

text \<open>
  What the dispatcher promises: a function of the reported mask and the handlers alone.
\<close>

definition has_event :: "32 word \<Rightarrow> 32 word \<Rightarrow> bool" where
  "has_event m ev = (ev AND m \<noteq> 0)"

definition opt_list :: "callback option \<Rightarrow> callback list" where
  "opt_list h = (case h of None \<Rightarrow> [] | Some c \<Rightarrow> [c])"

definition dispatch_list :: "channel_state \<Rightarrow> callback list" where
  "dispatch_list ch =
     (let r = ch_revents ch in
      if has_event EPOLLHUP r \<and> \<not> has_event EPOLLIN r then []
      else if has_event EPOLLERR r then opt_list (error_handler ch)
      else (if has_event 0x2003 r then opt_list (read_handler ch) else [])
         @ (if has_event EPOLLOUT r then opt_list (write_handler ch) else [])
         @ opt_list (connect_handler ch))"

fun run_handlers :: "(callback \<Rightarrow> 's \<Rightarrow> 's outcome) \<Rightarrow> callback list \<Rightarrow> 's \<Rightarrow> 's outcome" where
  "run_handlers handle [] = (\<lambda>s. Some (Inr s))"
| "run_handlers handle (c # cs) = (\<lambda>s. bind_outcome (handle c s) (run_handlers handle cs))"

text \<open>Handlers that leave the reported mask and the handler slots of the channel alone.\<close>

definition slots :: "channel_state \<Rightarrow> 32 word \<times> callback option list" where
  "slots ch = (ch_revents ch, [read_handler ch, write_handler ch, connect_handler ch, error_handler ch])"

definition keeps_slots ::
  "('s \<Rightarrow> channel_state) \<Rightarrow> (callback \<Rightarrow> 's \<Rightarrow> 's outcome) \<Rightarrow> bool" where
  "keeps_slots get handle =
     (\<forall>c s s'. handle c s = Some (Inr s') \<longrightarrow> slots (get s') = slots (get s))"

lemma call_handler_slots:
  "keeps_slots get handle \<Longrightarrow> call_handler handle h s = Some (Inr s') \<Longrightarrow> slots (get s') = slots (get s)"
  by (cases h) (auto simp: keeps_slots_def)

lemma slots_set_events [simp]: "slots (set_events ev ch) = slots ch"
  by (simp add: slots_def set_events_def)

lemma run_handlers_opt [simp]: "run_handlers handle (opt_list h) s = call_handler handle h s"
  by (cases h) (simp_all add: opt_list_def)

lemma run_handlers_if [simp]:
  "run_handlers handle (if b then hs else []) s = (if b then run_handlers handle hs s else Some (Inr s))"
  by simp

lemma run_handlers_append:
  "run_handlers handle (xs @ ys) = (\<lambda>s. bind_outcome (run_handlers handle xs s) (run_handlers handle ys))"
  by (induction xs) (simp_all add: bind_outcome_assoc)

definition hung_or_failed :: "channel_state \<Rightarrow> bool" where
  "hung_or_failed ch =
     ((has_event EPOLLHUP (ch_revents ch) \<and> \<not> has_event EPOLLIN (ch_revents ch))
      \<or> has_event EPOLLERR (ch_revents ch))"

text \<open>Behind the tests for a hang-up and an error: read, write and connect, each on the slots as they were.\<close>

lemma dispatch_plain:
  assumes "keeps_slots get handle" and "slots (get s0) = slots ch"
  shows "bind_outcome (if ch_revents ch AND 0x2003 \<noteq> 0 then call_handler handle (read_handler ch) s0 else Some (Inr s0))
      (\<lambda>s. bind_outcome (if ch_revents (get s) AND EPOLLOUT \<noteq> 0 then call_handler handle (write_handler (get s)) s else Some (Inr s))
        (\<lambda>s. call_handler handle (connect_handler (get s)) s))
    = run_handlers handle ((if has_event 0x2003 (ch_revents ch) then opt_list (read_handler ch) else [])
        @ (if has_event EPOLLOUT (ch_revents ch) then opt_list (write_handler ch) else []) @ opt_list (connect_handler ch)) s0"
proof -
  have keeps: "slots (get s') = slots ch"
    if "(if b then call_handler handle h s else Some (Inr s)) = Some (Inr s')" "slots (get s) = slots ch" for b h s s'
    using that call_handler_slots [OF assms(1)] by (auto split: if_splits)
  have wr: "(if ch_revents (get s) AND EPOLLOUT \<noteq> 0 then call_handler handle (write_handler (get s)) s else Some (Inr s))
      = run_handlers handle (if has_event EPOLLOUT (ch_revents ch) then opt_list (write_handler ch) else []) s"
    if "slots (get s) = slots ch" for s
    using that by (simp add: slots_def has_event_def)
  have con: "call_handler handle (connect_handler (get s)) s = run_handlers handle (opt_list (connect_handler ch)) s"
    if "slots (get s) = slots ch" for s
    using that by (simp add: slots_def)
  let ?ws = "if has_event EPOLLOUT (ch_revents ch) then opt_list (write_handler ch) else []"
  have rest: "bind_outcome (if ch_revents (get s) AND EPOLLOUT \<noteq> 0 then call_handler handle (write_handler (get s)) s
        else Some (Inr s)) (\<lambda>s. call_handler handle (connect_handler (get s)) s)
      = run_handlers handle (?ws @ opt_list (connect_handler ch)) s" if s: "slots (get s) = slots ch" for s
    unfolding wr [OF s] run_handlers_append
    by (rule bind_outcome_cong_Inr, rule con, rule keeps [OF _ s]) (simp only: run_handlers_if run_handlers_opt)
  have read: "(if ch_revents ch AND 0x2003 \<noteq> 0 then call_handler handle (read_handler ch) s0 else Some (Inr s0))
      = run_handlers handle (if has_event 0x2003 (ch_revents ch) then opt_list (read_handler ch) else []) s0"
    by (simp add: has_event_def)
  show ?thesis
    unfolding read by (subst run_handlers_append, rule bind_outcome_cong_Inr, rule rest, rule keeps [OF _ assms(2)])
      (simp only: run_handlers_if run_handlers_opt)
qed

text \<open>
  C35. The dispatcher implements the dispatch table: it clears the events, runs exactly the
  handlers of \<open>dispatch_list\<close> in their order (none on a hang-up without data, the error handler
  alone on an error, otherwise read, write, connect as the mask asks), and clears the events
  again after a hang-up or an error.
\<close>

theorem handle_events_dispatch:
  assumes "keeps_slots get handle" and lens: "\<And>f s. get (upd f s) = f (get s)"
  shows "handle_events get upd handle s =
     bind_outcome (run_handlers handle (dispatch_list (get s)) (upd (set_events 0) s))
       (\<lambda>s'. Some (Inr (if hung_or_failed (get s) then upd (set_events 0) s' else s')))"
proof -
  let ?s = "upd (set_events 0) s" and ?r = "ch_revents (get s)"
  have slots: "slots (get ?s) = slots (get s)" by (simp add: lens)
  then have r: "ch_revents (get ?s) = ?r" and h: "read_handler (get ?s) = read_handler (get s)"
      "error_handler (get ?s) = error_handler (get s)" by (simp_all add: slots_def)
  consider (hup) "?r AND EPOLLHUP \<noteq> 0" "?r AND EPOLLIN = 0"
    | (err) "?r AND EPOLLHUP = 0 \<or> ?r AND EPOLLIN \<noteq> 0" "?r AND EPOLLERR \<noteq> 0"
    | (go) "?r AND EPOLLHUP = 0 \<or> ?r AND EPOLLIN \<noteq> 0" "?r AND EPOLLERR = 0" by blast
  then show ?thesis
  proof cases
    case hup
    then show ?thesis
      by (simp add: handle_events_def r dispatch_list_def has_event_def hung_or_failed_def Let_def)
  next
    case err
    then show ?thesis
      by (auto simp: handle_events_def r h dispatch_list_def has_event_def hung_or_failed_def Let_def)
  next
    case go
    then have "handle_events get upd handle s = run_handlers handle (dispatch_list (get s)) ?s"
      using dispatch_plain [OF assms(1) slots]
      unfolding handle_events_def channel_handle_read_def channel_handle_write_def channel_handle_connect_def
      by (auto simp: r h dispatch_list_def has_event_def Let_def)
    then show ?thesis using go by (auto simp: hung_or_failed_def has_event_def)
  qed
qed

theorem handle_events_dispatch_witness:
  "handle_events (\<lambda>ch. ch) (\<lambda>f. f) (\<lambda>c ch. Some (Inr (set_events (ch_events ch OR EPOLLOUT) ch)))
     (set_revents 0x1 (set_read_handler Http_Handle_Read (new_channel_fd 0 9)))
   = Some (Inr (set_events 0x4 (set_revents 0x1 (set_read_handler Http_Handle_Read (new_channel_fd 0 9)))))"
proof (rule trans [OF handle_events_dispatch])
  show "keeps_slots (\<lambda>ch. ch) (\<lambda>c ch. Some (Inr (set_events (ch_events ch OR EPOLLOUT) ch)))"
    by (simp add: keeps_slots_def)
qed (simp_all add: dispatch_list_def opt_list_def has_event_def hung_or_failed_def new_channel_fd_def set_events_def
    set_revents_def set_read_handler_def)

end
