(* ===== verification/Epoll.thy ===== *)
theory Epoll
  imports Channel Timer_Queue Util_IO
begin

text \<open>
  \<open>Epoll.cpp\<close> and \<open>Epoll.h\<close>: the tables from descriptors to channels and to connections, the
  timer queue, and the calls of \<open>epoll_ctl\<close> and \<open>epoll_wait\<close>. Channels and connections are
  numbers; a channel's own state is passed in and out. The kernel is known by the history of its
  \<open>epoll_ctl\<close> calls, newest first, each with its success, and \<open>ctl_ok\<close> decides the next call
  from the history.
\<close>

section \<open>State\<close>

datatype ctl_op = EPOLL_CTL_ADD | EPOLL_CTL_MOD | EPOLL_CTL_DEL

type_synonym ctl_log = "(ctl_op \<times> nat \<times> 32 word \<times> bool) list"
type_synonym ctl_kernel = "ctl_log \<Rightarrow> ctl_op \<Rightarrow> nat \<Rightarrow> 32 word \<Rightarrow> bool"
type_synonym waits = "(nat \<times> 32 word) list sysres list"

definition MAX_FDS :: nat where
  "MAX_FDS = 100000"

definition MAX_EVENTS :: nat where
  "MAX_EVENTS = 4096"

record epoll =
  ctl_log :: ctl_log
  fd_to_channel :: "nat \<Rightarrow> nat option"
  fd_to_http :: "nat \<Rightarrow> nat option"
  ep_timers :: timer_queue

definition new_epoll :: epoll where
  "new_epoll =
     \<lparr>ctl_log = [], fd_to_channel = (\<lambda>_. None), fd_to_http = (\<lambda>_. None),
      ep_timers = \<lparr>timers = (\<lambda>_. \<lparr>deleted = True, expired_time = 0, http_data_ptr = None\<rparr>),
                       timer_pqueue = [], next_timer = 0\<rparr>\<rparr>"

section \<open>Operations\<close>

definition epoll_ctl ::
  "ctl_kernel \<Rightarrow> ctl_op \<Rightarrow> nat \<Rightarrow> 32 word \<Rightarrow> epoll \<Rightarrow> bool \<times> epoll" where
  "epoll_ctl ctl_ok op fd ev ep =
     (let ok = ctl_ok (ctl_log ep) op fd ev in (ok, ep\<lparr>ctl_log := (op, fd, ev, ok) # ctl_log ep\<rparr>))"

text \<open>
  \<open>Epoll::add_timer\<close>: without a living holder nothing happens (the code logs a line). The first
  component is the connection and the number of the timer that is linked to it.
\<close>

definition epoll_add_timer ::
  "(nat \<Rightarrow> bool) \<Rightarrow> timeval \<Rightarrow> channel_state \<Rightarrow> int \<Rightarrow> epoll \<Rightarrow> (nat \<times> nat) option \<times> epoll" where
  "epoll_add_timer alive now request_data timeout ep =
     (case get_holder alive request_data of
        Some h \<Rightarrow> (case add_timer now h timeout (ep_timers ep) of
                    (t, tq) \<Rightarrow> (Some (h, t), ep\<lparr>ep_timers := tq\<rparr>))
      | None \<Rightarrow> (None, ep))"

type_synonym ctl_result = "((nat \<times> nat) option \<times> channel_state \<times> epoll) result"

definition add_fd_in_epoll ::
  "ctl_kernel \<Rightarrow> (nat \<Rightarrow> bool) \<Rightarrow> timeval \<Rightarrow> nat \<Rightarrow> channel_state \<Rightarrow> int \<Rightarrow> epoll \<Rightarrow> ctl_result" where
  "add_fd_in_epoll ctl_ok alive now c request timeout ep =
     (let fd = ch_fd request in
      if fd \<ge> MAX_FDS then Inl Undefined_Behaviour
      else
        let (link, ep) = (if timeout > 0
              then (case epoll_add_timer alive now request timeout ep of (link, ep) \<Rightarrow>
                      (link, ep\<lparr>fd_to_http := (fd_to_http ep)(fd := get_holder alive request)\<rparr>))
              else (None, ep));
            ev = ch_events request;
            (_, request) = equal_and_update_last_events request;
            ep = ep\<lparr>fd_to_channel := (fd_to_channel ep)(fd := Some c)\<rparr>;
            (ok, ep) = epoll_ctl ctl_ok EPOLL_CTL_ADD fd ev ep;
            ep = (if ok then ep else ep\<lparr>fd_to_channel := (fd_to_channel ep)(fd := None)\<rparr>)
        in Inr (link, request, ep))"

definition modify_fd_in_epoll ::
  "ctl_kernel \<Rightarrow> (nat \<Rightarrow> bool) \<Rightarrow> timeval \<Rightarrow> channel_state \<Rightarrow> int \<Rightarrow> epoll \<Rightarrow> ctl_result" where
  "modify_fd_in_epoll ctl_ok alive now request timeout ep =
     (let (link, ep) = (if timeout > 0 then epoll_add_timer alive now request timeout ep else (None, ep));
          fd = ch_fd request;
          (equal, request) = equal_and_update_last_events request
      in if equal then Inr (link, request, ep)
         else
           let (ok, ep) = epoll_ctl ctl_ok EPOLL_CTL_MOD fd (ch_events request) ep in
           if ok then Inr (link, request, ep)
           else if fd \<ge> MAX_FDS then Inl Undefined_Behaviour
           else Inr (link, request, ep\<lparr>fd_to_channel := (fd_to_channel ep)(fd := None)\<rparr>))"

definition delete_fd_in_epoll :: "ctl_kernel \<Rightarrow> channel_state \<Rightarrow> epoll \<Rightarrow> epoll result" where
  "delete_fd_in_epoll ctl_ok request ep =
     (let fd = ch_fd request;
          (_, ep) = epoll_ctl ctl_ok EPOLL_CTL_DEL fd (ch_last_events request) ep
      in if fd \<ge> MAX_FDS then Inl Undefined_Behaviour
         else Inr (ep\<lparr>fd_to_channel := (fd_to_channel ep)(fd := None),
                      fd_to_http := (fd_to_http ep)(fd := None)\<rparr>))"

text \<open>
  \<open>get_events_request\<close>: the channels the reported events are for, with their masks set; an event
  for a descriptor without a channel is skipped.
\<close>

fun get_events_request ::
  "epoll \<Rightarrow> (nat \<times> 32 word) list \<Rightarrow> (nat \<Rightarrow> channel_state) \<Rightarrow>
   (nat list \<times> (nat \<Rightarrow> channel_state)) result" where
  "get_events_request ep [] chs = Inr ([], chs)"
| "get_events_request ep ((fd, ev) # evs) chs =
     (if fd \<ge> MAX_FDS then Inl Undefined_Behaviour
      else case fd_to_channel ep fd of
        None \<Rightarrow> get_events_request ep evs chs
      | Some c \<Rightarrow>
          bind_result (get_events_request ep evs (chs(c := set_events 0 (set_revents ev (chs c)))))
            (\<lambda>(request_events, chs'). Inr (c # request_events, chs')))"

text \<open>
  \<open>poll\<close>: \<open>ws\<close> are the results of the successive \<open>epoll_wait\<close> calls. A failed call counts
  -1 events, for which \<open>get_events_request\<close> returns an empty vector.
\<close>

fun poll ::
  "epoll \<Rightarrow> waits \<Rightarrow> (nat \<Rightarrow> channel_state) \<Rightarrow>
   (nat list \<times> (nat \<Rightarrow> channel_state) \<times> waits) outcome" where
  "poll ep [] chs = None"
| "poll ep (w # ws) chs =
     (case get_events_request ep (case w of Err e \<Rightarrow> [] | Ret evs \<Rightarrow> evs) chs of
        Inl f \<Rightarrow> Some (Inl f)
      | Inr (request_events, chs') \<Rightarrow>
          if length request_events > 0 then Some (Inr (request_events, chs', ws))
          else poll ep ws chs')"

definition handle_expired :: "(nat \<Rightarrow> timeval) \<Rightarrow> epoll \<Rightarrow> nat list \<times> epoll" where
  "handle_expired clock ep =
     (case handle_expired_event clock (ep_timers ep) of
        (closed, tq) \<Rightarrow> (closed, ep\<lparr>ep_timers := tq\<rparr>))"

section \<open>When poll returns\<close>

definition wait_events :: "(nat \<times> 32 word) list sysres \<Rightarrow> (nat \<times> 32 word) list" where
  "wait_events w = (case w of Err e \<Rightarrow> [] | Ret evs \<Rightarrow> evs)"

definition inactive :: "epoll \<Rightarrow> (nat \<times> 32 word) list sysres \<Rightarrow> bool" where
  "inactive ep w = list_all (\<lambda>(fd, ev). fd < MAX_FDS \<and> fd_to_channel ep fd = None) (wait_events w)"

lemma get_events_request_inactive:
  "list_all (\<lambda>(fd, ev). fd < MAX_FDS \<and> fd_to_channel ep fd = None) evs \<Longrightarrow>
   get_events_request ep evs chs = Inr ([], chs)"
  by (induction ep evs chs rule: get_events_request.induct) auto

lemma get_events_request_empty:
  "get_events_request ep evs chs = Inr ([], chs') \<Longrightarrow>
   list_all (\<lambda>(fd, ev). fd < MAX_FDS \<and> fd_to_channel ep fd = None) evs"
  by (induction ep evs chs rule: get_events_request.induct)
    (auto simp: bind_result_Inr split: if_splits option.splits)

text \<open>
  C34. \<open>poll\<close> returns at the first \<open>epoll_wait\<close> that reports an event for a descriptor with a
  channel, with the channels of that one call; as long as the calls fail, time out or report
  unknown descriptors it does not return, so no timer is looked at in an idle loop.
\<close>

theorem poll_first_active:
  "poll ep ws chs =
     (case dropWhile (inactive ep) ws of
        [] \<Rightarrow> None
      | w # ws' \<Rightarrow> Some (bind_result (get_events_request ep (wait_events w) chs)
                            (\<lambda>(request_events, chs'). Inr (request_events, chs', ws'))))"
proof (induction ws)
  case Nil
  then show ?case by simp
next
  case (Cons w ws)
  show ?case
  proof (cases "inactive ep w")
    case True
    then have "get_events_request ep (wait_events w) chs = Inr ([], chs)"
      by (simp add: inactive_def get_events_request_inactive)
    then show ?thesis using Cons.IH True by (simp add: wait_events_def)
  next
    case False
    then have "get_events_request ep (wait_events w) chs \<noteq> Inr ([], chs')" for chs'
      using get_events_request_empty by (auto simp: inactive_def)
    then show ?thesis using False
      by (auto simp: wait_events_def split: sum.splits)
  qed
qed

section \<open>The tables agree with the kernel\<close>

text \<open>What the kernel holds after a history of calls.\<close>

fun registered :: "ctl_log \<Rightarrow> nat \<Rightarrow> bool" where
  "registered [] fd = False"
| "registered ((op, fd', ev, ok) # log) fd =
     (if ok \<and> fd' = fd then op \<noteq> EPOLL_CTL_DEL else registered log fd)"

definition epoll_inv :: "epoll \<Rightarrow> bool" where
  "epoll_inv ep = (tq_ok (ep_timers ep)
     \<and> (\<forall>fd. fd_to_channel ep fd \<noteq> None \<longrightarrow> fd < MAX_FDS \<and> registered (ctl_log ep) fd))"

inductive epoll_step :: "epoll \<Rightarrow> epoll \<Rightarrow> bool" where
  step_add: "add_fd_in_epoll ctl_ok alive now c ch timeout ep = Inr (link, ch', ep') \<Longrightarrow> epoll_step ep ep'"
| step_modify: "modify_fd_in_epoll ctl_ok alive now ch timeout ep = Inr (link, ch', ep') \<Longrightarrow> epoll_step ep ep'"
| step_delete: "delete_fd_in_epoll ctl_ok ch ep = Inr ep' \<Longrightarrow> epoll_step ep ep'"
| step_expired: "handle_expired clock ep = (closed, ep') \<Longrightarrow> epoll_step ep ep'"

lemma epoll_add_timer_inv:
  "epoll_add_timer alive now ch timeout ep = (link, ep') \<Longrightarrow> tq_ok (ep_timers ep) \<Longrightarrow>
   tq_ok (ep_timers ep') \<and> fd_to_channel ep' = fd_to_channel ep \<and> ctl_log ep' = ctl_log ep
     \<and> fd_to_http ep' = fd_to_http ep"
  by (auto simp: epoll_add_timer_def dest: add_timer_ok split: option.splits prod.splits)

lemma add_fd_in_epoll_inv [inv_intros]:
  assumes "add_fd_in_epoll ctl_ok alive now c ch timeout ep = Inr (link, ch', ep')" "epoll_inv ep"
  shows "epoll_inv ep'"
  using assms
  by (auto simp: add_fd_in_epoll_def epoll_inv_def epoll_ctl_def equal_and_update_last_events_def Let_def
      dest: epoll_add_timer_inv split: if_splits prod.splits)

lemma modify_fd_in_epoll_inv [inv_intros]:
  assumes "modify_fd_in_epoll ctl_ok alive now ch timeout ep = Inr (link, ch', ep')" "epoll_inv ep"
  shows "epoll_inv ep'"
  using assms
  by (auto simp: modify_fd_in_epoll_def epoll_inv_def epoll_ctl_def equal_and_update_last_events_def Let_def
      dest: epoll_add_timer_inv split: if_splits prod.splits)

lemma delete_fd_in_epoll_inv [inv_intros]:
  "delete_fd_in_epoll ctl_ok ch ep = Inr ep' \<Longrightarrow> epoll_inv ep \<Longrightarrow> epoll_inv ep'"
  by (auto simp: delete_fd_in_epoll_def epoll_inv_def epoll_ctl_def Let_def split: if_splits)

lemma handle_expired_inv [inv_intros]:
  assumes "handle_expired clock ep = (closed, ep')" "epoll_inv ep"
  shows "epoll_inv ep'"
  using assms handle_expired_event_post
  by (fastforce simp: handle_expired_def epoll_inv_def split: prod.splits)

lemma epoll_step_inv: "epoll_step ep ep' \<Longrightarrow> epoll_inv ep \<Longrightarrow> epoll_inv ep'"
  by (induction rule: epoll_step.induct) (auto intro: inv_intros)

lemma new_epoll_inv: "epoll_inv new_epoll"
  by (simp add: epoll_inv_def new_epoll_def tq_ok_def pq_ordered_def)

interpretation epoll_sys: invariant_system "\<lambda>ep. ep = new_epoll" epoll_step epoll_inv
  by unfold_locales (auto simp: new_epoll_inv intro: epoll_step_inv)

text \<open>
  C33. Whatever calls are made on whatever channels, and however the kernel answers them: a
  descriptor that has a channel in the table is one the kernel holds, and the timer queue stays in
  order. So an event is never delivered to a channel that was deleted.
\<close>

theorem epoll_tables_agree:
  assumes "run epoll_step new_epoll ep"
  shows "tq_ok (ep_timers ep)
     \<and> (\<forall>fd. fd_to_channel ep fd \<noteq> None \<longrightarrow> fd < MAX_FDS \<and> registered (ctl_log ep) fd)"
  using epoll_sys.reach_inv [OF refl assms] by (simp add: epoll_inv_def)

definition demo_add :: epoll where
  "demo_add = (case add_fd_in_epoll (\<lambda>log op fd ev. True) (\<lambda>h. True) (1, 0) 4 (set_holder 3 (new_channel_fd 0 7))
     2000 new_epoll of Inr (link, ch, ep) \<Rightarrow> ep | Inl f \<Rightarrow> new_epoll)"

theorem epoll_tables_agree_witness:
  "fd_to_channel demo_add 7 = Some 4 \<and> registered (ctl_log demo_add) 7 \<and> timer_pqueue (ep_timers demo_add) = [0]"
proof -
  have add: "\<exists>link ch. add_fd_in_epoll (\<lambda>log op fd ev. True) (\<lambda>h. True) (1, 0) 4
      (set_holder 3 (new_channel_fd 0 7)) 2000 new_epoll = Inr (link, ch, demo_add)"
    by (simp add: demo_add_def add_fd_in_epoll_def MAX_FDS_def epoll_add_timer_def add_timer_def epoll_ctl_def
        equal_and_update_last_events_def set_holder_def new_channel_fd_def get_holder_def Let_def
        split: prod.splits)
  have q: "fd_to_channel demo_add 7 = Some 4 \<and> timer_pqueue (ep_timers demo_add) = [0]"
    by (simp add: demo_add_def add_fd_in_epoll_def MAX_FDS_def epoll_add_timer_def add_timer_def epoll_ctl_def
        equal_and_update_last_events_def set_holder_def new_channel_fd_def get_holder_def new_epoll_def
        pq_push_def Let_def)
  have "run epoll_step new_epoll demo_add"
    using add by (auto intro: run_single step_add)
  from epoll_tables_agree [OF this] q show ?thesis by auto
qed

end
