(* ===== verification/Http_Mime.thy ===== *)
theory Http_Mime
  imports Cpp_String
begin

text \<open>
  The constant tables of \<open>HttpData.cpp\<close>: the icon the server carries in its text and the
  content types by suffix. Bytes are characters of 8 bits.
\<close>

section \<open>The icon\<close>

definition bytes :: "nat list \<Rightarrow> string" where
  "bytes ns = map char_of ns"

definition favicon :: string where
  "favicon = bytes [
     0x89, 0x50, 0x4E, 0x47, 0x0D, 0x0A, 0x1A, 0x0A, 0x00, 0x00, 0x00, 0x0D, 0x49, 0x48, 0x44,
     0x52, 0x00, 0x00, 0x00, 0x10, 0x00, 0x00, 0x00, 0x10, 0x08, 0x06, 0x00, 0x00, 0x00, 0x1F,
     0xF3, 0xFF, 0x61, 0x00, 0x00, 0x00, 0x19, 0x74, 0x45, 0x58, 0x74, 0x53, 0x6F, 0x66, 0x74,
     0x77, 0x61, 0x72, 0x65, 0x00, 0x41, 0x64, 0x6F, 0x62, 0x65, 0x20, 0x49, 0x6D, 0x61, 0x67,
     0x65, 0x52, 0x65, 0x61, 0x64, 0x79, 0x71, 0xC9, 0x65, 0x3C, 0x00, 0x00, 0x01, 0xCD, 0x49,
     0x44, 0x41, 0x54, 0x78, 0xDA, 0x94, 0x93, 0x39, 0x48, 0x03, 0x41, 0x14, 0x86, 0xFF, 0x5D,
     0x62, 0xA7, 0x04, 0x52, 0xC4, 0x6D, 0x22, 0x1E, 0xA0, 0x46, 0x24, 0x08, 0x16, 0x16, 0x76,
     0x0A, 0x36, 0xBA, 0x4A, 0x9A, 0x80, 0x08, 0x41, 0xB4, 0x71, 0x85, 0x58, 0x89, 0x47, 0xB0,
     0x49, 0xA9, 0x51, 0x24, 0xCD, 0xA6, 0x08, 0xA4, 0x48, 0x63, 0x91, 0x42, 0x0B, 0xAF, 0x56,
     0xC1, 0x46, 0xB4, 0x15, 0xCF, 0x22, 0x58, 0x98, 0x0B, 0x54, 0x48, 0x8A, 0x64, 0x93, 0x8D,
     0xFB, 0x46, 0x67, 0xC9, 0x1A, 0x14, 0x7D, 0xF0, 0x66, 0x76, 0x66, 0xDF, 0x7C, 0xEF, 0xE7,
     0x67, 0x46, 0xA8, 0xD5, 0x6A, 0x48, 0x24, 0x12, 0x2A, 0x00, 0x05, 0xBF, 0x47, 0xD4, 0xEF,
     0xF7, 0x2F, 0x36, 0xEC, 0x12, 0x20, 0x1E, 0x8F, 0xD7, 0xAA, 0xD5, 0xEA, 0xAF, 0x49, 0x35,
     0x46, 0xAA, 0x54, 0x5F, 0x9F, 0x22, 0x41, 0x2A, 0x95, 0x0A, 0x83, 0xE5, 0x72, 0x39, 0x64,
     0xB3, 0x59, 0x96, 0x99, 0x4C, 0x06, 0xE9, 0x74, 0x9A, 0x25, 0x85, 0x2C, 0xCB, 0x54, 0xA7,
     0xC4, 0x62, 0x31, 0xB5, 0x5E, 0x00, 0x03, 0x68, 0x9A, 0xC6, 0x16, 0x82, 0x20, 0x58, 0x52,
     0x14, 0x45, 0x36, 0x53, 0x94, 0xCB, 0x65, 0x78, 0xBD, 0x5E, 0xAA, 0x55, 0x54, 0x23, 0x4C,
     0xC0, 0xE0, 0xE2, 0xC1, 0x8F, 0x00, 0x9E, 0xBC, 0x09, 0x41, 0x7C, 0x3E, 0x1F, 0x83, 0x44,
     0x22, 0x11, 0xD5, 0x54, 0x40, 0x3F, 0x38, 0x80, 0x77, 0xE5, 0x33, 0x07, 0xB8, 0x5C, 0x2E,
     0x48, 0x92, 0x04, 0x87, 0xC3, 0x81, 0x40, 0x20, 0x40, 0x67, 0x98, 0xE9, 0x36, 0x1A, 0xA6,
     0x67, 0x15, 0x04, 0xE3, 0xD7, 0xC8, 0xBD, 0x15, 0xE1, 0x69, 0xB7, 0x43, 0xAB, 0xEA, 0x78,
     0x2F, 0x6A, 0x58, 0x92, 0xBB, 0x18, 0x20, 0x9F, 0xCF, 0x33, 0xC3, 0xB8, 0xE9, 0x4E, 0xA7,
     0xD3, 0x6C, 0x4A, 0x00, 0x69, 0x36, 0x7C, 0x8E, 0xE1, 0xFE, 0x56, 0x84, 0xE7, 0x3C, 0x9F,
     0x72, 0x2B, 0x3A, 0x42, 0x7B, 0x37, 0x66, 0x77, 0xAE, 0x8E, 0x0E, 0xF3, 0xBD, 0x52, 0xA9,
     0x64, 0x02, 0x42, 0xAF, 0x85, 0x32, 0x66, 0x46, 0xBA, 0x0C, 0xD9, 0x9F, 0x1D, 0x9A, 0x6C,
     0x22, 0xE6, 0xC7, 0x3A, 0x2C, 0x80, 0xEF, 0xC1, 0x15, 0x90, 0x07, 0x93, 0xA2, 0x28, 0xA0,
     0x53, 0x6A, 0xB1, 0xB8, 0xDF, 0x29, 0x35, 0x43, 0x0E, 0x3F, 0x58, 0xFC, 0x98, 0xDA, 0x79,
     0x6A, 0x50, 0x40, 0x00, 0x87, 0xAE, 0x1B, 0x17, 0x42, 0xB4, 0x3A, 0x3F, 0xBE, 0x79, 0xC7,
     0x0A, 0x26, 0xB6, 0xEE, 0xD9, 0x9A, 0x60, 0x14, 0x93, 0xDB, 0x8F, 0x0D, 0x0A, 0x2E, 0xE9,
     0x23, 0x95, 0x29, 0x58, 0x00, 0x27, 0xEB, 0x6E, 0x56, 0x70, 0xBC, 0xD6, 0xCB, 0xD6, 0x47,
     0xAB, 0x3D, 0x6C, 0x7D, 0xB8, 0xD2, 0xDD, 0xA0, 0x60, 0x83, 0xBA, 0xEF, 0x5F, 0xA4, 0xEA,
     0xCC, 0x02, 0x4E, 0xAE, 0x5E, 0x70, 0x1A, 0xEC, 0xB3, 0x40, 0x39, 0xAC, 0xFE, 0xF2, 0x91,
     0x89, 0x67, 0x91, 0x85, 0x21, 0xA8, 0x87, 0xB7, 0x58, 0x7E, 0x7E, 0x85, 0xBB, 0xCD, 0x4E,
     0x4E, 0x62, 0x74, 0x40, 0xFA, 0x93, 0x89, 0xEC, 0x1E, 0xEC, 0x86, 0x02, 0x48, 0x26, 0x93,
     0xD0, 0x75, 0x1D, 0x7F, 0x09, 0x32, 0x95, 0xBF, 0x1F, 0xDB, 0xD7, 0x63, 0x8A, 0x1A, 0xF7,
     0x5C, 0xC1, 0xFF, 0x22, 0x4A, 0xC3, 0x87, 0x00, 0x03, 0x00, 0x4B, 0xBB, 0xF8, 0xD6, 0x2A,
     0x76, 0x98, 0x49, 0x00, 0x00, 0x00, 0x00, 0x49, 0x45, 0x4E, 0x44, 0xAE, 0x42, 0x60, 0x82]"

lemma favicon_size: "length favicon = 555"
  by (simp add: favicon_def bytes_def)

text \<open>The title of the error page is not ASCII; it is written in UTF-8.\<close>

definition error_title :: string where
  "error_title = [
     CHR 0xE5, CHR 0x91, CHR 0x80, CHR 0x7E, CHR 0xE8, CHR 0xAE, CHR 0xBF, CHR 0xE9, CHR 0x97, CHR 0xAE, CHR 0xE5,
     CHR 0x87, CHR 0xBA, CHR 0xE9, CHR 0x94, CHR 0x99, CHR 0xE4, CHR 0xBA, CHR 0x86]"

section \<open>Content types\<close>

text \<open>
  \<open>MimeType::init\<close> stores the types one after the other; \<open>pthread_once\<close> runs it before the
  first look-up, so the table a look-up sees is always the full one.
\<close>

definition mime_init :: "string \<rightharpoonup> string" where
  "mime_init =
     foldl (\<lambda>mime (suffix, type). mime(suffix \<mapsto> type)) Map.empty [
      (''.html'', ''text/html''),
      (''.avi'', ''video/x-msvideo''),
      (''.bmp'', ''image/bmp''),
      (''.c'', ''text/plain''),
      (''.doc'', ''application/msword''),
      (''.gif'', ''image/gif''),
      (''.gz'', ''application/x-gzip''),
      (''.htm'', ''text/html''),
      (''.ico'', ''image/x-icon''),
      (''.jpg'', ''image/jpeg''),
      (''.png'', ''image/png''),
      (''.txt'', ''text/plain''),
      (''.mp3'', ''audio/mp3''),
      (''default'', ''text/html'')]"

definition get_mime :: "string \<Rightarrow> string" where
  "get_mime suffix =
     (case mime_init suffix of
        None \<Rightarrow> (case mime_init ''default'' of None \<Rightarrow> [] | Some t \<Rightarrow> t)
      | Some t \<Rightarrow> t)"

lemma get_mime_default: "mime_init suffix = None \<Longrightarrow> get_mime suffix = ''text/html''"
  by (simp add: get_mime_def mime_init_def)

end
