(* ===== verification/Http_Data.thy ===== *)
theory Http_Data
  imports Http_Headers Http_Mime Epoll
begin

text \<open>
  The handlers of \<open>HttpData\<close> (\<open>HttpData.cpp\<close>) on a connection: its object, its channel, the
  poller of its loop, and the kernel's side of the socket. The handlers run in the thread of the
  loop, so a functor given to \<open>run_in_loop\<close> runs at once. What the code only logs is left out.
\<close>

section \<open>The state of a connection and its environment\<close>

text \<open>
  The object is owned by the poller's table of connections and by the timers; \<open>self\<close> is its
  number. \<open>to_read\<close> and \<open>to_write\<close> are the results of the coming \<open>read\<close> and
  \<open>write\<close> calls on the descriptor, \<open>sent\<close> what was written to it so far.
\<close>

record connection =
  self :: nat
  http :: http_data
  chan :: channel_state
  poller :: epoll
  to_read :: reads
  to_write :: writes
  sent :: string
  sock_ops :: "sockop list"

text \<open>
  The environment of a call: the size \<open>stat\<close> gives (none when it fails), whether \<open>open\<close>
  succeeds, what \<open>mmap\<close> maps (none when it fails), the kernel's answers to \<open>epoll_ctl\<close>, and
  the clock.
\<close>

record os =
  fs_stat :: "string \<Rightarrow> nat option"
  fs_open :: "string \<Rightarrow> bool"
  fs_mmap :: "string \<Rightarrow> nat \<Rightarrow> string option"
  os_ctl :: ctl_kernel
  os_now :: timeval

definition DEFAULT_EVENT :: "32 word" where
  "DEFAULT_EVENT = EPOLLIN OR EPOLLET OR EPOLLONESHOT"

definition DEFAULT_EXPIRED_TIME :: int where
  "DEFAULT_EXPIRED_TIME = 2000"

definition DEFAULT_KEEP_ALIVE_TIME :: int where
  "DEFAULT_KEEP_ALIVE_TIME = 5 * 60 * 1000"

definition with_http :: "(http_data \<Rightarrow> http_data) \<Rightarrow> connection \<Rightarrow> connection" where
  "with_http f c = c\<lparr>http := f (http c)\<rparr>"

definition with_events :: "32 word \<Rightarrow> connection \<Rightarrow> connection" where
  "with_events ev c = c\<lparr>chan := set_events ev (chan c)\<rparr>"

text \<open>The part of the constructor behind the initialiser list: the handlers of the channel.\<close>

definition bind_handlers :: "channel_state \<Rightarrow> channel_state" where
  "bind_handlers ch =
     set_write_handler Http_Handle_Connect
       (set_connect_handler Http_Handle_Connect (set_read_handler Http_Handle_Read ch))"

section \<open>Timers, poller, lifetime\<close>

definition link_timer :: "nat \<Rightarrow> http_data \<Rightarrow> http_data" where
  "link_timer t h = h\<lparr>timer := Some t\<rparr>"

definition get_channel :: "http_data \<Rightarrow> nat" where
  "get_channel h = channel h"

definition http_event_loop :: "http_data \<Rightarrow> nat" where
  "http_event_loop h = event_loop h"

text \<open>A weak pointer to a timer locks while the queue holds the timer.\<close>

definition timer_locked :: "connection \<Rightarrow> nat option" where
  "timer_locked c =
     (case timer (http c) of
        None \<Rightarrow> None
      | Some t \<Rightarrow> if t \<in> set (timer_pqueue (ep_timers (poller c))) then Some t else None)"

definition seperate_timer :: "connection \<Rightarrow> connection" where
  "seperate_timer c =
     (case timer_locked c of
        None \<Rightarrow> c
      | Some t \<Rightarrow>
          (let ep = poller c; tq = ep_timers ep; st = timers tq in
           c\<lparr>http := (http c)\<lparr>timer := None\<rparr>,
             poller := ep\<lparr>ep_timers := tq\<lparr>timers := st(t := clear_request (st t))\<rparr>\<rparr>\<rparr>))"

definition reset :: "connection \<Rightarrow> connection" where
  "reset c =
     seperate_timer (with_http (\<lambda>h. h\<lparr>buffer_in := [], file_name := [], path := [], read_cur := 0,
        process_state := STATE_PARSE_URI, parse_state := H_START, headers := Map.empty,
        keep_alive := False\<rparr>) c)"

definition after_ctl ::
  "((nat \<times> nat) option \<times> channel_state \<times> epoll) \<Rightarrow> connection \<Rightarrow> connection" where
  "after_ctl r c =
     (case r of (link, ch, ep) \<Rightarrow>
        (case link of None \<Rightarrow> c | Some (h, t) \<Rightarrow> with_http (link_timer t) c)\<lparr>chan := ch, poller := ep\<rparr>)"

definition update_poller :: "os \<Rightarrow> int \<Rightarrow> connection \<Rightarrow> connection outcome" where
  "update_poller os timeout c =
     Some (bind_result (modify_fd_in_epoll (os_ctl os) (\<lambda>h. True) (os_now os) (chan c) timeout (poller c))
       (\<lambda>r. Inr (after_ctl r c)))"

definition add_to_poller :: "os \<Rightarrow> int \<Rightarrow> connection \<Rightarrow> connection outcome" where
  "add_to_poller os timeout c =
     Some (bind_result (add_fd_in_epoll (os_ctl os) (\<lambda>h. True) (os_now os) (channel (http c)) (chan c)
                          timeout (poller c))
       (\<lambda>r. Inr (after_ctl r c)))"

definition remove_from_poller :: "os \<Rightarrow> connection \<Rightarrow> connection outcome" where
  "remove_from_poller os c =
     Some (bind_result (delete_fd_in_epoll (os_ctl os) (chan c) (poller c))
       (\<lambda>ep. Inr (c\<lparr>poller := ep\<rparr>)))"

definition shutdown_channel :: "connection \<Rightarrow> connection" where
  "shutdown_channel c = c\<lparr>sock_ops := sock_ops c @ shutdown_writer (ch_fd (chan c))\<rparr>"

definition handle_close :: "os \<Rightarrow> connection \<Rightarrow> connection outcome" where
  "handle_close os c =
     remove_from_poller os (with_http (\<lambda>h. h\<lparr>connection_state := H_DISCONNECTED\<rparr>) c)"

definition new_event :: "os \<Rightarrow> connection \<Rightarrow> connection outcome" where
  "new_event os c = add_to_poller os DEFAULT_EXPIRED_TIME (with_events DEFAULT_EVENT c)"

text \<open>
  The shared pointers to the object: its slot in the table of connections, and the queued timers
  that still own it. Without one the object has been destroyed.
\<close>

definition owned :: "connection \<Rightarrow> bool" where
  "owned c =
     (fd_to_http (poller c) (ch_fd (chan c)) = Some (self c)
      \<or> list_ex (\<lambda>t. http_data_ptr (timers (ep_timers (poller c)) t) = Some (self c))
          (timer_pqueue (ep_timers (poller c))))"

section \<open>Answers\<close>

definition NL :: string where
  "NL = [CR, LF]"

definition c_str :: "string \<Rightarrow> string" where
  "c_str s = takeWhile (\<lambda>c. c \<noteq> CHR 0x00) s"

definition QUOTE :: char where "QUOTE = CHR 0x22"

definition error_body :: "int \<Rightarrow> string \<Rightarrow> string" where
  "error_body error_code short_message =
     ''<html><title>'' @ error_title @ ''</title>''
     @ ''<body bgcolor='' @ [QUOTE] @ ''ffffff'' @ [QUOTE] @ ''>''
     @ to_string error_code @ '' '' @ short_message
     @ ''<hr><em> Svain'' @ [CHR 0x27] @ ''s Fast Web Server</em>'' @ [LF] @ ''</body></html>''"

definition server_line :: string where
  "server_line = ''Server: Svain'' @ [CHR 0x27] @ ''s Fast Web Server'' @ NL"

definition error_header :: "int \<Rightarrow> string \<Rightarrow> string" where
  "error_header error_code short_message =
     ''HTTP/1.1 '' @ to_string error_code @ '' '' @ short_message @ NL
     @ ''Content-Type: text/html'' @ NL
     @ ''Connection: Close'' @ NL
     @ ''Content-Length: '' @ to_string (int (length (error_body error_code short_message))) @ NL
     @ server_line
     @ NL"

text \<open>
  \<open>sprintf\<close> into the buffer of 4096 bytes and \<open>writen\<close> of what it holds.
\<close>

definition send_c_str :: "string \<Rightarrow> connection \<Rightarrow> connection outcome" where
  "send_c_str s c =
     (if length (c_str s) \<ge> 4096 then Some (Inl Undefined_Behaviour)
      else bind_outcome (writen_buf (to_write c) (c_str s))
        (\<lambda>(n, out, ws). Some (Inr (c\<lparr>to_write := ws, sent := sent c @ out\<rparr>))))"

definition handle_error :: "int \<Rightarrow> string \<Rightarrow> connection \<Rightarrow> connection outcome" where
  "handle_error error_code short_message c =
     bind_outcome (send_c_str (error_header error_code short_message) c)
       (send_c_str (error_body error_code short_message))"

text \<open>\<open>analyze_request\<close>; \<open>header\<close> is the local string of the same name.\<close>

definition ok_header_text :: "http_data \<Rightarrow> bool \<times> string" where
  "ok_header_text h =
     (let header = ''HTTP/1.1 200 OK'' @ NL in
      if headers h ''Connection'' \<in> {Some ''Keep-Alive'', Some ''keep-alive''}
      then (True, header @ ''Connection: Keep-Alive'' @ NL @ ''Keep-Alive: timeout=''
                  @ to_string DEFAULT_KEEP_ALIVE_TIME @ NL)
      else (False, header))"

definition file_type_of :: "string \<Rightarrow> string result" where
  "file_type_of name =
     (let dot_position = to_int32 (int (find_char CHR ''.'' name 0)) in
      if dot_position < 0 then Inr (get_mime ''default'')
      else bind_result (substr name (int_to_size dot_position) npos) (\<lambda>suffix. Inr (get_mime suffix)))"

definition hello_answer :: string where
  "hello_answer = ''HTTP/1.1 200 OK'' @ NL @ ''Content-type: text/plain'' @ NL @ NL @ ''Hello World''"

definition favicon_header :: "string \<Rightarrow> string" where
  "favicon_header header =
     header @ ''Content-Type: image/png'' @ NL
     @ ''Content-Length: '' @ to_string (int (length favicon)) @ NL
     @ server_line @ NL"

definition file_header :: "string \<Rightarrow> string \<Rightarrow> nat \<Rightarrow> string" where
  "file_header header file_type st_size =
     header @ ''Content-Type: '' @ file_type @ NL
     @ ''Content-Length: '' @ to_string (int st_size) @ NL
     @ server_line @ NL"

definition not_found :: "connection \<Rightarrow> (AnalysisState \<times> connection) outcome" where
  "not_found c =
     bind_outcome (handle_error 404 ''Not Found!!!'' c) (\<lambda>c. Some (Inr (ANALYSIS_ERROR, c)))"

definition analyze_file :: "os \<Rightarrow> string \<Rightarrow> string \<Rightarrow> connection \<Rightarrow> (AnalysisState \<times> connection) outcome" where
  "analyze_file os header0 file_type c =
     (let name = c_str (file_name (http c)) in
      case fs_stat os name of
        None \<Rightarrow> (let header = ([] :: string) in not_found c)
      | Some st_size \<Rightarrow>
          (let header = file_header header0 file_type st_size in
           if http_method (http c) = METHOD_HEAD then Some (Inr (ANALYSIS_SUCCESS, c))
           else if \<not> fs_open os name
           then not_found (with_http (\<lambda>h. h\<lparr>buffer_out := []\<rparr>) c)
           else case fs_mmap os name st_size of
             None \<Rightarrow> not_found (with_http (\<lambda>h. h\<lparr>buffer_out := []\<rparr>) c)
           | Some source \<Rightarrow>
               Some (Inr (ANALYSIS_SUCCESS, with_http (\<lambda>h. h\<lparr>buffer_out := buffer_out h @ source\<rparr>) c))))"

definition analyze_request :: "os \<Rightarrow> connection \<Rightarrow> (AnalysisState \<times> connection) outcome" where
  "analyze_request os c0 =
     (if http_method (http c0) = METHOD_POST then Some (Inr (ANALYSIS_ERROR, c0))
      else if http_method (http c0) = METHOD_GET \<or> http_method (http c0) = METHOD_HEAD then
        (let (keep, header) = ok_header_text (http c0);
             c = (if keep then with_http (\<lambda>h. h\<lparr>keep_alive := True\<rparr>) c0 else c0);
             name = file_name (http c) in
         bind_outcome (Some (file_type_of name)) (\<lambda>file_type.
           if name = ''hello''
           then Some (Inr (ANALYSIS_SUCCESS, with_http (\<lambda>h. h\<lparr>buffer_out := hello_answer\<rparr>) c))
           else if name = ''favicon.ico''
           then Some (Inr (ANALYSIS_SUCCESS,
                  with_http (\<lambda>h. h\<lparr>buffer_out := buffer_out h @ favicon_header header @ favicon\<rparr>) c))
           else analyze_file os header file_type c))
      else Some (Inr (ANALYSIS_ERROR, c0)))"

section \<open>The read handler\<close>

text \<open>
  The body of the \<open>do ... while (false)\<close> loop in stages; a stage says whether the body goes on
  (\<open>True\<close>) or breaks.
\<close>

type_synonym stage = "(bool \<times> connection) outcome"

definition bad_request :: "string \<Rightarrow> connection \<Rightarrow> stage" where
  "bad_request short_message c =
     bind_outcome (handle_error 400 short_message (with_http (\<lambda>h. h\<lparr>is_error := True\<rparr>) c))
       (\<lambda>c. Some (Inr (False, c)))"

definition stage_receive :: "connection \<Rightarrow> stage" where
  "stage_receive c0 =
     (case readn_zero (to_read c0) (buffer_in (http c0)) False 0 of
        None \<Rightarrow> None
      | Some (sum_read, buf, zero, es) \<Rightarrow>
          (let num_read = to_int32 sum_read;
               c = (with_http (\<lambda>h. h\<lparr>buffer_in := buf\<rparr>) c0)\<lparr>to_read := es\<rparr> in
           if connection_state (http c) = H_DISCONNECTED
           then Some (Inr (False, with_http (\<lambda>h. h\<lparr>buffer_in := []\<rparr>) c))
           else if num_read < 0 then bad_request ''Bad Request!!!'' c
           else if zero then
             (let c = with_http (\<lambda>h. h\<lparr>is_error := True, connection_state := H_DISCONNECTED\<rparr>) c in
              Some (Inr (num_read \<noteq> 0, c)))
           else Some (Inr (True, c))))"

definition stage_uri :: "connection \<Rightarrow> stage" where
  "stage_uri c =
     (if process_state (http c) = STATE_PARSE_URI then
        (case parse_URI (http c) of
           Inl f \<Rightarrow> Some (Inl f)
         | Inr (PARSE_URI_AGAIN, h) \<Rightarrow> Some (Inr (False, c\<lparr>http := h\<rparr>))
         | Inr (PARSE_URI_ERROR, h) \<Rightarrow>
             bad_request ''Bad Request!!!'' (c\<lparr>http := h\<lparr>buffer_in := []\<rparr>\<rparr>)
         | Inr (PARSE_URI_SUCCESS, h) \<Rightarrow>
             Some (Inr (True, c\<lparr>http := h\<lparr>process_state := STATE_PARSE_HEADERS\<rparr>\<rparr>)))
      else Some (Inr (True, c)))"

definition stage_headers :: "connection \<Rightarrow> stage" where
  "stage_headers c =
     (if process_state (http c) = STATE_PARSE_HEADERS then
        (case parse_Headers (http c) of
           Inl f \<Rightarrow> Some (Inl f)
         | Inr (PARSE_HEADER_AGAIN, h) \<Rightarrow> Some (Inr (False, c\<lparr>http := h\<rparr>))
         | Inr (PARSE_HEADER_ERROR, h) \<Rightarrow> bad_request ''Bad Request!!!'' (c\<lparr>http := h\<rparr>)
         | Inr (PARSE_HEADER_SUCCESS, h) \<Rightarrow>
             Some (Inr (True, c\<lparr>http := h\<lparr>process_state :=
               (if http_method h = METHOD_POST then STATE_RECV_BODY else STATE_ANALYSIS)\<rparr>\<rparr>)))
      else Some (Inr (True, c)))"

text \<open>The comparison of the buffer's size with \<open>content_length\<close> is one of \<open>size_t\<close>.\<close>

definition stage_body :: "connection \<Rightarrow> stage" where
  "stage_body c =
     (if process_state (http c) = STATE_RECV_BODY then
        (case headers (http c) ''Content-length'' of
           None \<Rightarrow> bad_request ''Bad Request: Lock of Content-length'' c
         | Some v \<Rightarrow>
             bind_outcome (Some (stoi v)) (\<lambda>content_length.
               if length (buffer_in (http c)) < int_to_size content_length then Some (Inr (False, c))
               else Some (Inr (True, with_http (\<lambda>h. h\<lparr>process_state := STATE_ANALYSIS\<rparr>) c))))
      else Some (Inr (True, c)))"

definition stage_analysis :: "os \<Rightarrow> connection \<Rightarrow> connection outcome" where
  "stage_analysis os c =
     (if process_state (http c) = STATE_ANALYSIS then
        bind_outcome (analyze_request os c) (\<lambda>(flag, c).
          if flag = ANALYSIS_SUCCESS
          then Some (Inr (with_http (\<lambda>h. h\<lparr>process_state := STATE_FINISH\<rparr>) c))
          else Some (Inr (with_http (\<lambda>h. h\<lparr>is_error := True\<rparr>) c)))
      else Some (Inr c))"

definition and_then :: "stage \<Rightarrow> (connection \<Rightarrow> stage) \<Rightarrow> stage" where
  "and_then r f = bind_outcome r (\<lambda>(go, c). if go then f c else Some (Inr (False, c)))"

definition handle_read_body :: "os \<Rightarrow> connection \<Rightarrow> connection outcome" where
  "handle_read_body os c =
     bind_outcome (and_then (and_then (and_then (stage_receive c) stage_uri) stage_headers) stage_body)
       (\<lambda>(go, c). if go then stage_analysis os c else Some (Inr c))"

definition handle_write :: "connection \<Rightarrow> connection outcome" where
  "handle_write c0 =
     (if \<not> is_error (http c0) \<and> connection_state (http c0) \<noteq> H_DISCONNECTED then
        (case writen (to_write c0) (buffer_out (http c0)) of
           None \<Rightarrow> None
         | Some (Inl f) \<Rightarrow> Some (Inl f)
         | Some (Inr (n, buf, out, ws)) \<Rightarrow>
             (let c = (with_http (\<lambda>h. h\<lparr>buffer_out := buf\<rparr>) c0)\<lparr>to_write := ws, sent := sent c0 @ out\<rparr>;
                  c = (if n < 0 then with_events 0 (with_http (\<lambda>h. h\<lparr>is_error := True\<rparr>) c) else c) in
              Some (Inr (if length (buffer_out (http c)) > 0
                         then with_events (ch_events (chan c) OR EPOLLOUT) c else c))))
      else Some (Inr c0))"

text \<open>
  The end of \<open>handle_read\<close> calls \<open>handle_read\<close> again when a finished request left input
  behind. \<open>reset\<close> has just emptied the buffer, so the call is dead code: that is the
  termination proof.
\<close>

lemma reset_buffer_in: "buffer_in (http (reset c)) = []"
  by (auto simp: reset_def seperate_timer_def with_http_def Let_def split: option.splits)

function handle_read :: "os \<Rightarrow> connection \<Rightarrow> connection outcome" where
  "handle_read os c0 =
     bind_outcome (handle_read_body os c0) (\<lambda>c.
       bind_outcome
         (if \<not> is_error (http c) \<and> length (buffer_out (http c)) > 0 then handle_write c
          else Some (Inr c)) (\<lambda>c.
         if \<not> is_error (http c) \<and> process_state (http c) = STATE_FINISH then
           (if length (buffer_in (http (reset c))) > 0
              \<and> connection_state (http (reset c)) \<noteq> H_DISCONNECTED
            then handle_read os (reset c) else Some (Inr (reset c)))
         else if \<not> is_error (http c) \<and> connection_state (http c) \<noteq> H_DISCONNECTED
         then Some (Inr (with_events (ch_events (chan c) OR EPOLLIN) c))
         else Some (Inr c)))"
  by pat_completeness auto
termination
  by (relation "{}") (simp_all add: reset_buffer_in)

declare handle_read.simps [simp del]

section \<open>The connect handler\<close>

definition handle_connect :: "os \<Rightarrow> connection \<Rightarrow> connection outcome" where
  "handle_connect os c0 =
     (let c = seperate_timer c0; h = http c; events = ch_events (chan c) in
      if \<not> is_error h \<and> connection_state h = H_CONNECTED then
        (if events \<noteq> 0 then
           (let timeout = (if keep_alive h then DEFAULT_KEEP_ALIVE_TIME else DEFAULT_EXPIRED_TIME);
                events = (if events AND EPOLLIN \<noteq> 0 \<and> events AND EPOLLOUT \<noteq> 0 then EPOLLOUT else events)
            in update_poller os timeout (with_events (events OR EPOLLET) c))
         else if keep_alive h then
           update_poller os DEFAULT_KEEP_ALIVE_TIME
             (with_events (events OR (if EPOLLIN \<noteq> 0 \<or> EPOLLET \<noteq> 0 then 1 else 0)) c)
         else
           bind_outcome (handle_close os (shutdown_channel c)) (\<lambda>c.
             if \<not> owned c then Some (Inl Undefined_Behaviour)
             else update_poller os (DEFAULT_KEEP_ALIVE_TIME div 2)
                    (with_events (ch_events (chan c) OR (EPOLLIN OR EPOLLET)) c)))
      else if \<not> is_error h \<and> connection_state h = H_DISCONNECTED \<and> events AND EPOLLOUT \<noteq> 0
      then Some (Inr (with_events (EPOLLOUT OR EPOLLET) c))
      else handle_close os c)"

text \<open>What the channel of a connection runs, and the dispatch of its events.\<close>

fun http_callback :: "os \<Rightarrow> callback \<Rightarrow> connection \<Rightarrow> connection outcome" where
  "http_callback os Http_Handle_Read = handle_read os"
| "http_callback os Http_Handle_Write = handle_write"
| "http_callback os Http_Handle_Connect = handle_connect os"
| "http_callback os cb = (\<lambda>c. Some (Inr c))"

definition http_handle_events :: "os \<Rightarrow> connection \<Rightarrow> connection outcome" where
  "http_handle_events os = handle_events chan (\<lambda>f c. c\<lparr>chan := f (chan c)\<rparr>) (http_callback os)"

end
