(* ===== verification/Http_Requests.thy ===== *)
theory Http_Requests
  imports Http_Data
begin

text \<open>
  What the handlers of a connection do with whole requests: the stages composed, the answers a
  client sees, and what becomes of the connection afterwards. The parsers enter through the
  lemmas of \<open>Http_Parse\<close> and \<open>Http_Headers\<close>.
\<close>

section \<open>Requests\<close>

text \<open>A request as a client writes it, and what the parsers need of it.\<close>

definition request_text :: "string \<Rightarrow> string \<Rightarrow> string \<Rightarrow> (string \<times> string) list \<Rightarrow> string \<Rightarrow> string" where
  "request_text w f v hs body =
     request_line w f v @ CR # LF # render_headers hs @ [CR, LF] @ body"

fun method_word :: "HttpMethod \<Rightarrow> string" where
  "method_word METHOD_GET = ''GET''"
| "method_word METHOD_POST = ''POST''"
| "method_word METHOD_HEAD = ''HEAD''"

fun version_word :: "HttpVersion \<Rightarrow> string" where
  "version_word HTTP_10 = ''1.0''"
| "version_word HTTP_11 = ''1.1''"

definition ok_request ::
  "HttpMethod \<Rightarrow> string \<Rightarrow> HttpVersion \<Rightarrow> (string \<times> string) list \<Rightarrow> string \<Rightarrow> bool" where
  "ok_request m f v hs body =
     (CR \<notin> set f \<and> CHR '' '' \<notin> set f
      \<and> (m \<noteq> METHOD_GET \<longrightarrow> find_str ''GET'' (request_line (method_word m) f (version_word v)) = npos)
      \<and> (m = METHOD_HEAD \<longrightarrow> find_str ''POST'' (request_line (method_word m) f (version_word v)) = npos)
      \<and> hs \<noteq> [] \<and> list_all ok_header hs \<and> skip_r (fst (hd hs)) \<noteq> []
      \<and> length (request_text (method_word m) f (version_word v) hs body) < 2147483648)"

text \<open>The headers as they are stored.\<close>

definition stored_headers :: "(string \<times> string) list \<Rightarrow> (string \<rightharpoonup> string)" where
  "stored_headers hs = store_headers Map.empty ((skip_r (fst (hd hs)), snd (hd hs)) # tl hs)"

text \<open>A connection between two requests.\<close>

definition idle :: "connection \<Rightarrow> bool" where
  "idle c =
     (let h = http c in
      \<not> is_error h \<and> connection_state h = H_CONNECTED \<and> buffer_in h = [] \<and> buffer_out h = []
      \<and> process_state h = STATE_PARSE_URI \<and> parse_state h = H_START \<and> headers h = Map.empty
      \<and> read_cur h = 0 \<and> \<not> keep_alive h)"

definition receives :: "string \<Rightarrow> reads \<Rightarrow> connection \<Rightarrow> bool" where
  "receives text es c =
     (readn_zero (to_read c) (buffer_in (http c)) False 0 = Some (int (length text), buffer_in (http c) @ text, False, es))"

section \<open>The stages up to the analysis\<close>

lemma with_http_simps [simp]:
  "http (with_http f c) = f (http c)" "chan (with_http f c) = chan c" "poller (with_http f c) = poller c"
  "to_read (with_http f c) = to_read c" "to_write (with_http f c) = to_write c" "sent (with_http f c) = sent c"
  "self (with_http f c) = self c" "sock_ops (with_http f c) = sock_ops c"
  by (simp_all add: with_http_def)

lemma with_events_simps [simp]:
  "http (with_events ev c) = http c" "chan (with_events ev c) = set_events ev (chan c)"
  "poller (with_events ev c) = poller c" "to_read (with_events ev c) = to_read c"
  "to_write (with_events ev c) = to_write c" "sent (with_events ev c) = sent c"
  "self (with_events ev c) = self c" "sock_ops (with_events ev c) = sock_ops c"
  by (simp_all add: with_events_def)

lemma set_events_simps [simp]:
  "ch_events (set_events ev ch) = ev" "ch_fd (set_events ev ch) = ch_fd ch"
  "ch_revents (set_events ev ch) = ch_revents ch" "holder (set_events ev ch) = holder ch"
  "write_handler (set_events ev ch) = write_handler ch" "read_handler (set_events ev ch) = read_handler ch"
  "connect_handler (set_events ev ch) = connect_handler ch" "error_handler (set_events ev ch) = error_handler ch"
  by (simp_all add: set_events_def)

lemma and_then_go [simp]: "and_then (Some (Inr (True, c))) f = f c"
  by (simp add: and_then_def)

lemma and_then_stop [simp]:
  "and_then (Some (Inr (False, c))) f = Some (Inr (False, c))" "and_then None f = None"
  "and_then (Some (Inl e)) f = Some (Inl e)"
  by (simp_all add: and_then_def)

lemma stage_receive_idle:
  assumes "idle c" and "receives text es c" and "length text < 2147483648"
  shows "stage_receive c = Some (Inr (True, c\<lparr>http := (http c)\<lparr>buffer_in := text\<rparr>, to_read := es\<rparr>))"
  using assms by (simp add: stage_receive_def receives_def idle_def to_int32_small with_http_def Let_def)

definition parsed ::
  "HttpMethod \<Rightarrow> string \<Rightarrow> (string \<times> string) list \<Rightarrow> string \<Rightarrow> http_data \<Rightarrow> http_data \<Rightarrow> bool" where
  "parsed m f hs body h h' =
     (http_method h' = m \<and> file_name h' = target_file f \<and> headers h' = stored_headers hs
      \<and> buffer_in h' = tl body \<and> buffer_out h' = buffer_out h \<and> is_error h' = is_error h
      \<and> connection_state h' = connection_state h \<and> keep_alive h' = keep_alive h \<and> timer h' = timer h
      \<and> channel h' = channel h
      \<and> process_state h' = (if m = METHOD_POST then STATE_RECV_BODY else STATE_ANALYSIS))"

lemma parsing_stages:
  assumes "ok_request m f v hs body"
    and "buffer_in (http c) = request_text (method_word m) f (version_word v) hs body"
    and "process_state (http c) = STATE_PARSE_URI" "parse_state (http c) = H_START" "read_cur (http c) = 0"
      "headers (http c) = Map.empty"
  shows "\<exists>h. and_then (stage_uri c) stage_headers = Some (Inr (True, c\<lparr>http := h\<rparr>)) \<and> parsed m f hs body (http c) h"
proof -
  let ?rest = "LF # render_headers hs @ [CR, LF] @ body"
  define h1 where "h1 = (http c)\<lparr>buffer_in := ?rest, http_method := m, file_name := target_file f, http_version := v\<rparr>"
  have words: "(method_word m, m) \<in> {(''GET'', METHOD_GET), (''POST'', METHOD_POST), (''HEAD'', METHOD_HEAD)}"
    by (cases m) simp_all
  have vwords: "(version_word v, v) \<in> {(''1.0'', HTTP_10), (''1.1'', HTTP_11)}"
    by (cases v) simp_all
  have uri: "parse_URI (http c) = Inr (PARSE_URI_SUCCESS, h1)"
    unfolding h1_def
    by (rule parse_URI_line [OF words vwords]) (use assms in \<open>simp_all add: ok_request_def request_text_def\<close>)
  obtain k x hs' where hs: "hs = (k, x) # hs'" using assms(1) by (cases hs) (auto simp: ok_request_def)
  let ?h1 = "h1\<lparr>process_state := STATE_PARSE_HEADERS\<rparr>"
  have "length ?rest < 2147483648" using assms(1) by (simp add: ok_request_def request_text_def)
  then have "parse_Headers ?h1 = Inr (PARSE_HEADER_SUCCESS, ?h1\<lparr>parse_state := H_END_LF,
      headers := store_headers (headers ?h1) ((skip_r k, x) # hs'), buffer_in := tl body\<rparr>)"
    by (intro parse_Headers_block) (use assms hs in \<open>auto simp: h1_def ok_request_def\<close>)
  then show ?thesis
    using assms uri hs
    by (auto simp: stage_uri_def stage_headers_def h1_def parsed_def stored_headers_def)
qed

lemma receiving_stages:
  assumes "ok_request m f v hs body" and "idle c"
    and "receives (request_text (method_word m) f (version_word v) hs body) es c"
  shows "\<exists>h. and_then (and_then (stage_receive c) stage_uri) stage_headers
      = Some (Inr (True, c\<lparr>to_read := es, http := h\<rparr>)) \<and> parsed m f hs body (http c) h"
proof -
  let ?c = "c\<lparr>http := (http c)\<lparr>buffer_in := request_text (method_word m) f (version_word v) hs body\<rparr>, to_read := es\<rparr>"
  have "stage_receive c = Some (Inr (True, ?c))"
    using stage_receive_idle assms by (auto simp: ok_request_def)
  moreover obtain h where "and_then (stage_uri ?c) stage_headers = Some (Inr (True, ?c\<lparr>http := h\<rparr>))"
      "parsed m f hs body (http ?c) h"
    using parsing_stages [OF assms(1), of ?c] assms(2) by (auto simp: idle_def Let_def)
  ultimately show ?thesis by (intro exI [of _ h]) (simp add: parsed_def)
qed

section \<open>The analysis and the end of the handler\<close>

lemma file_type_of_ok:
  assumes "length name < 2147483648"
  shows "\<exists>t. file_type_of name = Inr t"
proof -
  let ?p = "find_char CHR ''.'' name 0"
  show ?thesis
  proof (cases "?p = npos")
    case True
    then show ?thesis by (simp add: file_type_of_def to_int32_npos)
  next
    case False
    then have "?p < length name" using find_char_less by blast
    then show ?thesis
      using assms by (simp add: file_type_of_def to_int32_small int_to_size_small substr_def)
  qed
qed

lemma seperate_timer_keeps [simp]:
  "chan (seperate_timer c) = chan c" "to_read (seperate_timer c) = to_read c"
  "to_write (seperate_timer c) = to_write c" "sent (seperate_timer c) = sent c"
  "self (seperate_timer c) = self c" "sock_ops (seperate_timer c) = sock_ops c"
  "is_error (http (seperate_timer c)) = is_error (http c)"
  "connection_state (http (seperate_timer c)) = connection_state (http c)"
  "buffer_in (http (seperate_timer c)) = buffer_in (http c)"
  "buffer_out (http (seperate_timer c)) = buffer_out (http c)"
  "process_state (http (seperate_timer c)) = process_state (http c)"
  "parse_state (http (seperate_timer c)) = parse_state (http c)"
  "headers (http (seperate_timer c)) = headers (http c)"
  "read_cur (http (seperate_timer c)) = read_cur (http c)"
  "keep_alive (http (seperate_timer c)) = keep_alive (http c)"
  by (simp_all add: seperate_timer_def Let_def split: option.splits)

lemma reset_keeps [simp]:
  "chan (reset c) = chan c" "to_read (reset c) = to_read c" "to_write (reset c) = to_write c"
  "sent (reset c) = sent c" "self (reset c) = self c" "sock_ops (reset c) = sock_ops c"
  "is_error (http (reset c)) = is_error (http c)"
  "connection_state (http (reset c)) = connection_state (http c)"
  "buffer_out (http (reset c)) = buffer_out (http c)"
  by (simp_all add: reset_def)

lemma reset_clears [simp]:
  "buffer_in (http (reset c)) = []" "process_state (http (reset c)) = STATE_PARSE_URI"
  "parse_state (http (reset c)) = H_START" "headers (http (reset c)) = Map.empty"
  "read_cur (http (reset c)) = 0" "\<not> keep_alive (http (reset c))"
  by (simp_all add: reset_def)

lemma target_file_short:
  assumes "ok_request m f v hs body"
  shows "length (target_file f) < 2147483648"
proof -
  have "length f < 2147483636"
    using assms by (auto simp: ok_request_def request_text_def request_line_def)
  moreover have "length (takeWhile (\<lambda>c. c \<noteq> CHR ''?'') f) \<le> length f" by (rule length_takeWhile_le)
  ultimately show ?thesis by (simp add: target_file_def)
qed

text \<open>The dead recursion gone.\<close>

lemma handle_read_eq:
  "handle_read os c0 =
     bind_outcome (handle_read_body os c0) (\<lambda>c.
       bind_outcome
         (if \<not> is_error (http c) \<and> buffer_out (http c) \<noteq> [] then handle_write c else Some (Inr c)) (\<lambda>c.
         if \<not> is_error (http c) \<and> process_state (http c) = STATE_FINISH then Some (Inr (reset c))
         else if \<not> is_error (http c) \<and> connection_state (http c) \<noteq> H_DISCONNECTED
         then Some (Inr (with_events (ch_events (chan c) OR EPOLLIN) c))
         else Some (Inr c)))"
  by (subst handle_read.simps) (simp cong: if_cong)

lemma writen_all:
  assumes "x \<noteq> []" and "length x < 2147483648"
  shows "writen (Ret (length x) # ws) x = Some (Inr (int (length x), [], x, ws))"
proof -
  have "write_loop (Ret (length x) # ws) x 0 [] = Some (Inr (Written (int (length x)) x ws))"
    using assms(1) by (subst write_loop.simps) (simp add: write_loop.simps)
  then show ?thesis using assms(2) by (simp add: writen_def cut_written_def to_int32_small)
qed

text \<open>At most the linked timer owns the object.\<close>

definition single_timer :: "connection \<Rightarrow> bool" where
  "single_timer c =
     (\<forall>t \<in> set (timer_pqueue (ep_timers (poller c))).
        http_data_ptr (timers (ep_timers (poller c)) t) = Some (self c) \<longrightarrow> timer (http c) = Some t)"

lemma single_timer_cong:
  "poller c' = poller c \<Longrightarrow> self c' = self c \<Longrightarrow> timer (http c') = timer (http c) \<Longrightarrow>
   single_timer c' = single_timer c"
  by (simp add: single_timer_def)

lemma clear_request_ptr [simp]: "http_data_ptr (clear_request t) = None"
  by (simp add: clear_request_def set_deleted_def)

lemma seperate_timer_disowns:
  assumes "single_timer c" and "t \<in> set (timer_pqueue (ep_timers (poller (seperate_timer c))))"
  shows "http_data_ptr (timers (ep_timers (poller (seperate_timer c))) t) \<noteq> Some (self c)"
  using assms
  by (auto simp: seperate_timer_def timer_locked_def single_timer_def Let_def split: option.splits if_splits)

lemma seperate_timer_single [inv_intros]: "single_timer c \<Longrightarrow> single_timer (seperate_timer c)"
  using seperate_timer_disowns [of c] by (simp add: single_timer_def)

lemma reset_single [inv_intros]:
  assumes "single_timer c"
  shows "single_timer (reset c)"
  unfolding reset_def
  by (rule seperate_timer_single) (use assms in \<open>simp add: single_timer_def\<close>)

text \<open>What the socket does with an output of less than 2 GiB, and what it leaves in the output buffer.\<close>

lemma writen_result:
  assumes "writen ws0 x = Some (Inr (m, rest, out, ws))" and "length x < 2147483648"
  shows "m \<noteq> - 1 \<Longrightarrow> out @ rest = x \<and> m = int (length out)"
    and "m = - 1 \<Longrightarrow> rest = x \<and> (\<exists>y. x = out @ y)"
    and "x = [] \<Longrightarrow> m = 0 \<and> rest = [] \<and> out = []"
proof -
  note w = writen_split [OF assms(1,2)]
  show "m \<noteq> - 1 \<Longrightarrow> out @ rest = x \<and> m = int (length out)" using w by simp
  show "m = - 1 \<Longrightarrow> rest = x \<and> (\<exists>y. x = out @ y)" using w by simp
  show "x = [] \<Longrightarrow> m = 0 \<and> rest = [] \<and> out = []"
    using assms(1) by (simp add: writen_def write_loop.simps cut_written_def to_int32_small)
qed

text \<open>How a connection is left when its answer has been handed to the socket with that result.\<close>

definition answered :: "int \<Rightarrow> string \<Rightarrow> channel_state \<Rightarrow> connection \<Rightarrow> bool" where
  "answered m rest ch c' \<longleftrightarrow>
     buffer_out (http c') = rest \<and>
     (if m < 0 then is_error (http c') \<and> chan c' = set_events EPOLLOUT ch
      else idle (with_http (\<lambda>h. h\<lparr>buffer_out := []\<rparr>) c') \<and>
           chan c' = (if rest = [] then ch else set_events (ch_events ch OR EPOLLOUT) ch))"

lemma answered_whole: "answered m [] ch c' \<Longrightarrow> 0 \<le> m \<Longrightarrow> idle c' \<and> chan c' = ch"
  by (simp add: answered_def idle_def Let_def)

lemma handle_read_finish:
  assumes "handle_read_body os c0 = Some (Inr c)" and "\<not> is_error (http c)"
    and "connection_state (http c) = H_CONNECTED" and "process_state (http c) = STATE_FINISH"
    and wr: "writen (to_write c) (buffer_out (http c)) = Some (Inr (m, rest, out, ws))"
    and small: "length (buffer_out (http c)) < 2147483648"
  shows "\<exists>c'. handle_read os c0 = Some (Inr c') \<and> sent c' = sent c @ out \<and> answered m rest (chan c) c'
     \<and> self c' = self c \<and> (single_timer c \<longrightarrow> single_timer c')"
proof -
  note r = writen_result [OF wr small]
  show ?thesis
  proof (cases "buffer_out (http c) = []")
    case True
    then have "m = 0" "rest = []" "out = []" using r(3) by simp_all
    then show ?thesis
      using assms(1-4) True
      by (auto simp: handle_read_eq answered_def idle_def Let_def intro: reset_single)
  next
    case False
    let ?c = "(with_http (\<lambda>h. h\<lparr>buffer_out := rest\<rparr>) c)\<lparr>to_write := ws, sent := sent c @ out\<rparr>"
    show ?thesis
    proof (cases "m = - 1")
      case True
      then have rest: "rest = buffer_out (http c)" using r(2) by simp
      let ?e = "with_events EPOLLOUT (with_events 0 (with_http (\<lambda>h. h\<lparr>is_error := True\<rparr>) ?c))"
      have "handle_read os c0 = Some (Inr ?e)"
        using False assms(1-5) True rest by (simp add: handle_read_eq handle_write_def Let_def)
      moreover have "single_timer ?e = single_timer c" by (rule single_timer_cong) simp_all
      moreover have "answered m rest (chan c) ?e" using True by (simp add: answered_def set_events_def)
      ultimately show ?thesis by (intro exI [of _ ?e]) simp
    next
      case False
      then have m: "0 \<le> m" using r(1) by simp
      let ?d = "if rest = [] then ?c else with_events (ch_events (chan c) OR EPOLLOUT) ?c"
      have "handle_read os c0 = Some (Inr (reset ?d))"
        using \<open>buffer_out (http c) \<noteq> []\<close> assms(1-5) m by (simp add: handle_read_eq handle_write_def Let_def)
      moreover have "single_timer (reset ?d)" if "single_timer c"
        by (rule reset_single) (use that in \<open>simp add: single_timer_def\<close>)
      moreover have "answered m rest (chan c) (reset ?d)"
        using m assms(2,3) by (simp add: answered_def idle_def Let_def)
      ultimately show ?thesis by (intro exI [of _ "reset ?d"]) simp
    qed
  qed
qed

lemma handle_read_body_analysis:
  assumes "ok_request m f v hs body" and "idle c" and "m \<noteq> METHOD_POST"
    and "receives (request_text (method_word m) f (version_word v) hs body) es c"
  shows "\<exists>h. handle_read_body os c = stage_analysis os (c\<lparr>to_read := es, http := h\<rparr>)
     \<and> parsed m f hs body (http c) h"
  using receiving_stages [OF assms(1,2,4)] assms(3)
  by (force simp: handle_read_body_def stage_body_def parsed_def)

lemma get_file_answered:
  assumes "idle c" and "ok_request METHOD_GET f v hs body"
    and "receives (request_text ''GET'' f (version_word v) hs body) es c"
    and "target_file f \<noteq> ''hello''" and "target_file f \<noteq> ''favicon.ico''"
    and "fs_stat os (c_str (target_file f)) = Some n" and "fs_open os (c_str (target_file f))"
    and "fs_mmap os (c_str (target_file f)) n = Some content"
    and "writen (to_write c) content = Some (Inr (m, rest, out, ws))" and "length content < 2147483648"
  shows "\<exists>c'. handle_read os c = Some (Inr c') \<and> sent c' = sent c @ out \<and> answered m rest (chan c) c'
     \<and> self c' = self c \<and> (single_timer c \<longrightarrow> single_timer c')"
proof -
  obtain h where body: "handle_read_body os c = stage_analysis os (c\<lparr>to_read := es, http := h\<rparr>)"
      and h: "parsed METHOD_GET f hs body (http c) h"
    using handle_read_body_analysis [OF assms(2,1) _ assms(3) [folded method_word.simps]] by auto
  obtain t where t: "file_type_of (target_file f) = Inr t"
    using file_type_of_ok target_file_short [OF assms(2)] by blast
  have "\<exists>c1. handle_read_body os c = Some (Inr c1) \<and> \<not> is_error (http c1)
      \<and> connection_state (http c1) = H_CONNECTED \<and> process_state (http c1) = STATE_FINISH
      \<and> buffer_out (http c1) = content \<and> to_write c1 = to_write c \<and> sent c1 = sent c \<and> chan c1 = chan c
      \<and> self c1 = self c \<and> (single_timer c \<longrightarrow> single_timer c1)"
    using body h t assms(1-8)
    by (auto simp: stage_analysis_def analyze_request_def analyze_file_def parsed_def idle_def Let_def
        ok_header_text_def single_timer_def)
  then obtain c1 where c1: "handle_read_body os c = Some (Inr c1)" "\<not> is_error (http c1)"
      "connection_state (http c1) = H_CONNECTED" "process_state (http c1) = STATE_FINISH"
      and same: "buffer_out (http c1) = content" "to_write c1 = to_write c" "sent c1 = sent c" "chan c1 = chan c"
        "self c1 = self c" "single_timer c \<longrightarrow> single_timer c1" by blast
  have "writen (to_write c1) (buffer_out (http c1)) = Some (Inr (m, rest, out, ws))"
    using assms(9) same(1,2) by simp
  from handle_read_finish [OF c1 this] show ?thesis using assms(10) same by auto
qed

text \<open>The socket takes the whole answer, in one write or in any pieces.\<close>

lemma get_file_whole:
  assumes "idle c" and "ok_request METHOD_GET f v hs body"
    and "receives (request_text ''GET'' f (version_word v) hs body) es c"
    and "target_file f \<noteq> ''hello''" and "target_file f \<noteq> ''favicon.ico''"
    and "fs_stat os (c_str (target_file f)) = Some n" and "fs_open os (c_str (target_file f))"
    and "fs_mmap os (c_str (target_file f)) n = Some content"
    and "writen (to_write c) content = Some (Inr (m, [], out, ws))" and "length content < 2147483648"
  shows "\<exists>c'. handle_read os c = Some (Inr c') \<and> sent c' = sent c @ content \<and> idle c'
     \<and> chan c' = chan c \<and> self c' = self c \<and> (single_timer c \<longrightarrow> single_timer c')"
proof -
  note r = writen_result [OF assms(9,10)]
  have "m \<noteq> - 1" using r(2,3) by fastforce
  then have "out = content" "0 \<le> m" using r(1) by simp_all
  then show ?thesis using get_file_answered [OF assms] answered_whole by metis
qed

section \<open>A concrete connection\<close>

text \<open>For the examples: a file system with one file of two bytes and an empty one.\<close>

definition demo_os :: os where
  "demo_os =
     \<lparr>fs_stat = (\<lambda>name. if name = ''a.txt'' then Some 2 else if name = ''empty'' then Some 0 else None),
      fs_open = (\<lambda>name. True),
      fs_mmap = (\<lambda>name n. if n = 0 then None else Some (replicate n CHR ''x'')),
      os_ctl = (\<lambda>log op fd ev. True), os_now = (1, 0)\<rparr>"

definition demo_connection :: "string \<Rightarrow> writes \<Rightarrow> connection" where
  "demo_connection text ws =
     \<lparr>self = 3, http = new_http_data 0 4 7,
      chan = bind_handlers (set_holder 3 (new_channel_fd EPOLLIN 7)),
      poller = new_epoll\<lparr>fd_to_http := (\<lambda>_. None)(7 := Some 3)\<rparr>,
      to_read = [Ret text, Err EAGAIN], to_write = ws, sent = [], sock_ops = []\<rparr>"

lemma demo_connection_simps [simp]:
  "self (demo_connection text ws) = 3" "http (demo_connection text ws) = new_http_data 0 4 7"
  "to_read (demo_connection text ws) = [Ret text, Err EAGAIN]" "to_write (demo_connection text ws) = ws"
  "sent (demo_connection text ws) = []"
  "ch_fd (chan (demo_connection text ws)) = 7" "ch_events (chan (demo_connection text ws)) = 0"
  "single_timer (demo_connection text ws)" "ch_revents (chan (demo_connection text ws)) = EPOLLIN"
  by (simp_all add: demo_connection_def bind_handlers_def set_holder_def new_channel_fd_def set_write_handler_def
      set_connect_handler_def set_read_handler_def single_timer_def new_epoll_def)

lemma demo_idle: "idle (demo_connection text ws)"
  by (simp add: idle_def new_http_data_def)

lemma demo_receives: "text \<noteq> [] \<Longrightarrow> receives text [] (demo_connection text ws)"
  by (simp add: receives_def new_http_data_def)

lemma demo_headers: "list_all ok_header [(''Host'', ''h'')]" "skip_r (fst (hd [(''Host'', ''h'')])) \<noteq> []"
  by (simp_all add: ok_header_def key_char_def skip_r_def CR_def LF_def)

lemma demo_find: "find_str ''GET'' (request_line ''HEAD'' ''a.txt'' ''1.1'') = npos"
  "find_str ''POST'' (request_line ''HEAD'' ''a.txt'' ''1.1'') = npos"
  by (simp_all add: find_str_def request_line_def)

lemma demo_length:
  "length (request_text ''GET'' ''a.txt'' ''1.1'' [(''Host'', ''h'')] []) < 2147483648"
  "length (request_text ''HEAD'' ''a.txt'' ''1.1'' [(''Host'', ''h'')] []) < 2147483648"
  "length (request_text ''GET'' ''empty'' ''1.1'' [(''Host'', ''h'')] []) < 2147483648"
  by (simp_all add: request_text_def request_line_def render_header_def)

lemma demo_path: "CR \<notin> set ''a.txt'' \<and> CHR '' '' \<notin> set ''a.txt''" "CR \<notin> set ''empty'' \<and> CHR '' '' \<notin> set ''empty''"
  by (simp_all add: CR_def)

lemma demo_request_get: "ok_request METHOD_GET ''a.txt'' HTTP_11 [(''Host'', ''h'')] []"
  using demo_headers demo_path by (simp add: ok_request_def demo_length)

lemma demo_request_empty: "ok_request METHOD_GET ''empty'' HTTP_11 [(''Host'', ''h'')] []"
  using demo_headers demo_path by (simp add: ok_request_def demo_length)

lemma demo_request_head: "ok_request METHOD_HEAD ''a.txt'' HTTP_11 [(''Host'', ''h'')] []"
  unfolding ok_request_def method_word.simps version_word.simps
  by (intro conjI impI demo_find demo_length demo_headers) (simp_all add: CR_def demo_headers)

lemmas demo_request = demo_request_get demo_request_empty demo_request_head

text \<open>
  C1. Reading from the socket to the answer: on a connection between two requests that has received a
  complete well-formed \<open>GET\<close> of a readable file of less than 2 GiB, the bytes that go out are the front
  of the file and nothing else, whatever the socket answers to the writes. The status line and the
  headers the code builds never reach the output, so what the client receives is not an HTTP response.
  What the socket does not take at once stays in the output buffer, and \<open>EPOLLOUT\<close> is requested for it;
  apart from that the request is finished and the connection as between two requests, without the input
  that followed the request and without keep-alive, whatever the request asked for. When the socket takes
  the whole file, in one write or in any pieces, the connection is idle again and the events it asks for
  are as before. When a write fails the whole file stays in the buffer, however much of it has gone out,
  and the connection is in error.
\<close>

theorem get_file_answer:
  assumes "idle c" and "ok_request METHOD_GET f v hs body"
    and "receives (request_text ''GET'' f (version_word v) hs body) es c"
    and "target_file f \<noteq> ''hello''" and "target_file f \<noteq> ''favicon.ico''"
    and "fs_stat os (c_str (target_file f)) = Some n" and "fs_open os (c_str (target_file f))"
    and "fs_mmap os (c_str (target_file f)) n = Some content"
    and "writen (to_write c) content = Some (Inr (m, rest, out, ws))" and "length content < 2147483648"
  shows "\<exists>c'. handle_read os c = Some (Inr c') \<and> sent c' = sent c @ out \<and> buffer_out (http c') = rest
     \<and> self c' = self c \<and> (single_timer c \<longrightarrow> single_timer c')
     \<and> (if m < 0
        then rest = content \<and> (\<exists>y. content = out @ y) \<and> is_error (http c') \<and> chan c' = set_events EPOLLOUT (chan c)
        else out @ rest = content \<and> idle (with_http (\<lambda>h. h\<lparr>buffer_out := []\<rparr>) c')
          \<and> (rest = [] \<longrightarrow> idle c' \<and> chan c' = chan c)
          \<and> (rest \<noteq> [] \<longrightarrow> chan c' = set_events (ch_events (chan c) OR EPOLLOUT) (chan c)))"
proof -
  note r = writen_result [OF assms(9,10)]
  obtain c' where c': "handle_read os c = Some (Inr c')" "sent c' = sent c @ out" "answered m rest (chan c) c'"
      "self c' = self c" "single_timer c \<longrightarrow> single_timer c'"
    using get_file_answered [OF assms] by blast
  show ?thesis
  proof (cases "m < 0")
    case True
    then have "m = - 1" using r(1) by fastforce
    then show ?thesis using c' r(2) by (intro exI [of _ c']) (simp add: answered_def)
  next
    case False
    then have "out @ rest = content" using r(1) by simp
    moreover have "rest = [] \<longrightarrow> idle c' \<and> chan c' = chan c"
      using answered_whole [of m "chan c" c'] c'(3) False by auto
    ultimately show ?thesis using c' False by (intro exI [of _ c']) (simp add: answered_def)
  qed
qed

text \<open>Both ways: a socket that takes everything, and one that takes one of the two bytes.\<close>

theorem get_file_answer_witness:
  "(\<exists>c'. handle_read demo_os (demo_connection
       (request_text ''GET'' ''a.txt'' ''1.1'' [(''Host'', ''h'')] []) [Ret 2]) = Some (Inr c')
     \<and> sent c' = ''xx'' \<and> idle c')
   \<and> (\<exists>c'. handle_read demo_os (demo_connection
       (request_text ''GET'' ''a.txt'' ''1.1'' [(''Host'', ''h'')] []) [Ret 1, Err EAGAIN]) = Some (Inr c')
     \<and> sent c' = ''x'' \<and> buffer_out (http c') = ''x'' \<and> ch_events (chan c') = EPOLLOUT)"
proof
  let ?t = "request_text ''GET'' ''a.txt'' ''1.1'' [(''Host'', ''h'')] []"
  have prems: "idle (demo_connection ?t ws)" "receives (request_text ''GET'' ''a.txt'' (version_word HTTP_11) [(''Host'', ''h'')] []) [] (demo_connection ?t ws)"
      "fs_stat demo_os (c_str (target_file ''a.txt'')) = Some 2" "fs_open demo_os (c_str (target_file ''a.txt''))"
      "fs_mmap demo_os (c_str (target_file ''a.txt'')) 2 = Some ''xx''"
      "target_file ''a.txt'' \<noteq> ''hello''" "target_file ''a.txt'' \<noteq> ''favicon.ico''" for ws
    by (simp_all add: demo_idle demo_receives demo_os_def target_file_def c_str_def request_text_def
        request_line_def numeral_2_eq_2)
  have "writen (to_write (demo_connection ?t [Ret 2])) ''xx'' = Some (Inr (2, [], ''xx'', []))"
    by (simp add: writen_def write_loop.simps cut_written_def to_int32_def)
  from get_file_answer [OF prems(1) demo_request_get prems(2,6,7,3,4,5) this]
  show "\<exists>c'. handle_read demo_os (demo_connection ?t [Ret 2]) = Some (Inr c') \<and> sent c' = ''xx'' \<and> idle c'"
    by auto
  have "writen (to_write (demo_connection ?t [Ret 1, Err EAGAIN])) ''xx'' = Some (Inr (1, ''x'', ''x'', []))"
    by (simp add: writen_def write_loop.simps cut_written_def to_int32_def int_to_size_def npos_def)
  from get_file_answer [OF prems(1) demo_request_get prems(2,6,7,3,4,5) this]
  show "\<exists>c'. handle_read demo_os (demo_connection ?t [Ret 1, Err EAGAIN]) = Some (Inr c')
     \<and> sent c' = ''x'' \<and> buffer_out (http c') = ''x'' \<and> ch_events (chan c') = EPOLLOUT"
    by auto
qed

text \<open>
  A \<open>HEAD\<close> request for an existing file is answered with nothing at all: the handler
  finishes successfully, writes no byte, and the connection is idle again.
\<close>

theorem head_answer_empty:
  assumes "idle c" and "ok_request METHOD_HEAD f v hs body"
    and "receives (request_text ''HEAD'' f (version_word v) hs body) es c"
    and "target_file f \<noteq> ''hello''" and "target_file f \<noteq> ''favicon.ico''"
    and "fs_stat os (c_str (target_file f)) = Some n"
  shows "\<exists>c'. handle_read os c = Some (Inr c') \<and> sent c' = sent c \<and> to_write c' = to_write c \<and> idle c'"
proof -
  obtain h where body: "handle_read_body os c = stage_analysis os (c\<lparr>to_read := es, http := h\<rparr>)"
      and h: "parsed METHOD_HEAD f hs body (http c) h"
    using handle_read_body_analysis [OF assms(2,1) _ assms(3) [folded method_word.simps]] by auto
  obtain t where t: "file_type_of (target_file f) = Inr t"
    using file_type_of_ok target_file_short [OF assms(2)] by blast
  show ?thesis
    using body h t assms
    by (auto simp: handle_read_eq stage_analysis_def analyze_request_def analyze_file_def parsed_def idle_def
        Let_def ok_header_text_def)
qed

theorem head_answer_empty_witness:
  "\<exists>c'. handle_read demo_os (demo_connection
       (request_text ''HEAD'' ''a.txt'' ''1.1'' [(''Host'', ''h'')] []) [Ret 2]) = Some (Inr c')
     \<and> sent c' = [] \<and> to_write c' = [Ret 2] \<and> idle c'"
proof -
  let ?t = "request_text ''HEAD'' ''a.txt'' ''1.1'' [(''Host'', ''h'')] []"
  have "\<exists>c'. handle_read demo_os (demo_connection ?t [Ret 2]) = Some (Inr c')
     \<and> sent c' = sent (demo_connection ?t [Ret 2]) \<and> to_write c' = to_write (demo_connection ?t [Ret 2]) \<and> idle c'"
    by (rule head_answer_empty [where f = "''a.txt''" and v = HTTP_11 and hs = "[(''Host'', ''h'')]" and body = "[]"
          and es = "[]" and n = 2])
      (simp_all add: demo_idle demo_request demo_receives demo_os_def target_file_def c_str_def request_text_def
        request_line_def)
  then show ?thesis by simp
qed

section \<open>Error pages\<close>

lemma send_c_str_all:
  assumes "CHR 0x00 \<notin> set x" and "x \<noteq> []" and "length x < 4096" and "to_write c = Ret (length x) # ws"
  shows "send_c_str x c = Some (Inr (c\<lparr>to_write := ws, sent := sent c @ x\<rparr>))"
proof -
  have "c_str x = x" using assms(1) by (auto simp: c_str_def takeWhile_eq_all_conv)
  moreover have "writen_buf (Ret (length x) # ws) x = Some (Inr (int (length x), x, ws))"
    using assms(2) by (simp add: writen_buf_def write_loop.simps)
  ultimately show ?thesis using assms by (simp add: send_c_str_def)
qed

definition error_page :: "int \<Rightarrow> string \<Rightarrow> string" where
  "error_page error_code short_message =
     error_header error_code short_message @ error_body error_code short_message"

definition takes_page :: "int \<Rightarrow> string \<Rightarrow> writes \<Rightarrow> writes \<Rightarrow> bool" where
  "takes_page error_code short_message ws ws' =
     (ws = Ret (length (error_header error_code short_message))
           # Ret (length (error_body error_code short_message)) # ws')"

definition page_fits :: "int \<Rightarrow> string \<Rightarrow> bool" where
  "page_fits error_code short_message =
     (CHR 0x00 \<notin> set (error_page error_code short_message)
      \<and> length (error_header error_code short_message) < 4096
      \<and> length (error_body error_code short_message) < 4096)"

lemma page_parts_nonempty: "error_header code msg \<noteq> []" "error_body code msg \<noteq> []"
  by (simp_all add: error_header_def error_body_def)

lemma handle_error_page:
  assumes "page_fits code msg" and "takes_page code msg (to_write c) ws"
  shows "handle_error code msg c = Some (Inr (c\<lparr>to_write := ws, sent := sent c @ error_page code msg\<rparr>))"
  using assms
  by (simp add: handle_error_def page_fits_def takes_page_def error_page_def send_c_str_all page_parts_nonempty)

lemma fixed_pages_fit:
  "page_fits 404 ''Not Found!!!''" "page_fits 400 ''Bad Request!!!''"
  "page_fits 400 ''Bad Request: Lock of Content-length''"
  by code_simp+

end
