(* ===== verification/Http_Lifecycle.thy ===== *)
theory Http_Lifecycle
  imports Http_Requests
begin

text \<open>
  What the handlers of a connection do when a request cannot be served, what becomes of a
  connection after a request, of output the socket did not take, and of the timers.
\<close>

section \<open>Requests that are refused\<close>

definition file_missing :: "os \<Rightarrow> string \<Rightarrow> bool" where
  "file_missing os name =
     (case fs_stat os name of
        None \<Rightarrow> True
      | Some n \<Rightarrow> \<not> fs_open os name \<or> fs_mmap os name n = None)"

lemma not_found_page:
  assumes "takes_page 404 ''Not Found!!!'' (to_write c) ws"
  shows "not_found c = Some (Inr (ANALYSIS_ERROR,
     c\<lparr>to_write := ws, sent := sent c @ error_page 404 ''Not Found!!!''\<rparr>))"
  using assms fixed_pages_fit by (simp add: not_found_def handle_error_page)

text \<open>
  A \<open>GET\<close> for a file that cannot be read is answered with the page for status 404 and ends
  the conversation. An empty file is such a file, since \<open>mmap\<close> refuses a length of 0.
\<close>

theorem missing_file_answer:
  assumes "idle c" and "ok_request METHOD_GET f v hs body"
    and "receives (request_text ''GET'' f (version_word v) hs body) es c"
    and "target_file f \<noteq> ''hello''" and "target_file f \<noteq> ''favicon.ico''"
    and "file_missing os (c_str (target_file f))"
    and "takes_page 404 ''Not Found!!!'' (to_write c) ws"
  shows "\<exists>c'. handle_read os c = Some (Inr c') \<and> is_error (http c')
     \<and> sent c' = sent c @ error_page 404 ''Not Found!!!''"
proof -
  obtain h where body: "handle_read_body os c = stage_analysis os (c\<lparr>to_read := es, http := h\<rparr>)"
      and h: "parsed METHOD_GET f hs body (http c) h"
    using handle_read_body_analysis [OF assms(2,1) _ assms(3) [folded method_word.simps]] by auto
  obtain t where t: "file_type_of (target_file f) = Inr t"
    using file_type_of_ok target_file_short [OF assms(2)] by blast
  let ?c = "c\<lparr>to_read := es, http := h\<rparr>"
  have "\<exists>c1. analyze_request os ?c = not_found c1 \<and> to_write c1 = to_write c \<and> sent c1 = sent c"
    using h t assms(4-6)
    by (auto simp: analyze_request_def analyze_file_def parsed_def Let_def ok_header_text_def file_missing_def
        split: option.splits)
  then obtain c1 where "analyze_request os ?c = Some (Inr (ANALYSIS_ERROR,
      c1\<lparr>to_write := ws, sent := sent c @ error_page 404 ''Not Found!!!''\<rparr>))"
    using not_found_page assms(7) by metis
  then show ?thesis using body h by (simp add: handle_read_eq stage_analysis_def parsed_def)
qed

theorem missing_file_answer_witness:
  "\<exists>c'. handle_read demo_os (demo_connection (request_text ''GET'' ''empty'' ''1.1'' [(''Host'', ''h'')] [])
       [Ret (length (error_header 404 ''Not Found!!!'')), Ret (length (error_body 404 ''Not Found!!!''))])
     = Some (Inr c') \<and> is_error (http c') \<and> sent c' = error_page 404 ''Not Found!!!''"
proof -
  let ?c = "demo_connection (request_text ''GET'' ''empty'' ''1.1'' [(''Host'', ''h'')] [])
       [Ret (length (error_header 404 ''Not Found!!!'')), Ret (length (error_body 404 ''Not Found!!!''))]"
  have "\<exists>c'. handle_read demo_os ?c = Some (Inr c') \<and> is_error (http c')
     \<and> sent c' = sent ?c @ error_page 404 ''Not Found!!!''"
    by (rule missing_file_answer [where f = "''empty''" and v = HTTP_11 and hs = "[(''Host'', ''h'')]" and body = "[]"
          and es = "[]" and ws = "[]"])
      (simp_all add: demo_idle demo_request demo_receives demo_os_def target_file_def c_str_def request_text_def
        request_line_def file_missing_def takes_page_def)
  then show ?thesis by simp
qed



section \<open>After the request\<close>

lemma single_timer_with [simp]:
  "single_timer (with_events ev c) = single_timer c" "single_timer (shutdown_channel c) = single_timer c"
  by (simp_all add: single_timer_def shutdown_channel_def)

lemma shutdown_channel_simps [simp]:
  "http (shutdown_channel c) = http c" "chan (shutdown_channel c) = chan c"
  "poller (shutdown_channel c) = poller c" "self (shutdown_channel c) = self c"
  "sent (shutdown_channel c) = sent c" "to_write (shutdown_channel c) = to_write c"
  by (simp_all add: shutdown_channel_def)

lemma handle_close_eq:
  assumes "ch_fd (chan c) < MAX_FDS"
  shows "\<exists>c'. handle_close os c = Some (Inr c') \<and> fd_to_http (poller c') (ch_fd (chan c)) = None
     \<and> ep_timers (poller c') = ep_timers (poller c) \<and> chan c' = chan c \<and> self c' = self c"
  using assms
  by (simp add: handle_close_def remove_from_poller_def delete_fd_in_epoll_def epoll_ctl_def Let_def)

lemma close_destroys:
  assumes "single_timer c0" and "c = seperate_timer c0" and "ch_fd (chan c0) < MAX_FDS"
  shows "\<exists>c'. handle_close os (shutdown_channel c) = Some (Inr c') \<and> \<not> owned c'"
proof -
  obtain c' where c': "handle_close os (shutdown_channel c) = Some (Inr c')"
      "fd_to_http (poller c') (ch_fd (chan c)) = None" "ep_timers (poller c') = ep_timers (poller c)"
      "chan c' = chan c" "self c' = self c"
    using handle_close_eq [of "shutdown_channel c" os] assms(2,3) by auto
  then have "\<not> owned c'"
    using seperate_timer_disowns [OF assms(1)] assms(2) by (auto simp: owned_def list_ex_iff)
  then show ?thesis using c' by blast
qed

lemma handle_connect_idle:
  assumes "single_timer c" and "ch_fd (chan c) < MAX_FDS" and "\<not> is_error (http c)"
    and "connection_state (http c) = H_CONNECTED" and "\<not> keep_alive (http c)" and "ch_events (chan c) = 0"
  shows "handle_connect os c = Some (Inl Undefined_Behaviour)"
proof -
  obtain c' where "handle_close os (shutdown_channel (seperate_timer c)) = Some (Inr c')" "\<not> owned c'"
    using close_destroys [OF assms(1) refl assms(2)] by blast
  then show ?thesis using assms by (simp add: handle_connect_def Let_def)
qed

text \<open>
  After an answer that the socket has taken whole the connect handler closes the connection, which releases the last owner of the
  object, and goes on to use the object.
\<close>

lemma read_event_use_after_free:
  assumes "idle c" and "ok_request METHOD_GET f v hs body"
    and "receives (request_text ''GET'' f (version_word v) hs body) es c"
    and "target_file f \<noteq> ''hello''" and "target_file f \<noteq> ''favicon.ico''"
    and "fs_stat os (c_str (target_file f)) = Some n" and "fs_open os (c_str (target_file f))"
    and "fs_mmap os (c_str (target_file f)) n = Some content"
    and "writen (to_write c) content = Some (Inr (m, [], out, ws))" and "length content < 2147483648"
    and "single_timer c" and "ch_fd (chan c) < MAX_FDS" and "ch_revents (chan c) = EPOLLIN"
    and "read_handler (chan c) = Some Http_Handle_Read"
    and "connect_handler (chan c) = Some Http_Handle_Connect"
  shows "http_handle_events os c = Some (Inl Undefined_Behaviour)"
proof -
  let ?c = "c\<lparr>chan := set_events 0 (chan c)\<rparr>"
  have idl: "idle ?c" and rcv: "receives (request_text ''GET'' f (version_word v) hs body) es ?c"
    and sgl: "single_timer ?c" and wr: "writen (to_write ?c) content = Some (Inr (m, [], out, ws))"
    using assms(1,3,9,11) by (simp_all add: idle_def receives_def single_timer_def)
  obtain c' where c': "handle_read os ?c = Some (Inr c')" "idle c'" "chan c' = chan ?c" "single_timer c'"
    using get_file_whole [OF idl assms(2) rcv assms(4-8) wr assms(10)] sgl by auto
  have "handle_connect os c' = Some (Inl Undefined_Behaviour)"
    by (rule handle_connect_idle) (use c' assms(12) in \<open>auto simp: idle_def Let_def\<close>)
  then show ?thesis
    using c' assms(13-15)
    by (simp add: http_handle_events_def handle_events_def channel_handle_read_def channel_handle_connect_def Let_def)
qed

text \<open>What the calls into the poller leave alone.\<close>

definition same_output :: "connection \<Rightarrow> connection \<Rightarrow> bool" where
  "same_output c c' =
     (sent c' = sent c \<and> to_write c' = to_write c \<and> buffer_out (http c') = buffer_out (http c))"

lemma after_ctl_output: "same_output c (after_ctl r c)"
  by (auto simp: after_ctl_def same_output_def link_timer_def split: prod.splits option.splits)

lemma same_output_trans [trans]: "same_output a b \<Longrightarrow> same_output b c \<Longrightarrow> same_output a c"
  by (simp add: same_output_def)

lemma update_poller_output: "update_poller os t c = Some (Inr c') \<Longrightarrow> same_output c c'"
  using after_ctl_output by (auto simp: update_poller_def bind_result_Inr)

lemma handle_close_output: "handle_close os c = Some (Inr c') \<Longrightarrow> same_output c c'"
  by (auto simp: handle_close_def remove_from_poller_def bind_result_Inr same_output_def)

lemma same_output_simps [simp]:
  "same_output (with_events ev c) c' = same_output c c'" "same_output c (with_events ev c') = same_output c c'"
  "same_output (shutdown_channel c) c' = same_output c c'" "same_output (seperate_timer c) c' = same_output c c'"
  by (simp_all add: same_output_def shutdown_channel_def)

lemma handle_connect_output: "handle_connect os c = Some (Inr c') \<Longrightarrow> same_output c c'"
  by (auto simp: handle_connect_def Let_def bind_outcome_Some_Inr same_output_def split: if_splits
      dest!: update_poller_output [unfolded same_output_def] handle_close_output [unfolded same_output_def])

lemma equal_and_update_slots:
  "equal_and_update_last_events ch = (e, ch') \<Longrightarrow> slots ch' = slots ch"
  by (auto simp: equal_and_update_last_events_def slots_def Let_def)

lemma update_poller_slots: "update_poller os t c = Some (Inr c') \<Longrightarrow> slots (chan c') = slots (chan c)"
  by (auto simp: update_poller_def bind_result_Inr modify_fd_in_epoll_def after_ctl_def Let_def
      dest: equal_and_update_slots split: prod.splits if_splits)

lemma handle_close_chan: "handle_close os c = Some (Inr c') \<Longrightarrow> chan c' = chan c"
  by (auto simp: handle_close_def remove_from_poller_def bind_result_Inr)

lemma handle_connect_slots: "handle_connect os c = Some (Inr c') \<Longrightarrow> slots (chan c') = slots (chan c)"
  by (auto simp: handle_connect_def Let_def bind_outcome_Some_Inr split: if_splits
      dest!: update_poller_slots handle_close_chan)

text \<open>
  Output the socket did not take at once is never sent: the write event runs the connect
  handler (the constructor binds it in place of \<open>handle_write\<close>), so a write event without a read
  event beside it leaves the output buffer and the socket as they are.
\<close>

theorem write_event_sends_nothing:
  assumes "snd (slots (chan c)) = snd (slots (bind_handlers ch))" and "error_handler ch = None"
    and "ch_revents (chan c) AND 0x2003 = 0" and "http_handle_events os c = Some (Inr c')"
  shows "sent c' = sent c \<and> to_write c' = to_write c \<and> buffer_out (http c') = buffer_out (http c)"
proof -
  have slots: "write_handler (chan c) = Some Http_Handle_Connect" "connect_handler (chan c) = Some Http_Handle_Connect"
    "error_handler (chan c) = None"
    using assms(1,2) by (simp_all add: slots_def bind_handlers_def set_write_handler_def set_connect_handler_def
        set_read_handler_def)
  let ?c = "c\<lparr>chan := set_events 0 (chan c)\<rparr>"
  have two: "same_output d e"
    if "handle_connect os d = Some (Inr d')" "connect_handler (chan d) = Some Http_Handle_Connect"
      "call_handler (http_callback os) (connect_handler (chan d')) d' = Some (Inr e)" for d d' e
    using that handle_connect_slots [OF that(1)] same_output_trans handle_connect_output
    by (fastforce simp: slots_def)
  have "http_handle_events os c = (if hung_or_failed (chan c) then Some (Inr ?c)
      else bind_outcome (if ch_revents (chan c) AND EPOLLOUT \<noteq> 0 then handle_connect os ?c else Some (Inr ?c))
             (\<lambda>s. call_handler (http_callback os) (connect_handler (chan s)) s))"
    using slots assms(3) by (simp add: http_handle_events_def handle_events_def channel_handle_write_def [abs_def]
        channel_handle_connect_def [abs_def] hung_or_failed_def has_event_def Let_def set_events_def)
  then have "(if hung_or_failed (chan c) then Some (Inr ?c)
      else bind_outcome (if ch_revents (chan c) AND EPOLLOUT \<noteq> 0 then handle_connect os ?c else Some (Inr ?c))
             (\<lambda>s. call_handler (http_callback os) (connect_handler (chan s)) s)) = Some (Inr c')"
    using assms(4) by simp
  then have "c' = ?c \<or> (\<exists>d'. (handle_connect os ?c = Some (Inr d') \<or> d' = ?c)
      \<and> call_handler (http_callback os) (connect_handler (chan d')) d' = Some (Inr c'))"
    by (auto simp: bind_outcome_Some_Inr split: if_splits)
  moreover have "same_output ?c c'" if "call_handler (http_callback os) (connect_handler (chan ?c)) ?c = Some (Inr c')"
    using that slots(2) handle_connect_output by simp
  moreover have "same_output ?c ?c" by (simp add: same_output_def)
  moreover have "connect_handler (chan ?c) = Some Http_Handle_Connect" using slots(2) by simp
  ultimately have "same_output ?c c'" using two by blast
  then show ?thesis by (simp add: same_output_def)
qed

lemma demo_update_poller:
  "holder (chan c) = None \<Longrightarrow> \<exists>c'. update_poller demo_os t c = Some (Inr c') \<and> http c' = http c
     \<and> slots (chan c') = slots (chan c) \<and> holder (chan c') = None"
  by (auto simp: update_poller_def modify_fd_in_epoll_def epoll_add_timer_def get_holder_def epoll_ctl_def
      equal_and_update_last_events_def after_ctl_def demo_os_def slots_def Let_def)

lemma demo_handle_connect:
  assumes "holder (chan c) = None" and "timer (http c) = None" and "\<not> is_error (http c)"
    and "connection_state (http c) = H_CONNECTED" and "keep_alive (http c)"
  shows "\<exists>c'. handle_connect demo_os c = Some (Inr c') \<and> http c' = http c
     \<and> slots (chan c') = slots (chan c) \<and> holder (chan c') = None"
proof -
  have "seperate_timer c = c" using assms(2) by (simp add: seperate_timer_def timer_locked_def)
  then show ?thesis
    using assms demo_update_poller [of "with_events ev c" for ev]
    by (cases "ch_events (chan c) = 0") (simp_all add: handle_connect_def Let_def)
qed

theorem write_event_sends_nothing_witness:
  "\<exists>c'. http_handle_events demo_os ((demo_connection [] [Ret 4])\<lparr>
         http := (new_http_data 0 4 7)\<lparr>buffer_out := ''rest'', keep_alive := True\<rparr>,
         chan := set_revents EPOLLOUT (bind_handlers (new_channel_fd 0 7))\<rparr>) = Some (Inr c')
     \<and> sent c' = [] \<and> to_write c' = [Ret 4] \<and> buffer_out (http c') = ''rest''"
proof -
  let ?c = "(demo_connection [] [Ret 4])\<lparr>
         http := (new_http_data 0 4 7)\<lparr>buffer_out := ''rest'', keep_alive := True\<rparr>,
         chan := set_revents EPOLLOUT (bind_handlers (new_channel_fd 0 7))\<rparr>"
  let ?d = "?c\<lparr>chan := set_events 0 (chan ?c)\<rparr>"
  note slot_defs = bind_handlers_def set_revents_def set_write_handler_def set_connect_handler_def
    set_read_handler_def new_channel_fd_def
  obtain c1 where c1: "handle_connect demo_os ?d = Some (Inr c1)" "http c1 = http ?d"
      "slots (chan c1) = slots (chan ?d)" "holder (chan c1) = None"
    using demo_handle_connect [of ?d] by (auto simp: new_http_data_def slot_defs)
  obtain c2 where c2: "handle_connect demo_os c1 = Some (Inr c2)"
    using demo_handle_connect [of c1] c1(2,4) by (auto simp: new_http_data_def)
  have "connect_handler (chan c1) = Some Http_Handle_Connect"
    using c1(3) by (simp add: slots_def slot_defs)
  then have run: "http_handle_events demo_os ?c = Some (Inr c2)"
    using c1(1) c2
    by (simp add: http_handle_events_def handle_events_def channel_handle_write_def
        channel_handle_connect_def [abs_def] set_events_def slot_defs Let_def)
  have "sent c2 = sent ?c \<and> to_write c2 = to_write ?c \<and> buffer_out (http c2) = buffer_out (http ?c)"
    by (rule write_event_sends_nothing [OF _ _ _ run, where ch = "new_channel_fd 0 7"])
      (simp_all add: slot_defs slots_def)
  then have "sent c2 = [] \<and> to_write c2 = [Ret 4] \<and> buffer_out (http c2) = ''rest''" by simp
  with run show ?thesis by blast
qed

end
