(* ===== verification/Http_Invariants.thy ===== *)
theory Http_Invariants
  imports Http_Lifecycle
begin

text \<open>
  What every call of a connection's handlers keeps: the phases of a request advance in their
  order, and at most one timer of the loop owns the connection.
\<close>

section \<open>What the parsers and the answers leave alone\<close>

definition kept :: "http_data \<Rightarrow> http_data \<Rightarrow> bool" where
  "kept h h' =
     (is_error h' = is_error h \<and> connection_state h' = connection_state h
      \<and> process_state h' = process_state h \<and> timer h' = timer h)"

lemma kept_trans: "kept a b \<Longrightarrow> kept b c \<Longrightarrow> kept a c"
  by (simp add: kept_def)

lemma parse_version_kept: "parse_version l c h = Inr (st, h') \<Longrightarrow> kept h h'"
  by (auto simp: parse_version_def kept_def Let_def bind_result_Inr split: if_splits)

lemma parse_path_kept: "parse_path l c h = Inr (st, h') \<Longrightarrow> kept h h'"
  by (auto simp: parse_path_def Let_def bind_result_Inr split: if_splits dest!: parse_version_kept)
    (simp_all add: kept_def)

lemma parse_method_kept: "parse_method l h = Inr (st, h') \<Longrightarrow> kept h h'"
  by (auto simp: parse_method_def Let_def split: if_splits dest!: parse_path_kept) (simp_all add: kept_def)

lemma parse_URI_kept: "parse_URI h = Inr (st, h') \<Longrightarrow> kept h h'"
  by (auto simp: parse_URI_def Let_def bind_result_Inr split: if_splits dest!: parse_method_kept)
    (simp_all add: kept_def)

lemma parse_Headers_kept: "parse_Headers h = Inr (st, h') \<Longrightarrow> kept h h'"
  by (auto simp: parse_Headers_def Let_def bind_result_Inr kept_def split: scan_result.splits if_splits)

definition same_place :: "connection \<Rightarrow> connection \<Rightarrow> bool" where
  "same_place c c' =
     (poller c' = poller c \<and> self c' = self c \<and> chan c' = chan c \<and> timer (http c') = timer (http c))"

lemma same_place_refl [simp]: "same_place c c"
  by (simp add: same_place_def)

lemma same_place_trans: "same_place a b \<Longrightarrow> same_place b c \<Longrightarrow> same_place a c"
  by (simp add: same_place_def)

lemma send_c_str_http: "send_c_str s c = Some (Inr c') \<Longrightarrow> http c' = http c \<and> same_place c c'"
  by (auto simp: send_c_str_def bind_outcome_Some_Inr same_place_def split: if_splits)

lemma handle_error_http:
  assumes "handle_error code msg c = Some (Inr c')"
  shows "http c' = http c \<and> same_place c c'"
proof -
  obtain d where "send_c_str (error_header code msg) c = Some (Inr d)" "send_c_str (error_body code msg) d = Some (Inr c')"
    using assms by (auto simp: handle_error_def bind_outcome_Some_Inr)
  then show ?thesis using send_c_str_http same_place_trans by metis
qed

lemma bad_request_error:
  assumes "bad_request msg c = Some (Inr (go, c'))"
  shows "\<not> go \<and> is_error (http c') \<and> same_place c c'"
  using assms handle_error_http
  by (fastforce simp: bad_request_def bind_outcome_Some_Inr same_place_def)

section \<open>Phases\<close>

text \<open>
  A stage that neither fails nor breaks hands on a later phase; one that breaks without an error
  stays in a phase that waits for input.
\<close>

definition waits_from :: "ProcessState \<Rightarrow> connection \<Rightarrow> bool" where
  "waits_from p c = (p \<le> process_state (http c) \<and> process_state (http c) \<le> STATE_RECV_BODY)"

lemmas phase_simps = less_eq_ProcessState_def less_ProcessState_def

lemma stage_receive_phase:
  assumes "stage_receive c = Some (Inr (go, c'))"
  shows "same_place c c' \<and> (\<not> is_error (http c') \<longrightarrow> \<not> is_error (http c)
     \<and> process_state (http c') = process_state (http c) \<and> connection_state (http c') = connection_state (http c)
     \<and> (go \<or> connection_state (http c) = H_DISCONNECTED))"
  using assms bad_request_error
  by (fastforce simp: stage_receive_def Let_def same_place_def split: option.splits if_splits)

lemma stage_uri_phase:
  assumes "stage_uri c = Some (Inr (go, c'))"
  shows "same_place c c' \<and> (\<not> is_error (http c') \<longrightarrow> connection_state (http c') = connection_state (http c)
     \<and> (if go then process_state (http c') =
           (if process_state (http c) = STATE_PARSE_URI then STATE_PARSE_HEADERS else process_state (http c))
        else process_state (http c) = STATE_PARSE_URI \<and> process_state (http c') = STATE_PARSE_URI))"
proof (cases "process_state (http c) = STATE_PARSE_URI")
  case True
  then obtain st h where p: "parse_URI (http c) = Inr (st, h)"
    using assms by (auto simp: stage_uri_def split: sum.splits)
  from parse_URI_kept [OF p] show ?thesis
    using assms p True
    by (cases st) (auto simp: stage_uri_def kept_def same_place_def phase_simps dest!: bad_request_error)
next
  case False
  then show ?thesis using assms by (simp add: stage_uri_def)
qed

lemma stage_headers_phase:
  assumes "stage_headers c = Some (Inr (go, c'))"
  shows "same_place c c' \<and> (\<not> is_error (http c') \<longrightarrow> connection_state (http c') = connection_state (http c)
     \<and> (if go then process_state (http c') \<in>
           (if process_state (http c) = STATE_PARSE_HEADERS then {STATE_RECV_BODY, STATE_ANALYSIS}
            else {process_state (http c)})
        else process_state (http c) = STATE_PARSE_HEADERS \<and> process_state (http c') = STATE_PARSE_HEADERS))"
proof (cases "process_state (http c) = STATE_PARSE_HEADERS")
  case True
  then obtain st h where p: "parse_Headers (http c) = Inr (st, h)"
    using assms by (auto simp: stage_headers_def split: sum.splits)
  from parse_Headers_kept [OF p] show ?thesis
    using assms p True
    by (cases st) (auto simp: stage_headers_def kept_def same_place_def phase_simps split: if_splits
        dest!: bad_request_error)
next
  case False
  then show ?thesis using assms by (simp add: stage_headers_def)
qed

lemma stage_body_phase:
  assumes "stage_body c = Some (Inr (go, c'))"
  shows "same_place c c' \<and> (\<not> is_error (http c') \<longrightarrow> connection_state (http c') = connection_state (http c)
     \<and> (if go then process_state (http c') = (if process_state (http c) = STATE_RECV_BODY then STATE_ANALYSIS
                                              else process_state (http c))
        else process_state (http c) = STATE_RECV_BODY \<and> process_state (http c') = STATE_RECV_BODY))"
  using assms
  by (auto simp: stage_body_def same_place_def bind_outcome_Some_Inr split: option.splits if_splits
      dest!: bad_request_error)

definition steady :: "connection \<Rightarrow> connection \<Rightarrow> bool" where
  "steady c c' =
     (same_place c c' \<and> is_error (http c') = is_error (http c)
      \<and> connection_state (http c') = connection_state (http c))"

lemma not_found_steady: "not_found d = Some (Inr (flag, c')) \<Longrightarrow> steady d c'"
  using handle_error_http by (fastforce simp: not_found_def bind_outcome_Some_Inr steady_def)

lemma steady_with_http [simp]:
  "steady (with_http (\<lambda>h. h\<lparr>buffer_out := f h\<rparr>) c) c' = steady c c'"
  "steady (with_http (\<lambda>h. h\<lparr>keep_alive := b\<rparr>) c) c' = steady c c'"
  by (simp_all add: steady_def same_place_def)

lemma steady_refl [simp]: "steady c c"
  by (simp add: steady_def)

lemma steady_output [simp]: "steady c (with_http (\<lambda>h. h\<lparr>buffer_out := f h\<rparr>) c') = steady c c'"
  by (simp add: steady_def same_place_def)

lemma analyze_file_steady:
  assumes "analyze_file os header file_type c = Some (Inr (flag, c'))"
  shows "steady c c'"
proof -
  have "steady c c'" if "not_found (with_http (\<lambda>h. h\<lparr>buffer_out := []\<rparr>) c) = Some (Inr (flag, c'))"
    using not_found_steady [OF that] by simp
  then show ?thesis
    using assms not_found_steady [of c]
    by (auto simp: analyze_file_def Let_def split: if_splits option.splits)
qed

lemma analyze_request_steady:
  assumes "analyze_request os c = Some (Inr (flag, c'))"
  shows "steady c c'"
proof -
  obtain keep header where k: "ok_header_text (http c) = (keep, header)" by fastforce
  define d where "d = (if keep then with_http (\<lambda>h. h\<lparr>keep_alive := True\<rparr>) c else c)"
  have st: "steady d e = steady c e" for e by (simp add: d_def)
  show ?thesis
  proof (cases "http_method (http c) = METHOD_POST")
    case True
    then show ?thesis using assms by (simp add: analyze_request_def)
  next
    case False
    then have "analyze_request os c = bind_outcome (Some (file_type_of (file_name (http d)))) (\<lambda>file_type.
        if file_name (http d) = ''hello''
        then Some (Inr (ANALYSIS_SUCCESS, with_http (\<lambda>h. h\<lparr>buffer_out := hello_answer\<rparr>) d))
        else if file_name (http d) = ''favicon.ico''
        then Some (Inr (ANALYSIS_SUCCESS,
               with_http (\<lambda>h. h\<lparr>buffer_out := buffer_out h @ favicon_header header @ favicon\<rparr>) d))
        else analyze_file os header file_type d)"
      by (cases "http_method (http c)")
        (simp_all only: analyze_request_def k d_def Let_def prod.case HttpMethod.distinct if_False if_True simp_thms)
    note eq = this
    have "steady d c'"
      using assms [unfolded eq] analyze_file_steady [of os header _ d flag c']
      by (auto simp: bind_outcome_Some_Inr split: if_splits)
    then show ?thesis by (simp add: st)
  qed
qed

lemma stage_analysis_phase:
  assumes "stage_analysis os c = Some (Inr c')"
  shows "same_place c c' \<and> (\<not> is_error (http c') \<longrightarrow> connection_state (http c') = connection_state (http c)
     \<and> process_state (http c') = (if process_state (http c) = STATE_ANALYSIS then STATE_FINISH else process_state (http c)))"
proof (cases "process_state (http c) = STATE_ANALYSIS")
  case True
  then obtain flag d where d: "analyze_request os c = Some (Inr (flag, d))"
      "c' = (if flag = ANALYSIS_SUCCESS then with_http (\<lambda>h. h\<lparr>process_state := STATE_FINISH\<rparr>) d
             else with_http (\<lambda>h. h\<lparr>is_error := True\<rparr>) d)"
    using assms by (auto simp: stage_analysis_def bind_outcome_Some_Inr split: if_splits)
  from analyze_request_steady [OF d(1)] show ?thesis
    using True d(2) by (auto simp: steady_def same_place_def)
qed (use assms in \<open>simp add: stage_analysis_def\<close>)

lemma and_then_Some_Inr:
  "and_then r f = Some (Inr (go, c')) \<longleftrightarrow>
     (\<exists>c. r = Some (Inr (True, c)) \<and> f c = Some (Inr (go, c'))) \<or> (r = Some (Inr (False, c')) \<and> \<not> go)"
  by (auto simp: and_then_def bind_outcome_Some_Inr split: if_splits)

section \<open>The read handler\<close>

text \<open>From the state \<open>a\<close> the stages so far have come to \<open>b\<close>.\<close>

definition phase_rel :: "ProcessState set \<Rightarrow> connection \<Rightarrow> bool \<Rightarrow> connection \<Rightarrow> bool" where
  "phase_rel past a go b =
     (same_place a b \<and> (\<not> is_error (http b) \<and> connection_state (http a) = H_CONNECTED
        \<and> process_state (http a) \<le> STATE_RECV_BODY \<longrightarrow>
        connection_state (http b) = H_CONNECTED
        \<and> (if go then process_state (http b) \<notin> past \<and> process_state (http b) \<le> STATE_ANALYSIS
                \<and> process_state (http a) \<le> process_state (http b)
           else waits_from (process_state (http a)) b)))"

lemma phase_rel_stop: "phase_rel past a False b \<Longrightarrow> phase_rel past' a False b"
  by (simp add: phase_rel_def)

lemma stage_uri_error:
  assumes "stage_uri c = Some (Inr (go, c'))" and "is_error (http c)"
  shows "is_error (http c')"
proof (cases "process_state (http c) = STATE_PARSE_URI")
  case True
  then obtain st h where p: "parse_URI (http c) = Inr (st, h)"
    using assms by (auto simp: stage_uri_def split: sum.splits)
  from parse_URI_kept [OF p] show ?thesis
    using assms p True
    by (cases st) (auto simp: stage_uri_def kept_def dest: bad_request_error)
qed (use assms in \<open>simp add: stage_uri_def\<close>)

lemma stage_headers_error:
  assumes "stage_headers c = Some (Inr (go, c'))" and "is_error (http c)"
  shows "is_error (http c')"
proof (cases "process_state (http c) = STATE_PARSE_HEADERS")
  case True
  then obtain st h where p: "parse_Headers (http c) = Inr (st, h)"
    using assms by (auto simp: stage_headers_def split: sum.splits)
  from parse_Headers_kept [OF p] show ?thesis
    using assms p True
    by (cases st) (auto simp: stage_headers_def kept_def dest: bad_request_error)
qed (use assms in \<open>simp add: stage_headers_def\<close>)

lemma stage_body_error:
  "stage_body c = Some (Inr (go, c')) \<Longrightarrow> is_error (http c) \<Longrightarrow> is_error (http c')"
  by (auto simp: stage_body_def bind_outcome_Some_Inr split: if_splits option.splits dest: bad_request_error)

lemma phase_receive: "stage_receive a = Some (Inr (go, b)) \<Longrightarrow> phase_rel {} a go b"
  using stage_receive_phase [of a go b]
  by (auto simp: phase_rel_def waits_from_def phase_simps split: if_splits)

lemma phase_stage:
  assumes "phase_rel past a True b" and "same_place b c"
    and "is_error (http b) \<Longrightarrow> is_error (http c)"
    and "\<not> is_error (http c) \<Longrightarrow> process_state (http b) \<le> STATE_ANALYSIS \<Longrightarrow> process_state (http b) \<notin> past \<Longrightarrow>
      connection_state (http c) = connection_state (http b) \<and> process_state (http b) \<le> process_state (http c)
      \<and> (if go then process_state (http c) \<notin> past' \<and> process_state (http c) \<le> STATE_ANALYSIS
         else process_state (http c) \<le> STATE_RECV_BODY)"
  shows "phase_rel past' a go c"
proof -
  have "same_place a c" using assms(1,2) same_place_trans by (auto simp: phase_rel_def)
  moreover have "process_state (http a) \<le> process_state (http c)"
    if "process_state (http a) \<le> process_state (http b)" "process_state (http b) \<le> process_state (http c)"
    using that by (rule order_trans)
  ultimately show ?thesis using assms(1,3,4) by (auto simp: phase_rel_def waits_from_def)
qed

lemma phase_uri:
  assumes "phase_rel {} a True b" and "stage_uri b = Some (Inr (go, c))"
  shows "phase_rel {STATE_PARSE_URI} a go c"
  using stage_uri_phase [OF assms(2)]
  by (intro phase_stage [OF assms(1)] stage_uri_error [OF assms(2)])
    (auto simp: phase_simps split: if_splits)

lemma phase_headers:
  assumes "phase_rel {STATE_PARSE_URI} a True b" and "stage_headers b = Some (Inr (go, c))"
  shows "phase_rel {STATE_PARSE_URI, STATE_PARSE_HEADERS} a go c"
  using stage_headers_phase [OF assms(2)]
  by (intro phase_stage [OF assms(1)] stage_headers_error [OF assms(2)])
    (auto simp: phase_simps split: if_splits)

lemma phase_body:
  assumes "phase_rel {STATE_PARSE_URI, STATE_PARSE_HEADERS} a True b" and "stage_body b = Some (Inr (go, c))"
  shows "phase_rel {STATE_PARSE_URI, STATE_PARSE_HEADERS, STATE_RECV_BODY} a go c"
  using stage_body_phase [OF assms(2)]
  by (intro phase_stage [OF assms(1)] stage_body_error [OF assms(2)])
    (auto simp: phase_simps split: if_splits)

lemma phase_stages:
  assumes "and_then (and_then (and_then (stage_receive a) stage_uri) stage_headers) stage_body = Some (Inr (go, d))"
  shows "phase_rel {STATE_PARSE_URI, STATE_PARSE_HEADERS, STATE_RECV_BODY} a go d"
proof -
  have 1: "phase_rel {STATE_PARSE_URI} a g b"
    if "and_then (stage_receive a) stage_uri = Some (Inr (g, b))" for g b
    using that phase_receive phase_uri phase_rel_stop by (fastforce simp: and_then_Some_Inr)
  have 2: "phase_rel {STATE_PARSE_URI, STATE_PARSE_HEADERS} a g b"
    if "and_then (and_then (stage_receive a) stage_uri) stage_headers = Some (Inr (g, b))" for g b
    using that 1 phase_headers phase_rel_stop unfolding and_then_Some_Inr [of "and_then _ _"] by metis
  show ?thesis
    using assms 2 phase_body phase_rel_stop unfolding and_then_Some_Inr [of "and_then (and_then _ _) _"] by metis
qed

lemma stage_analysis_error:
  "stage_analysis os c = Some (Inr c') \<Longrightarrow> is_error (http c) \<Longrightarrow> is_error (http c')"
  by (auto simp: stage_analysis_def bind_outcome_Some_Inr steady_def split: if_splits dest: analyze_request_steady)

lemma handle_read_body_phase:
  assumes "handle_read_body os a = Some (Inr c')"
  shows "same_place a c' \<and> (\<not> is_error (http c') \<and> connection_state (http a) = H_CONNECTED
     \<and> process_state (http a) \<le> STATE_RECV_BODY \<longrightarrow>
       connection_state (http c') = H_CONNECTED
       \<and> (process_state (http c') = STATE_FINISH \<or> waits_from (process_state (http a)) c'))"
proof -
  obtain go d where stages: "and_then (and_then (and_then (stage_receive a) stage_uri) stage_headers) stage_body
      = Some (Inr (go, d))" "if go then stage_analysis os d = Some (Inr c') else c' = d"
    using assms by (auto simp: handle_read_body_def bind_outcome_Some_Inr split: if_splits)
  note rel = phase_stages [OF stages(1)]
  show ?thesis
  proof (cases go)
    case False
    then show ?thesis using rel stages(2) by (simp add: phase_rel_def)
  next
    case True
    then have an: "stage_analysis os d = Some (Inr c')" using stages(2) by simp
    have "process_state (http d) = STATE_ANALYSIS"
      if "process_state (http d) \<notin> {STATE_PARSE_URI, STATE_PARSE_HEADERS, STATE_RECV_BODY}"
        "process_state (http d) \<le> STATE_ANALYSIS"
      using that by (cases "process_state (http d)") (auto simp: phase_simps)
    then show ?thesis
      using rel True stage_analysis_phase [OF an] stage_analysis_error [OF an] same_place_trans
      by (auto simp: phase_rel_def)
  qed
qed

lemma handle_write_place:
  assumes "handle_write c = Some (Inr c')"
  shows "poller c' = poller c \<and> self c' = self c \<and> holder (chan c') = holder (chan c)
    \<and> timer (http c') = timer (http c) \<and> process_state (http c') = process_state (http c)
    \<and> connection_state (http c') = connection_state (http c)
    \<and> (is_error (http c) \<longrightarrow> is_error (http c'))"
  using assms by (auto simp: handle_write_def Let_def split: if_splits option.splits sum.splits)

text \<open>The state between the body of the read handler and its end.\<close>

lemma handle_read_split:
  assumes "handle_read os c = Some (Inr c')"
  obtains b w where "handle_read_body os c = Some (Inr b)"
    and "w = b \<or> handle_write b = Some (Inr w)"
    and "c' = (if \<not> is_error (http w) \<and> process_state (http w) = STATE_FINISH then reset w
               else if \<not> is_error (http w) \<and> connection_state (http w) \<noteq> H_DISCONNECTED
               then with_events (ch_events (chan w) OR EPOLLIN) w else w)"
proof -
  obtain b w where b: "handle_read_body os c = Some (Inr b)"
      and w: "(if \<not> is_error (http b) \<and> buffer_out (http b) \<noteq> [] then handle_write b else Some (Inr b)) = Some (Inr w)"
      and e: "(if \<not> is_error (http w) \<and> process_state (http w) = STATE_FINISH then Some (Inr (reset w))
         else if \<not> is_error (http w) \<and> connection_state (http w) \<noteq> H_DISCONNECTED
         then Some (Inr (with_events (ch_events (chan w) OR EPOLLIN) w)) else Some (Inr w)) = (Some (Inr c') :: connection outcome)"
    using assms unfolding handle_read_eq bind_outcome_Some_Inr by blast
  from w have "w = b \<or> handle_write b = Some (Inr w)" by (simp split: if_splits)
  moreover from e have "c' = (if \<not> is_error (http w) \<and> process_state (http w) = STATE_FINISH then reset w
               else if \<not> is_error (http w) \<and> connection_state (http w) \<noteq> H_DISCONNECTED
               then with_events (ch_events (chan w) OR EPOLLIN) w else w)" by (auto split: if_splits)
  ultimately show ?thesis using that b by blast
qed

text \<open>
  C21. The phases of a request advance in their order and stop where input is awaited: after a
  call of \<open>handle_read\<close> on a connected object that ends without an error the connection either waits in the same or a
  later phase, up to \<open>STATE_RECV_BODY\<close>, with \<open>EPOLLIN\<close> requested, or the request is finished and
  everything of it is cleared. What a finished request asked for is forgotten with it: keep-alive
  is off and input that followed in the same read is gone.
\<close>

theorem handle_read_phases:
  assumes "handle_read os c = Some (Inr c')" and "\<not> is_error (http c')"
    and "connection_state (http c) = H_CONNECTED" and "process_state (http c) \<le> STATE_RECV_BODY"
  shows "(waits_from (process_state (http c)) c' \<and> ch_events (chan c') AND EPOLLIN \<noteq> 0)
    \<or> (process_state (http c') = STATE_PARSE_URI \<and> parse_state (http c') = H_START
       \<and> buffer_in (http c') = [] \<and> headers (http c') = Map.empty \<and> \<not> keep_alive (http c'))"
proof -
  obtain b w where b: "handle_read_body os c = Some (Inr b)" and w: "w = b \<or> handle_write b = Some (Inr w)"
      and c': "c' = (if \<not> is_error (http w) \<and> process_state (http w) = STATE_FINISH then reset w
               else if \<not> is_error (http w) \<and> connection_state (http w) \<noteq> H_DISCONNECTED
               then with_events (ch_events (chan w) OR EPOLLIN) w else w)"
    using handle_read_split [OF assms(1)] by metis
  have err: "\<not> is_error (http w)" using assms(2) c' by (simp split: if_splits)
  then have phase: "process_state (http w) = STATE_FINISH \<or> waits_from (process_state (http c)) w"
      and conn: "connection_state (http w) = H_CONNECTED"
    using handle_read_body_phase [OF b] handle_write_place [of b w] w assms(3,4)
    by (auto simp: waits_from_def)
  show ?thesis
  proof (cases "process_state (http w) = STATE_FINISH")
    case True
    then show ?thesis using c' err by simp
  next
    case False
    then show ?thesis using c' err conn phase by (simp add: waits_from_def word_ao_absorbs)
  qed
qed

lemma parse_Headers_nothing:
  "buffer_in h = [] \<Longrightarrow> parse_state h = H_START \<Longrightarrow> parse_Headers h = Inr (PARSE_HEADER_AGAIN, h)"
  by (simp add: parse_Headers_def header_loop_end header_scan_start_def int_to_size_def substr_def Let_def)

theorem handle_read_phases_witness:
  "\<exists>c'. handle_read demo_os (demo_connection ''GET '' [] \<lparr>to_read := [Err EAGAIN],
       http := (new_http_data 0 4 7)\<lparr>process_state := STATE_PARSE_HEADERS\<rparr>\<rparr>) = Some (Inr c')
     \<and> waits_from STATE_PARSE_HEADERS c'"
proof -
  let ?c = "demo_connection ''GET '' [] \<lparr>to_read := [Err EAGAIN],
       http := (new_http_data 0 4 7)\<lparr>process_state := STATE_PARSE_HEADERS\<rparr>\<rparr>"
  obtain c' where run: "handle_read demo_os ?c = Some (Inr c')" and st: "\<not> is_error (http c')"
      "process_state (http c') = STATE_PARSE_HEADERS"
    by (simp add: handle_read_eq handle_read_body_def stage_receive_def stage_uri_def stage_headers_def
        parse_Headers_nothing new_http_data_def to_int32_def Let_def)
  show ?thesis
    using handle_read_phases [OF run st(1)] run st(2) by (auto simp: new_http_data_def phase_simps)
qed

section \<open>Timers\<close>

definition conn_inv :: "connection \<Rightarrow> bool" where
  "conn_inv c = (tq_ok (ep_timers (poller c)) \<and> single_timer c \<and> holder (chan c) = Some (self c))"

inductive conn_step :: "connection \<Rightarrow> connection \<Rightarrow> bool" where
  conn_callback: "http_callback os cb c = Some (Inr c') \<Longrightarrow> conn_step c c'"
| conn_events: "conn_step c (c\<lparr>chan := set_events 0 (set_revents ev (chan c))\<rparr>)"
| conn_input: "conn_step c (c\<lparr>to_read := es, to_write := ws\<rparr>)"

lemma seperate_timer_inv [inv_intros]: "conn_inv c \<Longrightarrow> conn_inv (seperate_timer c)"
proof -
  assume inv: "conn_inv c"
  have "tq_ok (tq\<lparr>timers := (timers tq)(t := clear_request (timers tq t))\<rparr>)" if "tq_ok tq" for tq t
    using that pq_ordered_cong [of "timer_pqueue tq" "timer_key (timers tq)"
        "timer_key ((timers tq)(t := clear_request (timers tq t)))"]
    by (auto simp: tq_ok_def timer_key_def get_expired_time_def clear_request_def set_deleted_def)
  then show ?thesis
    using inv seperate_timer_single
    by (auto simp: conn_inv_def seperate_timer_def Let_def split: option.splits)
qed

lemma conn_inv_same_place:
  "same_place c c' \<Longrightarrow> conn_inv c' = conn_inv c"
  by (simp add: same_place_def conn_inv_def single_timer_def)

lemma conn_inv_cong:
  "poller c' = poller c \<Longrightarrow> self c' = self c \<Longrightarrow> holder (chan c') = holder (chan c) \<Longrightarrow>
   timer (http c') = timer (http c) \<Longrightarrow> conn_inv c' = conn_inv c"
  by (simp add: conn_inv_def single_timer_def)

lemma conn_inv_with [simp]:
  "conn_inv (with_events ev c) = conn_inv c" "conn_inv (shutdown_channel c) = conn_inv c"
  by (simp_all add: conn_inv_def)

lemma reset_inv [inv_intros]:
  assumes "conn_inv c"
  shows "conn_inv (reset c)"
  unfolding reset_def
  by (rule seperate_timer_inv) (use assms in \<open>simp add: conn_inv_def single_timer_def\<close>)

lemma handle_write_inv [inv_intros]: "handle_write c = Some (Inr c') \<Longrightarrow> conn_inv c \<Longrightarrow> conn_inv c'"
  using handle_write_place [of c c'] conn_inv_cong [of c' c] by simp

lemma handle_read_inv [inv_intros]:
  assumes "handle_read os c = Some (Inr c')" and "conn_inv c"
  shows "conn_inv c'"
proof -
  obtain b w where b: "handle_read_body os c = Some (Inr b)" and w: "w = b \<or> handle_write b = Some (Inr w)"
      and c': "c' = (if \<not> is_error (http w) \<and> process_state (http w) = STATE_FINISH then reset w
               else if \<not> is_error (http w) \<and> connection_state (http w) \<noteq> H_DISCONNECTED
               then with_events (ch_events (chan w) OR EPOLLIN) w else w)"
    using handle_read_split [OF assms(1)] by metis
  have "conn_inv b" using handle_read_body_phase [OF b] conn_inv_same_place assms(2) by blast
  then have "conn_inv w" using w handle_write_inv by blast
  then show ?thesis using c' reset_inv by simp
qed

lemma handle_close_inv [inv_intros]:
  assumes "handle_close os c = Some (Inr c')" and "conn_inv c"
  shows "conn_inv c'"
  using assms
  by (auto simp: handle_close_def remove_from_poller_def delete_fd_in_epoll_def epoll_ctl_def bind_result_Inr
      conn_inv_def single_timer_def Let_def split: if_splits)

text \<open>A new timer is linked; the others must not own the object, which \<open>seperate_timer\<close> sees to.\<close>

definition disowned :: "connection \<Rightarrow> bool" where
  "disowned c =
     (\<forall>t \<in> set (timer_pqueue (ep_timers (poller c))).
        http_data_ptr (timers (ep_timers (poller c)) t) \<noteq> Some (self c))"

lemma modify_timers:
  assumes "modify_fd_in_epoll ctl alive now ch timeout ep = Inr (link, ch', ep')"
  shows "holder ch' = holder ch
    \<and> (if timeout > 0 then (link, ep_timers ep') = (case epoll_add_timer alive now ch timeout ep of (l, e) \<Rightarrow> (l, ep_timers e))
       else link = None \<and> ep_timers ep' = ep_timers ep)"
  using assms
  by (auto simp: modify_fd_in_epoll_def equal_and_update_last_events_def epoll_ctl_def Let_def
      split: if_splits prod.splits)

lemma update_poller_inv [inv_intros]:
  assumes "update_poller os timeout c = Some (Inr c')" and "conn_inv c" and "disowned c"
  shows "conn_inv c'"
proof -
  obtain link ch ep where m: "modify_fd_in_epoll (os_ctl os) (\<lambda>h. True) (os_now os) (chan c) timeout (poller c)
      = Inr (link, ch, ep)" and c': "c' = after_ctl (link, ch, ep) c"
    using assms(1) by (auto simp: update_poller_def bind_result_Inr)
  note mt = modify_timers [OF m]
  show ?thesis
  proof (cases "timeout > 0")
    case False
    then show ?thesis using assms(2) mt c' by (simp add: conn_inv_def single_timer_def after_ctl_def)
  next
    case True
    obtain t tq where add: "add_timer (os_now os) (self c) timeout (ep_timers (poller c)) = (t, tq)" by fastforce
    have l: "link = Some (self c, t)" "ep_timers ep = tq"
      using True mt add assms(2) by (auto simp: epoll_add_timer_def get_holder_def conn_inv_def)
    from add_timer_ok [OF _ add] assms(2)
    have ok: "tq_ok tq" "mset (timer_pqueue tq) = add_mset t (mset (timer_pqueue (ep_timers (poller c))))"
      "\<forall>u \<in> set (timer_pqueue (ep_timers (poller c))). timers tq u = timers (ep_timers (poller c)) u"
      by (auto simp: conn_inv_def)
    from ok(2) have "set (timer_pqueue tq) = insert t (set (timer_pqueue (ep_timers (poller c))))"
      by (metis set_mset_add_mset_insert set_mset_mset)
    then show ?thesis
      using ok l mt c' assms(2,3)
      by (auto simp: conn_inv_def single_timer_def disowned_def after_ctl_def link_timer_def)
  qed
qed

lemma disowned_simps [simp]:
  "disowned (with_events ev c) = disowned c" "disowned (shutdown_channel c) = disowned c"
  by (simp_all add: disowned_def)

lemma seperate_timer_disowned: "conn_inv c \<Longrightarrow> disowned (seperate_timer c)"
  using seperate_timer_disowns by (auto simp: disowned_def conn_inv_def)

lemma handle_close_disowned:
  "handle_close os c = Some (Inr c') \<Longrightarrow> disowned c \<Longrightarrow> disowned c'"
  by (auto simp: handle_close_def remove_from_poller_def delete_fd_in_epoll_def epoll_ctl_def bind_result_Inr
      disowned_def Let_def split: if_splits)

lemma handle_connect_inv [inv_intros]:
  assumes "handle_connect os c = Some (Inr c')" and "conn_inv c"
  shows "conn_inv c'"
proof -
  have closed: "conn_inv c'" if "handle_close os (shutdown_channel (seperate_timer c)) = Some (Inr d)"
    "update_poller os t (with_events ev d) = Some (Inr c')" for d t ev
    using handle_close_inv [OF that(1)] handle_close_disowned [OF that(1)] update_poller_inv [OF that(2)]
      seperate_timer_inv [OF assms(2)] seperate_timer_disowned [OF assms(2)] by simp
  show ?thesis
    using assms(1) seperate_timer_inv [OF assms(2)] seperate_timer_disowned [OF assms(2)]
    by (auto simp: handle_connect_def Let_def bind_outcome_Some_Inr split: if_splits
        dest: handle_close_inv update_poller_inv intro: closed)
qed

lemma conn_step_inv: "conn_step c c' \<Longrightarrow> conn_inv c \<Longrightarrow> conn_inv c'"
proof (induction rule: conn_step.induct)
  case (conn_callback os cb c c')
  then show ?case by (cases cb) (auto intro: inv_intros)
qed (simp_all add: conn_inv_def single_timer_def set_events_def set_revents_def)

definition fresh_connection :: "connection \<Rightarrow> bool" where
  "fresh_connection c =
     (tq_ok (ep_timers (poller c)) \<and> disowned c \<and> holder (chan c) = Some (self c))"

interpretation conn_sys: invariant_system fresh_connection conn_step conn_inv
proof unfold_locales
  show "conn_inv c" if "fresh_connection c" for c
    using that by (simp add: fresh_connection_def disowned_def conn_inv_def single_timer_def)
  show "conn_inv c'" if "conn_inv c" "conn_step c c'" for c c'
    using that conn_step_inv by blast
qed

text \<open>
  C17. However events and input arrive, at most one timer in the loop's queue owns the connection,
  and it is the one the connection is linked to: the handlers release the previous timer before
  they set the next one.
\<close>

theorem one_timer_owns:
  assumes "fresh_connection c" and "run conn_step c c'"
    and "t \<in> set (timer_pqueue (ep_timers (poller c')))"
    and "http_data_ptr (timers (ep_timers (poller c')) t) = Some (self c')"
  shows "timer (http c') = Some t"
  using conn_sys.reach_inv [OF assms(1,2)] assms(3,4) by (simp add: conn_inv_def single_timer_def)

theorem one_timer_owns_witness:
  "\<exists>c'. handle_connect demo_os (with_events EPOLLIN (demo_connection [] [])) = Some (Inr c')
     \<and> timer_pqueue (ep_timers (poller c')) = [0] \<and> timer (http c') = Some 0"
proof -
  let ?d = "with_events EPOLLIN (demo_connection [] [])"
  have fresh: "fresh_connection ?d"
    by (simp add: fresh_connection_def disowned_def demo_connection_def with_events_def set_events_def
        bind_handlers_def set_write_handler_def set_connect_handler_def set_read_handler_def set_holder_def
        new_channel_fd_def new_epoll_def tq_ok_def pq_ordered_def)
  obtain c' where run: "handle_connect demo_os ?d = Some (Inr c')"
    and q: "timer_pqueue (ep_timers (poller c')) = [0]" "self c' = 3"
      "http_data_ptr (timers (ep_timers (poller c')) 0) = Some 3"
    by (simp add: handle_connect_def seperate_timer_def timer_locked_def demo_connection_def new_http_data_def
        with_events_def set_events_def bind_handlers_def set_write_handler_def set_connect_handler_def
        set_read_handler_def set_holder_def new_channel_fd_def update_poller_def modify_fd_in_epoll_def
        epoll_add_timer_def get_holder_def add_timer_def new_timer_def new_epoll_def pq_push_def
        DEFAULT_EXPIRED_TIME_def equal_and_update_last_events_def epoll_ctl_def after_ctl_def demo_os_def
        with_http_def Let_def)
  have "http_callback demo_os Http_Handle_Connect ?d = Some (Inr c')" using run by simp
  then have "run conn_step ?d c'" by (intro run_single conn_callback)
  from one_timer_owns [OF fresh this] q run show ?thesis by auto
qed

end
