(* ===== verification/Thread_Pool.thy ===== *)
theory Thread_Pool
  imports Prelude
begin

text \<open>
  \<open>ThreadPool.cpp\<close> and \<open>ThreadPool.h\<close>: a ring buffer of tasks behind one mutex and one condition
  variable. The operations are functions on the pool's static members; the system calls they make
  succeed or fail by their arguments. \<open>Thread_Pool_Run\<close> runs them concurrently. The counters of the
  class are of type \<open>int\<close>; in a pool that \<open>thread_pool_create\<close> has made they stay between 0 and
  65536, so natural numbers hold them.
\<close>

section \<open>State\<close>

definition MAX_THREADS :: int where "MAX_THREADS = 1024"

definition MAX_QUEUE :: int where "MAX_QUEUE = 65535"

fun THREAD_STATE :: "string \<Rightarrow> int" where
  "THREAD_STATE name =
     (if name = ''THREADPOOL_INVALID'' then - 1
      else if name = ''THREADPOOL_LOCK_FAILURE'' then - 2
      else if name = ''THREADPOOL_QUEUE_FULL'' then - 3
      else if name = ''THREADPOOL_SHUTDOWN'' then - 4
      else if name = ''THREADPOOL_THREAD_FAILURE'' then - 5
      else if name = ''THREADPOOL_GRACEFUL'' then 1 else 0)"

abbreviation immediate_shutdown :: nat where "immediate_shutdown \<equiv> 1"
abbreviation graceful_shutdown :: nat where "graceful_shutdown \<equiv> 2"

text \<open>
  A slot holds a task (its function and its argument) or, after the task was taken, nothing.
\<close>

record 't thread_pool =
  queue :: "'t option list"
  thread_count :: nat
  queue_size :: nat
  head :: nat
  tail :: nat
  task_count :: nat
  shutdown_flag :: nat
  started :: nat

definition static_pool :: "'t thread_pool" where
  "static_pool = \<lparr>queue = [], thread_count = 0, queue_size = 0, head = 0, tail = 0, task_count = 0,
     shutdown_flag = 0, started = 0\<rparr>"

section \<open>Operations\<close>

text \<open>\<open>vector::resize\<close> keeps the elements that fit and adds empty ones.\<close>

definition resize :: "nat \<Rightarrow> 't option list \<Rightarrow> 't option list" where
  "resize n q = take n q @ replicate (n - length q) None"

fun start_threads :: "bool list \<Rightarrow> nat \<Rightarrow> 't thread_pool \<Rightarrow> int \<times> 't thread_pool" where
  "start_threads creates 0 p = (0, p)"
| "start_threads creates (Suc n) p =
     (case creates of
        False # _ \<Rightarrow> (- 1, p)
      | _ \<Rightarrow> start_threads (tl creates) n
               (p\<lparr>thread_count := thread_count p + 1, started := started p + 1\<rparr>))"

text \<open>\<open>creates\<close> tells which \<open>pthread_create\<close> fails; a call behind its end succeeds.\<close>

definition thread_pool_create ::
  "bool list \<Rightarrow> int \<Rightarrow> int \<Rightarrow> 't thread_pool \<Rightarrow> int \<times> 't thread_pool" where
  "thread_pool_create creates num_threads0 queue_size0 p0 =
     (let (num_threads, size) =
        (if num_threads0 \<le> 0 \<or> num_threads0 > MAX_THREADS \<or> queue_size0 \<le> 0 \<or> queue_size0 > MAX_QUEUE
         then (4, 1024) else (num_threads0, queue_size0));
        p = p0\<lparr>queue := resize (nat size) (queue p0), thread_count := 0, queue_size := nat size,
              head := 0, tail := 0, task_count := 0, shutdown_flag := 0, started := 0\<rparr>
      in start_threads creates (nat num_threads) p)"

text \<open>
  \<open>thread_pool_add\<close>; \<open>lock_ok\<close>, \<open>signal_ok\<close> and \<open>unlock_ok\<close> are the successes of its three calls.
  Before \<open>thread_pool_create\<close> the remainder is by zero.
\<close>

definition thread_pool_add ::
  "bool \<Rightarrow> bool \<Rightarrow> bool \<Rightarrow> 't \<Rightarrow> 't thread_pool \<Rightarrow> (int \<times> 't thread_pool) result" where
  "thread_pool_add lock_ok signal_ok unlock_ok task p =
     (if \<not> lock_ok then Inr (THREAD_STATE ''THREADPOOL_LOCK_FAILURE'', p)
      else if queue_size p = 0 then Inl Undefined_Behaviour
      else
        let next = (tail p + 1) mod queue_size p;
            (error, p) =
              (if task_count p = queue_size p then (THREAD_STATE ''THREADPOOL_QUEUE_FULL'', p)
               else if shutdown_flag p \<noteq> 0 then (THREAD_STATE ''THREADPOOL_SHUTDOWN'', p)
               else
                 let p = p\<lparr>queue := (queue p)[tail p := Some task], tail := next,
                           task_count := task_count p + 1\<rparr> in
                 (if signal_ok then 0 else THREAD_STATE ''THREADPOOL_LOCK_FAILURE'', p))
        in Inr (if unlock_ok then error else THREAD_STATE ''THREADPOOL_LOCK_FAILURE'', p))"

text \<open>
  The mutex is a normal one: a thread that locks it again waits for ever (\<open>None\<close>).
  \<open>thread_pool_free\<close> locks twice.
\<close>

definition lock_mutex :: "'h \<Rightarrow> 'h option \<Rightarrow> 'h option option" where
  "lock_mutex me m = (case m of None \<Rightarrow> Some (Some me) | Some h \<Rightarrow> None)"

definition thread_pool_free :: "'h \<Rightarrow> 'h option \<Rightarrow> 't thread_pool \<Rightarrow> (int \<times> 'h option) option" where
  "thread_pool_free me m p =
     (if started p > 0 then Some (- 1, m)
      else Option.bind (lock_mutex me m) (\<lambda>m. Option.bind (lock_mutex me m) (\<lambda>m. Some (0, m))))"

text \<open>
  The part of \<open>thread_pool_destory\<close> before the threads are joined. It returns at once when the
  flag is set already or a call fails, and then leaves the mutex as it is: locked.
\<close>

definition destroy_begin ::
  "'h \<Rightarrow> bool \<Rightarrow> bool \<Rightarrow> nat \<Rightarrow> 't thread_pool \<Rightarrow> int \<times> 'h option \<times> 't thread_pool" where
  "destroy_begin me broadcast_ok unlock_ok shutdown_option p =
     (if shutdown_flag p \<noteq> 0 then (THREAD_STATE ''THREADPOOL_SHUTDOWN'', Some me, p)
      else
        let p = p\<lparr>shutdown_flag := shutdown_option\<rparr> in
        if \<not> broadcast_ok \<or> \<not> unlock_ok then (THREAD_STATE ''THREADPOOL_LOCK_FAILURE'', Some me, p)
        else (0, None, p))"

text \<open>The rest, once every thread has been joined (\<open>join_ok\<close> for each of them).\<close>

definition destroy_end ::
  "'h \<Rightarrow> bool list \<Rightarrow> 'h option \<Rightarrow> 't thread_pool \<Rightarrow> (int \<times> 'h option) option" where
  "destroy_end me joins m p =
     (let error = (if list_all (\<lambda>join_ok. join_ok) joins then 0
                   else THREAD_STATE ''THREADPOOL_LOCK_FAILURE'') in
      if error = 0
      then Option.bind (thread_pool_free me m p) (\<lambda>(_, m). Some (error, m))
      else Some (error, m))"

text \<open>What a worker does inside the lock: it waits, leaves, or takes the task at the head.\<close>

definition must_wait :: "'t thread_pool \<Rightarrow> bool" where
  "must_wait p = (task_count p = 0 \<and> shutdown_flag p = 0)"

definition must_leave :: "'t thread_pool \<Rightarrow> bool" where
  "must_leave p =
     (shutdown_flag p = immediate_shutdown \<or> (shutdown_flag p = graceful_shutdown \<and> task_count p = 0))"

definition take_task :: "'t thread_pool \<Rightarrow> 't option \<times> 't thread_pool" where
  "take_task p =
     (queue p ! head p,
      p\<lparr>queue := (queue p)[head p := None], head := (head p + 1) mod queue_size p,
        task_count := task_count p - 1\<rparr>)"

section \<open>The ring is a queue\<close>

definition ring_slot :: "'t thread_pool \<Rightarrow> nat \<Rightarrow> nat" where
  "ring_slot p k = (head p + k) mod queue_size p"

definition contents :: "'t thread_pool \<Rightarrow> 't list" where
  "contents p = map (\<lambda>k. the (queue p ! ring_slot p k)) [0..<task_count p]"

definition ring_ok :: "'t thread_pool \<Rightarrow> bool" where
  "ring_ok p =
     (0 < queue_size p \<and> length (queue p) = queue_size p \<and> head p < queue_size p
      \<and> tail p = ring_slot p (task_count p) \<and> task_count p \<le> queue_size p
      \<and> (\<forall>k < task_count p. queue p ! ring_slot p k \<noteq> None))"

text \<open>The contract of a bounded first-in-first-out queue.\<close>

locale bounded_fifo =
  fixes ok :: "'q \<Rightarrow> bool"
    and elems :: "'q \<Rightarrow> 'a list"
    and full :: "'q \<Rightarrow> bool"
    and enq :: "'a \<Rightarrow> 'q \<Rightarrow> 'q"
    and deq :: "'q \<Rightarrow> 'a option \<times> 'q"
  assumes enq_ok: "ok q \<Longrightarrow> \<not> full q \<Longrightarrow> ok (enq x q)"
    and enq_elems: "ok q \<Longrightarrow> \<not> full q \<Longrightarrow> elems (enq x q) = elems q @ [x]"
    and deq_ok: "ok q \<Longrightarrow> elems q \<noteq> [] \<Longrightarrow> ok (snd (deq q))"
    and deq_elems: "ok q \<Longrightarrow> elems q \<noteq> [] \<Longrightarrow> elems q = the (fst (deq q)) # elems (snd (deq q))"
begin

text \<open>Any interleaving of calls gives the elements back in the order they went in.\<close>

fun play :: "'a option list \<Rightarrow> 'q \<Rightarrow> 'a list \<times> 'q" where
  "play [] q = ([], q)"
| "play (Some x # ops) q = play ops (if full q then q else enq x q)"
| "play (None # ops) q =
     (if elems q = [] then play ops q
      else case play ops (snd (deq q)) of (out, q') \<Rightarrow> (the (fst (deq q)) # out, q'))"

fun accepted :: "'a option list \<Rightarrow> 'q \<Rightarrow> 'a list" where
  "accepted [] q = []"
| "accepted (Some x # ops) q =
     (if full q then accepted ops q else x # accepted ops (enq x q))"
| "accepted (None # ops) q = accepted ops (if elems q = [] then q else snd (deq q))"

lemma play_fifo:
  "ok q \<Longrightarrow> play ops q = (out, q') \<Longrightarrow> ok q' \<and> elems q @ accepted ops q = out @ elems q'"
proof (induction ops q arbitrary: out rule: play.induct)
  case (3 ops q)
  show ?case
  proof (cases "elems q = []")
    case True
    then show ?thesis using 3 by simp
  next
    case False
    then obtain out' where "play ops (snd (deq q)) = (out', q')" "out = the (fst (deq q)) # out'"
      using 3(4) by (auto split: prod.splits)
    then show ?thesis using 3(2) [OF False deq_ok] 3(3) False deq_elems [OF 3(3) False] by simp
  qed
qed (auto simp: enq_ok enq_elems split: if_splits)

end

lemma ring_slot_inj:
  assumes "j < queue_size p" and "k < queue_size p" and "ring_slot p j = ring_slot p k"
  shows "j = k"
proof -
  have "(head p + j) mod queue_size p = (head p + k) mod queue_size p"
    using assms(3) by (simp add: ring_slot_def)
  then have "j mod queue_size p = k mod queue_size p" by (simp add: nat_mod_eq_iff) 
  then show ?thesis using assms by simp
qed

definition pool_full :: "'t thread_pool \<Rightarrow> bool" where
  "pool_full p = (task_count p = queue_size p \<or> shutdown_flag p \<noteq> 0)"

definition added :: "'t \<Rightarrow> 't thread_pool \<Rightarrow> 't thread_pool" where
  "added task p = p\<lparr>queue := (queue p)[tail p := Some task], tail := (tail p + 1) mod queue_size p,
     task_count := task_count p + 1\<rparr>"

lemma thread_pool_add_eq:
  assumes "0 < queue_size p"
  shows "thread_pool_add True True True task p =
    Inr (if task_count p = queue_size p then (- 3, p) else if shutdown_flag p \<noteq> 0 then (- 4, p) else (0, added task p))"
  using assms by (simp add: thread_pool_add_def added_def Let_def)

lemma added_slots:
  assumes "ring_ok p" and "\<not> pool_full p" and "k < task_count p"
  shows "queue (added task p) ! ring_slot (added task p) k = queue p ! ring_slot p k"
proof -
  have "k < queue_size p" "task_count p < queue_size p"
    using assms by (auto simp: ring_ok_def pool_full_def)
  then have "ring_slot p k \<noteq> tail p"
    using assms ring_slot_inj [of k p "task_count p"] by (auto simp: ring_ok_def)
  then show ?thesis by (simp add: added_def ring_slot_def)
qed

lemma added_last:
  assumes "ring_ok p"
  shows "queue (added task p) ! ring_slot (added task p) (task_count p) = Some task"
proof -
  have "tail p < length (queue p)"
    using assms by (simp add: ring_ok_def ring_slot_def)
  then show ?thesis using assms by (simp add: added_def ring_slot_def ring_ok_def)
qed

lemma added_ok:
  assumes "ring_ok p" and "\<not> pool_full p"
  shows "ring_ok (added task p)"
proof -
  have "(tail p + 1) mod queue_size p = (head p + (task_count p + 1)) mod queue_size p"
    using assms(1) by (simp add: ring_ok_def ring_slot_def mod_simps)
  moreover have "queue (added task p) ! ring_slot (added task p) k \<noteq> None" if "k < task_count p + 1" for k
    using that added_slots [OF assms] added_last [OF assms(1)] assms(1)
    by (cases "k = task_count p") (auto simp: ring_ok_def)
  ultimately show ?thesis
    using assms by (auto simp: ring_ok_def pool_full_def added_def ring_slot_def)
qed

lemma added_contents:
  assumes "ring_ok p" and "\<not> pool_full p"
  shows "contents (added task p) = contents p @ [task]"
proof -
  have "map (\<lambda>k. the (queue (added task p) ! ring_slot (added task p) k)) [0..<task_count p] = contents p"
    using added_slots [OF assms] by (simp add: contents_def)
  moreover have "task_count (added task p) = Suc (task_count p)" by (simp add: added_def)
  ultimately show ?thesis using added_last [OF assms(1)] by (simp add: contents_def)
qed

lemma take_slots:
  assumes "ring_ok p" and "task_count p \<noteq> 0" and "k < task_count p - 1"
  shows "queue (snd (take_task p)) ! ring_slot (snd (take_task p)) k = queue p ! ring_slot p (Suc k)"
proof -
  have "Suc k < queue_size p" "0 < queue_size p" using assms by (auto simp: ring_ok_def)
  then have "ring_slot p (Suc k) \<noteq> ring_slot p 0" using ring_slot_inj by blast
  then show ?thesis
    using assms(1) by (simp add: take_task_def ring_slot_def ring_ok_def mod_simps)
qed

lemma take_ok:
  assumes "ring_ok p" and "task_count p \<noteq> 0"
  shows "ring_ok (snd (take_task p))"
proof -
  have "queue (snd (take_task p)) ! ring_slot (snd (take_task p)) k \<noteq> None" if "k < task_count p - 1" for k
    using take_slots [OF assms that] that assms(1) by (auto simp: ring_ok_def)
  moreover obtain n where n: "task_count p = Suc n" using assms(2) not0_implies_Suc by blast
  then have "(Suc (head p) mod queue_size p + n) mod queue_size p = (head p + task_count p) mod queue_size p"
    by (simp add: mod_simps)
  ultimately show ?thesis
    using assms(1) n by (auto simp: ring_ok_def take_task_def ring_slot_def)
qed

lemma take_contents:
  assumes "ring_ok p" and "task_count p \<noteq> 0"
  shows "contents p = the (fst (take_task p)) # contents (snd (take_task p))"
proof -
  obtain n where n: "task_count p = Suc n" using assms(2) not0_implies_Suc by blast
  have "contents p = the (queue p ! ring_slot p 0) # map (\<lambda>k. the (queue p ! ring_slot p (Suc k))) [0..<n]"
    by (simp only: contents_def n upt_conv_Cons zero_less_Suc list.map map_Suc_upt [symmetric] map_map comp_def)
  also have "map (\<lambda>k. the (queue p ! ring_slot p (Suc k))) [0..<n] = contents (snd (take_task p))"
    using take_slots [OF assms] n by (simp add: contents_def take_task_def)
  also have "queue p ! ring_slot p 0 = fst (take_task p)"
    using assms(1) by (simp add: take_task_def ring_slot_def ring_ok_def)
  finally show ?thesis .
qed

lemma contents_empty: "contents p = [] \<longleftrightarrow> task_count p = 0"
  by (simp add: contents_def)

interpretation ring: bounded_fifo ring_ok contents pool_full added take_task
  by unfold_locales (simp_all add: added_ok added_contents take_ok take_contents contents_empty)

text \<open>A history of calls on a pool, each additions of a task or the taking of one.\<close>

fun pool_calls :: "'t option list \<Rightarrow> 't thread_pool \<Rightarrow> 't list \<times> 't list \<times> 't thread_pool" where
  "pool_calls [] p = ([], [], p)"
| "pool_calls (Some task # ops) p =
     (case thread_pool_add True True True task p of
        Inl f \<Rightarrow> ([], [], p)
      | Inr (error, p') \<Rightarrow>
          (case pool_calls ops p' of (ins, outs, q) \<Rightarrow> ((if error = 0 then task # ins else ins), outs, q)))"
| "pool_calls (None # ops) p =
     (if task_count p = 0 then pool_calls ops p
      else case take_task p of (t, p') \<Rightarrow>
        (case pool_calls ops p' of (ins, outs, q) \<Rightarrow> (ins, the t # outs, q)))"

lemma pool_calls_play:
  "ring_ok p \<Longrightarrow> pool_calls ops p = (ins, outs, q) \<Longrightarrow>
   ins = ring.accepted ops p \<and> ring.play ops p = (outs, q)"
proof (induction ops p arbitrary: ins outs rule: pool_calls.induct)
  case (2 task ops p)
  have pos: "0 < queue_size p" using 2 by (simp add: ring_ok_def)
  show ?case
  proof (cases "pool_full p")
    case True
    have "thread_pool_add True True True task p = Inr (if task_count p = queue_size p then - 3 else - 4, p)"
      using True pos by (auto simp: thread_pool_add_eq pool_full_def)
    then show ?thesis using 2 True by (auto split: prod.splits)
  next
    case False
    then have e: "thread_pool_add True True True task p = Inr (0, added task p)"
      using pos by (simp add: thread_pool_add_eq pool_full_def)
    obtain ins' where r: "pool_calls ops (added task p) = (ins', outs, q)" "ins = task # ins'"
      using 2(3) e by (auto split: prod.splits)
    from 2(1) [OF e refl added_ok [OF 2(2) False] r(1)] show ?thesis using r(2) False by simp
  qed
next
  case (3 ops p)
  then show ?case
    using take_ok [of p]
    by (cases "task_count p = 0"; cases "take_task p") (auto simp: contents_empty split: prod.splits)
qed simp

text \<open>
  C15. The ring buffer is a first-in-first-out queue: over any sequence of \<open>thread_pool_add\<close>
  calls, refused ones included, and takings of workers, the tasks taken followed by the tasks
  still in the ring are the tasks in the ring at the start followed by the accepted ones, in order.
\<close>

theorem pool_is_fifo:
  assumes "ring_ok p" and "pool_calls ops p = (accepted, taken, q)"
  shows "ring_ok q \<and> contents p @ accepted = taken @ contents q"
  using pool_calls_play [OF assms] ring.play_fifo [OF assms(1)] by blast

definition demo_pool :: "nat thread_pool" where
  "demo_pool = snd (thread_pool_create [] 2 2 static_pool)"

lemma demo_pool_eq:
  "demo_pool = \<lparr>queue = [None, None], thread_count = 2, queue_size = 2, head = 0, tail = 0, task_count = 0,
     shutdown_flag = 0, started = 2\<rparr>"
  by (simp add: demo_pool_def thread_pool_create_def static_pool_def MAX_THREADS_def MAX_QUEUE_def resize_def
      numeral_2_eq_2)

theorem pool_is_fifo_witness:
  "case pool_calls [Some 7, Some 8, Some 9, None, Some 10, None] demo_pool of (accepted, taken, q) \<Rightarrow>
     accepted = [7, 8, 10] \<and> taken = [7, 8] \<and> ring_ok q \<and> contents q = [10]"
proof -
  obtain accepted taken q where run:
    "pool_calls [Some 7, Some 8, Some 9, None, Some 10, None] demo_pool = (accepted, taken, q)"
    by (metis prod_cases3)
  have "accepted = [7, 8, 10] \<and> taken = [7, 8]"
    using run by (auto simp: demo_pool_eq thread_pool_add_eq added_def take_task_def)
  moreover have "ring_ok demo_pool" by (simp add: demo_pool_eq ring_ok_def ring_slot_def)
  ultimately show ?thesis
    using pool_is_fifo [OF _ run] run by (auto simp: demo_pool_eq contents_def)
qed

end
