(* ===== verification/Thread_Pool_Run.thy ===== *)
theory Thread_Pool_Run
  imports Thread_Pool
begin

text \<open>
  The thread pool running: workers execute \<open>thread_pool_thread\<close>, clients call
  \<open>thread_pool_add\<close> and \<open>thread_pool_destory\<close>, in any interleaving. A section between locking and
  unlocking the mutex is one step of its owner, except that a worker stands inside the lock as a
  state of its own, since others can come to the lock meanwhile. The condition variable may wake a
  waiting worker at any time.
\<close>

section \<open>The machine\<close>

datatype 't worker =
    W_Start
  | W_Locked
  | W_Waiting
  | W_Woken
  | W_Running 't
  | W_Exited

datatype lock_holder = Worker nat | Client

text \<open>\<open>submitted\<close> and \<open>taken\<close> record the accepted and the started tasks; the code has no such state.\<close>

record 't pool_run =
  pool :: "'t thread_pool"
  mutex :: "lock_holder option"
  workers :: "'t worker list"
  submitted :: "'t list"
  taken :: "'t list"

definition set_worker :: "nat \<Rightarrow> 't worker \<Rightarrow> lock_holder option \<Rightarrow> 't pool_run \<Rightarrow> 't pool_run" where
  "set_worker i w m s = s\<lparr>workers := (workers s)[i := w], mutex := m\<rparr>"

inductive thread_pool_thread :: "nat \<Rightarrow> 't pool_run \<Rightarrow> 't pool_run \<Rightarrow> bool" for i where
  w_lock: "i < length (workers s) \<Longrightarrow> workers s ! i = W_Start \<Longrightarrow> mutex s = None \<Longrightarrow>
    thread_pool_thread i s (set_worker i W_Locked (Some (Worker i)) s)"
| w_wait: "i < length (workers s) \<Longrightarrow> workers s ! i = W_Locked \<Longrightarrow> must_wait (pool s) \<Longrightarrow>
    thread_pool_thread i s (set_worker i W_Waiting None s)"
| w_exit: "i < length (workers s) \<Longrightarrow> workers s ! i = W_Locked \<Longrightarrow> \<not> must_wait (pool s) \<Longrightarrow>
    must_leave (pool s) \<Longrightarrow>
    thread_pool_thread i s
      (set_worker i W_Exited None (s\<lparr>pool := (pool s)\<lparr>started := started (pool s) - 1\<rparr>\<rparr>))"
| w_take: "i < length (workers s) \<Longrightarrow> workers s ! i = W_Locked \<Longrightarrow> \<not> must_wait (pool s) \<Longrightarrow>
    \<not> must_leave (pool s) \<Longrightarrow> take_task (pool s) = (task, p) \<Longrightarrow>
    thread_pool_thread i s
      (set_worker i (W_Running (the task)) None (s\<lparr>pool := p, taken := taken s @ [the task]\<rparr>))"
| w_done: "i < length (workers s) \<Longrightarrow> workers s ! i = W_Running task \<Longrightarrow>
    thread_pool_thread i s (set_worker i W_Start (mutex s) s)"
| w_spurious: "i < length (workers s) \<Longrightarrow> workers s ! i = W_Waiting \<Longrightarrow>
    thread_pool_thread i s (set_worker i W_Woken (mutex s) s)"
| w_relock: "i < length (workers s) \<Longrightarrow> workers s ! i = W_Woken \<Longrightarrow> mutex s = None \<Longrightarrow>
    thread_pool_thread i s (set_worker i W_Locked (Some (Worker i)) s)"

text \<open>\<open>pthread_cond_signal\<close> wakes one waiting thread if there is one, the broadcast wakes all.\<close>

definition wake_one :: "'t worker list \<Rightarrow> 't worker list \<Rightarrow> bool" where
  "wake_one ws ws' =
     (if W_Waiting \<in> set ws then (\<exists>i < length ws. ws ! i = W_Waiting \<and> ws' = ws[i := W_Woken]) else ws' = ws)"

definition wake_all :: "'t worker list \<Rightarrow> 't worker list" where
  "wake_all ws = map (\<lambda>w. if w = W_Waiting then W_Woken else w) ws"

inductive client_step :: "'t pool_run \<Rightarrow> 't pool_run \<Rightarrow> bool" where
  c_add: "mutex s = None \<Longrightarrow> thread_pool_add True True True task (pool s) = Inr (0, p) \<Longrightarrow>
    wake_one (workers s) ws \<Longrightarrow>
    client_step s (s\<lparr>pool := p, workers := ws, submitted := submitted s @ [task]\<rparr>)"
| c_refused: "mutex s = None \<Longrightarrow> thread_pool_add True True True task (pool s) = Inr (e, p) \<Longrightarrow> e \<noteq> 0 \<Longrightarrow>
    client_step s (s\<lparr>pool := p\<rparr>)"
| c_destroy: "mutex s = None \<Longrightarrow> option \<in> {immediate_shutdown, graceful_shutdown} \<Longrightarrow>
    destroy_begin Client True True option (pool s) = (e, m, p) \<Longrightarrow>
    client_step s (s\<lparr>pool := p, mutex := m, workers := (if e = 0 then wake_all (workers s) else workers s)\<rparr>)"

definition pool_step :: "'t pool_run \<Rightarrow> 't pool_run \<Rightarrow> bool" where
  "pool_step s s' = ((\<exists>i. thread_pool_thread i s s') \<or> client_step s s')"

text \<open>The pool as \<open>thread_pool_create\<close> leaves it when every thread could be created.\<close>

definition start_run :: "int \<Rightarrow> int \<Rightarrow> 't pool_run" where
  "start_run num_threads qsize =
     (let p = snd (thread_pool_create [] num_threads qsize static_pool) in
      \<lparr>pool = p, mutex = None, workers = replicate (thread_count p) W_Start, submitted = [], taken = []\<rparr>)"

section \<open>Invariant\<close>

definition run_ok :: "'t pool_run \<Rightarrow> bool" where
  "run_ok s =
     (ring_ok (pool s)
      \<and> taken s @ contents (pool s) = submitted s
      \<and> (\<forall>i. mutex s = Some (Worker i) \<longleftrightarrow> i < length (workers s) \<and> workers s ! i = W_Locked)
      \<and> started (pool s) = length (filter (\<lambda>w. w \<noteq> W_Exited) (workers s))
      \<and> workers s \<noteq> []
      \<and> shutdown_flag (pool s) \<in> {0, immediate_shutdown, graceful_shutdown}
      \<and> (W_Exited \<in> set (workers s) \<longrightarrow> shutdown_flag (pool s) \<noteq> 0)
      \<and> (W_Exited \<in> set (workers s) \<and> shutdown_flag (pool s) = graceful_shutdown \<longrightarrow> task_count (pool s) = 0)
      \<and> (task_count (pool s) \<noteq> 0 \<and> shutdown_flag (pool s) = 0 \<longrightarrow> (\<exists>w \<in> set (workers s). w \<noteq> W_Waiting))
      \<and> (shutdown_flag (pool s) \<noteq> 0 \<longrightarrow> W_Waiting \<notin> set (workers s)))"

lemma start_threads_all:
  "start_threads [] n p = (0, p\<lparr>thread_count := thread_count p + n, started := started p + n\<rparr>)"
  by (induction n arbitrary: p) simp_all

lemma start_run_ok: "run_ok (start_run n q)"
proof -
  let ?c = "n \<le> 0 \<or> n > MAX_THREADS \<or> q \<le> 0 \<or> q > MAX_QUEUE"
  let ?n = "nat (if ?c then 4 else n)" and ?q = "nat (if ?c then 1024 else q)"
  have p: "snd (thread_pool_create [] n q static_pool) = \<lparr>queue = replicate ?q None, thread_count = ?n,
      queue_size = ?q, head = 0, tail = 0, task_count = 0, shutdown_flag = 0, started = ?n\<rparr>"
    by (simp add: thread_pool_create_def start_threads_all static_pool_def resize_def)
  have pos: "0 < ?n" "0 < ?q" by auto
  define m k where "m = ?n" and "k = ?q"
  have s: "start_run n q = \<lparr>pool = \<lparr>queue = replicate k None, thread_count = m, queue_size = k, head = 0,
      tail = 0, task_count = 0, shutdown_flag = 0, started = m\<rparr>, mutex = None,
      workers = replicate m W_Start, submitted = [], taken = []\<rparr>"
    by (simp only: start_run_def p Let_def thread_pool.simps m_def k_def)
  have "0 < m" "0 < k" using pos by (simp_all only: m_def k_def)
  then show ?thesis
    by (simp add: s run_ok_def ring_ok_def ring_slot_def contents_def filter_True)
qed

lemma run_okD:
  assumes "run_ok s"
  shows "ring_ok (pool s)" "taken s @ contents (pool s) = submitted s"
    "mutex s = Some (Worker i) \<longleftrightarrow> i < length (workers s) \<and> workers s ! i = W_Locked"
    "started (pool s) = length (filter (\<lambda>w. w \<noteq> W_Exited) (workers s))"
    "shutdown_flag (pool s) \<noteq> 0 \<Longrightarrow> W_Waiting \<notin> set (workers s)"
  using assms by (auto simp: run_ok_def)

text \<open>Changing the state of one worker.\<close>

lemma set_update:
  assumes "i < length ws" and "x \<in> set (ws[i := w])"
  shows "x = w \<or> (\<exists>j < length ws. j \<noteq> i \<and> x = ws ! j)"
  using assms by (auto simp: in_set_conv_nth nth_list_update split: if_splits)

lemma filter_update:
  assumes "i < length ws" and "P (ws ! i) = P w"
  shows "length (filter P (ws[i := w])) = length (filter P ws)"
proof -
  have "ws = take i ws @ ws ! i # drop (Suc i) ws" using assms(1) by (rule id_take_nth_drop)
  then have "length (filter P ws) = length (filter P (take i ws @ ws ! i # drop (Suc i) ws))" by simp
  also have "\<dots> = length (filter P (take i ws @ w # drop (Suc i) ws))" using assms(2) by simp
  also have "take i ws @ w # drop (Suc i) ws = ws[i := w]" using assms(1) by (rule upd_conv_take_nth_drop [symmetric])
  finally show ?thesis by simp
qed

lemma filter_update_less:
  assumes "i < length ws" and "P (ws ! i)" and "\<not> P w"
  shows "length (filter P (ws[i := w])) = length (filter P ws) - 1"
proof -
  have "ws = take i ws @ ws ! i # drop (Suc i) ws" using assms(1) by (rule id_take_nth_drop)
  then have "length (filter P ws) = length (filter P (take i ws @ ws ! i # drop (Suc i) ws))" by simp
  also have "\<dots> = Suc (length (filter P (take i ws @ w # drop (Suc i) ws)))" using assms(2,3) by simp
  also have "take i ws @ w # drop (Suc i) ws = ws[i := w]" using assms(1) by (rule upd_conv_take_nth_drop [symmetric])
  finally show ?thesis by simp
qed

lemma member_update:
  assumes "i < length ws" and "x \<noteq> w" and "ws ! i \<noteq> x"
  shows "x \<in> set (ws[i := w]) \<longleftrightarrow> x \<in> set ws"
  using assms by (metis in_set_conv_nth length_list_update nth_list_update)

lemma lock_update:
  assumes old: "\<And>j. mx = Some (Worker j) \<longleftrightarrow> j < length ws \<and> ws ! j = W_Locked" and i: "i < length ws"
    and "(w = W_Locked \<and> m = Some (Worker i) \<and> mx = None)
      \<or> (w \<noteq> W_Locked \<and> ws ! i = W_Locked \<and> m = None)
      \<or> (w \<noteq> W_Locked \<and> ws ! i \<noteq> W_Locked \<and> m = mx)"
  shows "\<forall>j. m = Some (Worker j) \<longleftrightarrow> j < length ws \<and> ws[i := w] ! j = W_Locked"
  using assms(3)
proof (elim disjE conjE)
  assume a: "w = W_Locked" "m = Some (Worker i)" "mx = None"
  show ?thesis
  proof
    fix j
    show "m = Some (Worker j) \<longleftrightarrow> j < length ws \<and> ws[i := w] ! j = W_Locked"
      using old [of j] a i by (cases "j = i") simp_all
  qed
next
  assume a: "w \<noteq> W_Locked" "ws ! i = W_Locked" "m = None"
  then have "mx = Some (Worker i)" using old [of i] i by simp
  then have other: "j = i" if "j < length ws" "ws ! j = W_Locked" for j using old [of j] that by simp
  show ?thesis
  proof
    fix j
    show "m = Some (Worker j) \<longleftrightarrow> j < length ws \<and> ws[i := w] ! j = W_Locked"
      using other [of j] a i by (cases "j = i") auto
  qed
next
  assume a: "w \<noteq> W_Locked" "ws ! i \<noteq> W_Locked" "m = mx"
  show ?thesis
  proof
    fix j
    show "m = Some (Worker j) \<longleftrightarrow> j < length ws \<and> ws[i := w] ! j = W_Locked"
      using old [of j] a by (cases "j = i") simp_all
  qed
qed

text \<open>A step of a worker that neither exits nor touches the pool.\<close>

lemma set_worker_ok:
  assumes ok: "run_ok s" and i: "i < length (workers s)"
    and lock: "(w = W_Locked \<and> m = Some (Worker i) \<and> mutex s = None)
      \<or> (w \<noteq> W_Locked \<and> workers s ! i = W_Locked \<and> m = None)
      \<or> (w \<noteq> W_Locked \<and> workers s ! i \<noteq> W_Locked \<and> m = mutex s)"
    and live: "w \<noteq> W_Exited" "workers s ! i \<noteq> W_Exited"
    and wait: "w = W_Waiting \<Longrightarrow> must_wait (pool s)"
  shows "run_ok (set_worker i w m s)"
proof -
  let ?ws = "(workers s)[i := w]"
  have "\<forall>j. m = Some (Worker j) \<longleftrightarrow> j < length (workers s) \<and> ?ws ! j = W_Locked"
    by (rule lock_update [OF run_okD(3) [OF ok] i lock])
  moreover have "length (filter (\<lambda>w. w \<noteq> W_Exited) ?ws) = length (filter (\<lambda>w. w \<noteq> W_Exited) (workers s))"
    by (rule filter_update) (use i live in simp_all)
  moreover have "W_Exited \<in> set ?ws \<longleftrightarrow> W_Exited \<in> set (workers s)"
    by (rule member_update) (use i live in simp_all)
  moreover have "\<exists>v \<in> set ?ws. v \<noteq> W_Waiting" if "task_count (pool s) \<noteq> 0"
    using that wait i set_update_memI [of i "workers s" w] by (auto simp: must_wait_def)
  moreover have "W_Waiting \<notin> set ?ws" if "shutdown_flag (pool s) \<noteq> 0"
  proof
    assume "W_Waiting \<in> set ?ws"
    then have "W_Waiting = w \<or> W_Waiting \<in> set (workers s)" using set_update_subset_insert by fastforce
    then show False using that wait run_okD(5) [OF ok] by (auto simp: must_wait_def)
  qed
  ultimately show ?thesis using ok by (simp add: run_ok_def set_worker_def)
qed

lemma worker_step_ok: "thread_pool_thread i s s' \<Longrightarrow> run_ok s \<Longrightarrow> run_ok s'"
proof (induction rule: thread_pool_thread.induct)
  case (w_exit s)
  let ?ws = "(workers s)[i := W_Exited]"
  have "\<forall>j. None = Some (Worker j) \<longleftrightarrow> j < length (workers s) \<and> ?ws ! j = W_Locked"
    by (rule lock_update [OF run_okD(3) [OF w_exit(5)] w_exit(1)]) (use w_exit(2) in simp)
  moreover have "length (filter (\<lambda>w. w \<noteq> W_Exited) ?ws) = length (filter (\<lambda>w. w \<noteq> W_Exited) (workers s)) - 1"
    by (rule filter_update_less) (use w_exit(1,2) in simp_all)
  moreover have "shutdown_flag (pool s) \<noteq> 0" using w_exit(4) by (auto simp: must_leave_def)
  moreover have "W_Waiting \<notin> set ?ws"
    using calculation(3) run_okD(5) [OF w_exit(5)] set_update_subset_insert by fastforce
  moreover have "shutdown_flag (pool s) = graceful_shutdown \<Longrightarrow> task_count (pool s) = 0"
    using w_exit(4) by (simp add: must_leave_def)
  ultimately show ?case
    using w_exit(5) by (simp add: run_ok_def set_worker_def ring_ok_def contents_def ring_slot_def)
next
  case (w_take s task p)
  have n: "task_count (pool s) \<noteq> 0"
  proof -
    have "shutdown_flag (pool s) \<in> {0, immediate_shutdown, graceful_shutdown}"
      using w_take(6) by (simp add: run_ok_def)
    then show ?thesis using w_take(3,4) by (auto simp: must_wait_def must_leave_def)
  qed
  have p: "p = snd (take_task (pool s))" "task = fst (take_task (pool s))" using w_take(5) by simp_all
  let ?s = "s\<lparr>pool := p, taken := taken s @ [the task]\<rparr>"
  have ring: "ring_ok p" using take_ok [OF run_okD(1) [OF w_take(6)] n] p by simp
  have cont: "taken ?s @ contents p = submitted s"
    using take_contents [OF run_okD(1) [OF w_take(6)] n] run_okD(2) [OF w_take(6)] p by simp
  have same: "started p = started (pool s)" "shutdown_flag p = shutdown_flag (pool s)"
      "task_count p = task_count (pool s) - 1" using p by (simp_all add: take_task_def)
  have "run_ok ?s"
    using w_take(6) ring cont same n by (auto simp: run_ok_def)
  then show ?case by (rule set_worker_ok) (use w_take in simp_all)
qed (auto intro!: set_worker_ok)

lemma wake_ok:
  assumes "run_ok s" and "length ws = length (workers s)"
    and "\<forall>j < length ws. ws ! j = workers s ! j \<or> (workers s ! j = W_Waiting \<and> ws ! j = W_Woken)"
  shows "(\<forall>i. mutex s = Some (Worker i) \<longleftrightarrow> i < length ws \<and> ws ! i = W_Locked)
    \<and> length (filter (\<lambda>w. w \<noteq> W_Exited) ws) = length (filter (\<lambda>w. w \<noteq> W_Exited) (workers s))
    \<and> (W_Exited \<in> set ws \<longleftrightarrow> W_Exited \<in> set (workers s))"
proof -
  have "map (\<lambda>w. w = W_Exited) ws = map (\<lambda>w. w = W_Exited) (workers s)"
    using assms(2,3) by (auto intro!: nth_equalityI)
  then have "length (filter Not (map (\<lambda>w. w = W_Exited) ws)) = length (filter Not (map (\<lambda>w. w = W_Exited) (workers s)))"
    by simp
  then have "length (filter (\<lambda>w. w \<noteq> W_Exited) ws) = length (filter (\<lambda>w. w \<noteq> W_Exited) (workers s))"
    by (simp add: filter_map comp_def)
  moreover have "\<forall>i. mutex s = Some (Worker i) \<longleftrightarrow> i < length ws \<and> ws ! i = W_Locked"
    using run_okD(3) [OF assms(1)] assms(2,3) by (metis worker.distinct(1) worker.distinct(11) worker.distinct(13) worker.distinct(15))
  moreover have "W_Exited \<in> set ws \<longleftrightarrow> W_Exited \<in> set (workers s)"
    using assms(2,3) by (metis in_set_conv_nth worker.distinct)
  ultimately show ?thesis by blast
qed

lemma wake_one_pointwise:
  assumes "wake_one ws ws'"
  shows "length ws' = length ws \<and> (\<forall>j < length ws'. ws' ! j = ws ! j \<or> (ws ! j = W_Waiting \<and> ws' ! j = W_Woken))
    \<and> (ws \<noteq> [] \<longrightarrow> (\<exists>w \<in> set ws'. w \<noteq> W_Waiting)) \<and> (W_Waiting \<notin> set ws \<longrightarrow> ws' = ws)"
proof (cases "W_Waiting \<in> set ws")
  case True
  then obtain i where i: "i < length ws" "ws ! i = W_Waiting" "ws' = ws[i := W_Woken]"
    using assms by (auto simp: wake_one_def)
  then have "W_Woken \<in> set ws'" by (simp add: set_update_memI)
  then show ?thesis using i True by (auto simp: nth_list_update intro!: bexI [of _ W_Woken])
next
  case False
  then have "ws' = ws" using assms by (simp add: wake_one_def)
  moreover have "\<exists>w \<in> set ws. w \<noteq> W_Waiting" if "ws \<noteq> []"
    using that False by (cases ws) auto
  ultimately show ?thesis by simp
qed

lemma wake_all_pointwise:
  "length (wake_all ws) = length ws
    \<and> (\<forall>j < length (wake_all ws). wake_all ws ! j = ws ! j \<or> (ws ! j = W_Waiting \<and> wake_all ws ! j = W_Woken))
    \<and> W_Waiting \<notin> set (wake_all ws)"
  by (auto simp: wake_all_def)

lemma add_run_ok:
  assumes ok: "run_ok s" and add: "thread_pool_add True True True task (pool s) = Inr (0, p)" and wk: "wake_one (workers s) ws"
  shows "run_ok (s\<lparr>pool := p, workers := ws, submitted := submitted s @ [task]\<rparr>)"
proof -
  have pos: "0 < queue_size (pool s)" using ok by (simp add: run_ok_def ring_ok_def)
  have free: "\<not> pool_full (pool s)" and p: "p = added task (pool s)"
    using add by (simp_all add: thread_pool_add_eq [OF pos] pool_full_def split: if_splits)
  have ring: "ring_ok p" "contents p = contents (pool s) @ [task]"
    using added_ok added_contents run_okD(1) [OF ok] free p by auto
  have flag: "shutdown_flag (pool s) = 0" using free by (simp add: pool_full_def)
  have same: "started p = started (pool s)" "shutdown_flag p = 0" using flag by (simp_all add: p added_def)
  note wake = wake_one_pointwise [OF wk]
  have "workers s \<noteq> []" "W_Exited \<notin> set (workers s)" using ok flag by (auto simp: run_ok_def)
  then show ?thesis
    using wake_ok [OF ok, of ws] wake ring same run_okD(2,4) [OF ok] by (auto simp: run_ok_def)
qed

lemma shut_run_ok:
  assumes ok: "run_ok s" and "mutex s = None" and option: "option \<in> {immediate_shutdown, graceful_shutdown}"
    and up: "shutdown_flag (pool s) = 0"
  shows "run_ok (s\<lparr>pool := (pool s)\<lparr>shutdown_flag := option\<rparr>, mutex := None, workers := wake_all (workers s)\<rparr>)"
proof -
  note wake = wake_all_pointwise [of "workers s"]
  moreover have "W_Exited \<notin> set (workers s)" using ok up by (auto simp: run_ok_def)
  moreover have "wake_all (workers s) \<noteq> []" using ok by (auto simp: run_ok_def wake_all_def)
  moreover have "ring_ok ((pool s)\<lparr>shutdown_flag := option\<rparr>)"
      "contents ((pool s)\<lparr>shutdown_flag := option\<rparr>) = contents (pool s)"
    using run_okD(1) [OF ok] by (simp_all add: ring_ok_def contents_def ring_slot_def)
  ultimately show ?thesis
    using wake_ok [OF ok, of "wake_all (workers s)"] assms(2,3) run_okD(2,4) [OF ok] by (auto simp: run_ok_def)
qed

lemma client_step_ok:
  assumes "client_step s s'" and "run_ok s"
  shows "run_ok s'"
  using assms(1)
proof cases
  case (c_add task p ws)
  then show ?thesis using add_run_ok [OF assms(2)] by simp
next
  case (c_refused task e p)
  have "0 < queue_size (pool s)" using assms(2) by (simp add: run_ok_def ring_ok_def)
  then have "p = pool s" using c_refused(3,4) by (simp add: thread_pool_add_eq split: if_splits)
  then show ?thesis using c_refused(1) assms(2) by simp
next
  case (c_destroy option e m p)
  show ?thesis
  proof (cases "shutdown_flag (pool s) = 0")
    case True
    then show ?thesis
      using c_destroy shut_run_ok [OF assms(2) c_destroy(2,3) True] by (auto simp: destroy_begin_def)
  next
    case False
    then have "e \<noteq> 0" "m = Some Client" "p = pool s"
      using c_destroy(4) by (auto simp: destroy_begin_def)
    moreover have "mutex s \<noteq> Some (Worker i)" for i using c_destroy(2) by simp
    ultimately show ?thesis using c_destroy(1,2) assms(2) by (auto simp: run_ok_def)
  qed
qed

lemma pool_step_ok [inv_intros]: "run_ok s \<Longrightarrow> pool_step s s' \<Longrightarrow> run_ok s'"
  using worker_step_ok client_step_ok by (auto simp: pool_step_def)

interpretation pool_sys: invariant_system "\<lambda>s. \<exists>n q. s = start_run n q" pool_step run_ok
  by unfold_locales (auto intro: start_run_ok pool_step_ok)

lemma reachable_ok: "run pool_step (start_run n q) s \<Longrightarrow> run_ok s"
  using pool_sys.reach_inv by blast

section \<open>Properties\<close>

text \<open>
  C5. In every interleaving of workers and clients tasks are started in the order they were
  accepted, none is lost and none runs twice; and the counter \<open>started_\<close> is the number of workers
  that have not exited.
\<close>

theorem tasks_run_in_order:
  assumes "run pool_step (start_run n q) s"
  shows "taken s @ contents (pool s) = submitted s
    \<and> started (pool s) = length (filter (\<lambda>w. w \<noteq> W_Exited) (workers s))"
  using run_okD(2,4) [OF reachable_ok [OF assms]] by blast

text \<open>
  A pool of one worker: the client adds a task, the worker takes it.
\<close>

definition demo_run :: "nat pool_run" where
  "demo_run = start_run 1 2"

lemma demo_run_eq:
  "demo_run = \<lparr>pool = \<lparr>queue = [None, None], thread_count = 1, queue_size = 2, head = 0, tail = 0,
     task_count = 0, shutdown_flag = 0, started = 1\<rparr>, mutex = None, workers = [W_Start],
     submitted = [], taken = []\<rparr>"
  by (simp add: demo_run_def start_run_def thread_pool_create_def static_pool_def MAX_THREADS_def MAX_QUEUE_def
      resize_def numeral_2_eq_2)

definition demo_added :: "nat pool_run" where
  "demo_added = demo_run\<lparr>pool := added 7 (pool demo_run), submitted := [7]\<rparr>"

lemma demo_add_run: "run pool_step (start_run 1 2) demo_added"
proof -
  have "thread_pool_add True True True 7 (pool demo_run) = Inr (0, added 7 (pool demo_run))"
    by (simp add: demo_run_eq thread_pool_add_eq)
  then have "client_step demo_run (demo_run\<lparr>pool := added 7 (pool demo_run), workers := workers demo_run,
      submitted := submitted demo_run @ [7]\<rparr>)"
    by (intro c_add) (simp_all add: demo_run_eq wake_one_def)
  then have "pool_step demo_run demo_added" by (simp add: pool_step_def demo_added_def demo_run_eq)
  then show ?thesis unfolding demo_run_def by (rule run_single)
qed

theorem tasks_run_in_order_witness:
  "taken demo_added @ contents (pool demo_added) = [7]
    \<and> started (pool demo_added) = length (filter (\<lambda>w. w \<noteq> W_Exited) (workers demo_added))"
  using tasks_run_in_order [OF demo_add_run] by (simp add: demo_added_def)

text \<open>
  A step of a worker that needs no spurious wake-up: a worker inside \<open>pthread_cond_wait\<close> comes out of
  it only through the signal or the broadcast of a client.
\<close>

definition awake_step :: "'t pool_run \<Rightarrow> 't pool_run \<Rightarrow> bool" where
  "awake_step s s' \<longleftrightarrow> (\<exists>i. thread_pool_thread i s s' \<and> workers s ! i \<noteq> W_Waiting)"

lemma awake_stepI: "thread_pool_thread i s s' \<Longrightarrow> workers s ! i \<noteq> W_Waiting \<Longrightarrow> awake_step s s'"
  by (auto simp: awake_step_def)

text \<open>A worker that is neither asleep nor gone comes to stand inside the lock, when nobody else does.\<close>

lemma awake_to_locked:
  assumes "i < length (workers s)" and "workers s ! i \<noteq> W_Waiting" and "workers s ! i \<noteq> W_Exited"
    and free: "workers s ! i = W_Locked \<or> mutex s = None"
  shows "\<exists>t. run awake_step s t \<and> i < length (workers t) \<and> workers t ! i = W_Locked
    \<and> pool t = pool s \<and> taken t = taken s"
proof -
  let ?locked = "\<lambda>s. set_worker i W_Locked (Some (Worker i)) s"
  have lock: "\<exists>t. run awake_step s' t \<and> i < length (workers t) \<and> workers t ! i = W_Locked
      \<and> pool t = pool s' \<and> taken t = taken s'"
    if "i < length (workers s')" "workers s' ! i \<in> {W_Start, W_Woken}" "mutex s' = None" for s' :: "'a pool_run"
  proof -
    have "thread_pool_thread i s' (?locked s')" using that w_lock w_relock by blast
    then have "run awake_step s' (?locked s')" using that(2) by (auto intro!: run_single awake_stepI)
    then show ?thesis using that(1) by (intro exI [of _ "?locked s'"]) (simp add: set_worker_def)
  qed
  show ?thesis
  proof (cases "workers s ! i")
    case W_Locked
    then show ?thesis using assms(1) by (intro exI [of _ s]) (simp add: run_refl)
  next
    case (W_Running task)
    let ?s = "set_worker i W_Start (mutex s) s"
    have first: "run awake_step s ?s"
      using w_done [OF assms(1) W_Running] W_Running by (auto intro!: run_single awake_stepI)
    have "i < length (workers ?s)" "workers ?s ! i \<in> {W_Start, W_Woken}" "mutex ?s = None"
      using assms(1) free W_Running by (simp_all add: set_worker_def)
    from lock [OF this] obtain t where t: "run awake_step ?s t" "i < length (workers t)" "workers t ! i = W_Locked"
        "pool t = pool ?s" "taken t = taken ?s" by blast
    moreover have "pool ?s = pool s" "taken ?s = taken s" by (simp_all add: set_worker_def)
    ultimately show ?thesis using run_trans [OF t(1) first] by metis
  qed (use lock [of s] assms in auto)
qed

text \<open>A worker inside the lock that has no reason to wait takes the next task or leaves.\<close>

lemma locked_goes_on:
  assumes ok: "run_ok s" and i: "i < length (workers s)" "workers s ! i = W_Locked"
    and work: "contents (pool s) \<noteq> [] \<or> shutdown_flag (pool s) \<noteq> 0"
  shows "\<exists>t. awake_step s t
    \<and> (contents (pool s) \<noteq> [] \<and> taken t = taken s @ [hd (contents (pool s))]
      \<or> shutdown_flag (pool s) \<noteq> 0 \<and> started (pool t) < started (pool s))"
proof -
  have ready: "\<not> must_wait (pool s)"
    using work run_okD(1) [OF ok] by (auto simp: must_wait_def contents_empty)
  show ?thesis
  proof (cases "must_leave (pool s)")
    case True
    let ?t = "set_worker i W_Exited None (s\<lparr>pool := (pool s)\<lparr>started := started (pool s) - 1\<rparr>\<rparr>)"
    have "W_Locked \<in> set (filter (\<lambda>w. w \<noteq> W_Exited) (workers s))" using i nth_mem [OF i(1)] by simp
    then have "0 < started (pool s)" unfolding run_okD(4) [OF ok] by (rule length_pos_if_in_set)
    moreover have "shutdown_flag (pool s) \<noteq> 0" using True by (auto simp: must_leave_def)
    ultimately show ?thesis
      using awake_stepI [OF w_exit [OF i ready True]] i(2) by (intro exI [of _ ?t]) (simp add: set_worker_def)
  next
    case False
    obtain task p where p: "take_task (pool s) = (task, p)" by fastforce
    let ?t = "set_worker i (W_Running (the task)) None (s\<lparr>pool := p, taken := taken s @ [the task]\<rparr>)"
    have "shutdown_flag (pool s) \<in> {0, immediate_shutdown, graceful_shutdown}" using ok by (simp add: run_ok_def)
    then have n: "task_count (pool s) \<noteq> 0" using ready False by (auto simp: must_wait_def must_leave_def)
    have "contents (pool s) = the task # contents p" using take_contents [OF run_okD(1) [OF ok] n] p by simp
    then show ?thesis
      using awake_stepI [OF w_take [OF i ready False p]] i(2) by (intro exI [of _ ?t]) (simp add: set_worker_def)
  qed
qed

lemma awake_worker_goes_on:
  assumes ok: "run_ok s" and w: "w \<in> set (workers s)" "w \<noteq> W_Waiting" "w \<noteq> W_Exited" and "mutex s \<noteq> Some Client"
    and work: "contents (pool s) \<noteq> [] \<or> shutdown_flag (pool s) \<noteq> 0"
  shows "\<exists>t. run awake_step s t
    \<and> (contents (pool s) \<noteq> [] \<and> taken t = taken s @ [hd (contents (pool s))]
      \<or> shutdown_flag (pool s) \<noteq> 0 \<and> started (pool t) < started (pool s))"
proof -
  obtain i where i: "i < length (workers s)" "workers s ! i \<noteq> W_Waiting" "workers s ! i \<noteq> W_Exited"
      "workers s ! i = W_Locked \<or> mutex s = None"
  proof (cases "mutex s")
    case None
    then show thesis using that w by (metis in_set_conv_nth)
  next
    case (Some h)
    then obtain j where "mutex s = Some (Worker j)" using assms(5) by (cases h) auto
    then show thesis using that run_okD(3) [OF ok] by fastforce
  qed
  obtain t where t: "run awake_step s t" "i < length (workers t)" "workers t ! i = W_Locked"
      "pool t = pool s" "taken t = taken s"
    using awake_to_locked [OF i] by blast
  have "run pool_step s t"
    using t(1) by (induction rule: run.induct) (auto simp: pool_step_def awake_step_def intro: run.intros)
  then have "run_ok t" using ok by (rule pool_sys.run_inv)
  from locked_goes_on [OF this t(2,3)] show ?thesis using work t(1,4,5) run_step by metis
qed

text \<open>
  C24. There is no lost wake-up and no deadlock among the workers, even where a waiting thread is never
  woken without a signal: in every state that workers and clients reach, unless a client has kept the
  mutex, as long as a task is queued, or the pool is being shut down and a worker is left, the workers
  alone can go on, without a spurious wake-up and without a further call of a client, until the oldest
  queued task is started or, after a shutdown, a worker has left.
\<close>

theorem no_lost_wakeup:
  assumes "run pool_step (start_run n q) s" and "mutex s \<noteq> Some Client"
    and "(contents (pool s) \<noteq> [] \<and> shutdown_flag (pool s) = 0)
      \<or> (shutdown_flag (pool s) \<noteq> 0 \<and> started (pool s) > 0)"
  shows "\<exists>s'. run awake_step s s'
    \<and> (contents (pool s) \<noteq> [] \<and> taken s' = taken s @ [hd (contents (pool s))]
      \<or> shutdown_flag (pool s) \<noteq> 0 \<and> started (pool s') < started (pool s))"
proof -
  have ok: "run_ok s" using reachable_ok assms(1) .
  have "\<exists>w \<in> set (workers s). w \<noteq> W_Waiting \<and> w \<noteq> W_Exited"
    using assms(3)
  proof
    assume "contents (pool s) \<noteq> [] \<and> shutdown_flag (pool s) = 0"
    then show ?thesis using ok by (auto simp: run_ok_def contents_empty)
  next
    assume down: "shutdown_flag (pool s) \<noteq> 0 \<and> started (pool s) > 0"
    then obtain w where "w \<in> set (workers s)" "w \<noteq> W_Exited"
      using run_okD(4) [OF ok] by (auto dest: length_pos_if_in_set simp: filter_empty_conv)
    then show ?thesis using run_okD(5) [OF ok] down by metis
  qed
  then show ?thesis using awake_worker_goes_on [OF ok] assms(2,3) by blast
qed

text \<open>The only worker sleeps when the task comes: the signal wakes it.\<close>

definition demo_sleeping :: "nat pool_run" where
  "demo_sleeping = demo_run\<lparr>workers := [W_Waiting]\<rparr>"

definition demo_signalled :: "nat pool_run" where
  "demo_signalled = demo_run\<lparr>pool := added 7 (pool demo_run), workers := [W_Woken], submitted := [7]\<rparr>"

lemma demo_signal_run: "run pool_step (start_run 1 2) demo_signalled"
proof -
  let ?l = "set_worker 0 W_Locked (Some (Worker 0)) demo_run"
  have "thread_pool_thread 0 demo_run ?l" by (rule w_lock) (simp_all add: demo_run_eq)
  then have 1: "pool_step demo_run ?l" by (auto simp: pool_step_def)
  have "thread_pool_thread 0 ?l (set_worker 0 W_Waiting None ?l)"
    by (rule w_wait) (simp_all add: demo_run_eq set_worker_def must_wait_def)
  moreover have "set_worker 0 W_Waiting None ?l = demo_sleeping"
    by (simp add: demo_run_eq set_worker_def demo_sleeping_def)
  ultimately have 2: "pool_step ?l demo_sleeping" by (auto simp: pool_step_def)
  have "thread_pool_add True True True 7 (pool demo_sleeping) = Inr (0, added 7 (pool demo_run))"
    by (simp add: demo_run_eq demo_sleeping_def thread_pool_add_eq)
  moreover have "wake_one (workers demo_sleeping) [W_Woken]"
    by (simp add: demo_sleeping_def wake_one_def)
  ultimately have "client_step demo_sleeping (demo_sleeping\<lparr>pool := added 7 (pool demo_run), workers := [W_Woken],
      submitted := submitted demo_sleeping @ [7]\<rparr>)"
    by (intro c_add) (simp_all add: demo_sleeping_def demo_run_eq)
  then have 3: "pool_step demo_sleeping demo_signalled"
    by (simp add: pool_step_def demo_signalled_def demo_sleeping_def demo_run_eq)
  from run_step [OF run_step [OF run_single [of pool_step, OF 1] 2] 3] show ?thesis by (simp add: demo_run_def)
qed

theorem no_lost_wakeup_witness: "\<exists>s'. run awake_step demo_signalled s' \<and> taken s' = [7]"
proof -
  have "contents (pool demo_signalled) = [7]" "shutdown_flag (pool demo_signalled) = 0"
      "mutex demo_signalled \<noteq> Some Client" "taken demo_signalled = []"
    by (simp_all add: demo_signalled_def demo_run_eq added_def contents_def ring_slot_def)
  then show ?thesis using no_lost_wakeup [OF demo_signal_run] by simp
qed

text \<open>
  C25. A graceful shutdown drains the queue: when a worker has left, every accepted task has been
  started, and no task is accepted any more.
\<close>

theorem graceful_shutdown_drains:
  assumes "run pool_step (start_run n q) s" and "W_Exited \<in> set (workers s)"
    and "shutdown_flag (pool s) = graceful_shutdown"
  shows "taken s = submitted s \<and> thread_pool_add True True True task (pool s) = Inr (- 4, pool s)"
proof -
  have ok: "run_ok s" using reachable_ok assms(1) .
  then have n: "task_count (pool s) = 0" and pos: "0 < queue_size (pool s)"
    using assms(2,3) by (auto simp: run_ok_def ring_ok_def)
  then have "contents (pool s) = []" by (simp add: contents_empty)
  then show ?thesis using run_okD(2) [OF ok] n pos assms(3) by (simp add: thread_pool_add_eq)
qed

definition demo_shut :: "nat pool_run" where
  "demo_shut = demo_run\<lparr>pool := (pool demo_run)\<lparr>shutdown_flag := graceful_shutdown\<rparr>\<rparr>"

definition demo_locked :: "nat pool_run" where
  "demo_locked = set_worker 0 W_Locked (Some (Worker 0)) demo_shut"

definition demo_exited :: "nat pool_run" where
  "demo_exited = set_worker 0 W_Exited None
     (demo_locked\<lparr>pool := (pool demo_locked)\<lparr>started := started (pool demo_locked) - 1\<rparr>\<rparr>)"

lemma demo_exit_run: "run pool_step (start_run 1 2) demo_exited"
proof -
  have "client_step demo_run (demo_run\<lparr>pool := pool demo_shut, mutex := None,
      workers := (if (0::int) = 0 then wake_all (workers demo_run) else workers demo_run)\<rparr>)"
    by (rule c_destroy [where option = graceful_shutdown])
      (simp_all add: demo_run_eq demo_shut_def destroy_begin_def)
  then have 1: "pool_step demo_run demo_shut"
    by (simp add: pool_step_def demo_shut_def demo_run_eq wake_all_def)
  have "thread_pool_thread 0 demo_shut demo_locked"
    unfolding demo_locked_def by (rule w_lock) (simp_all add: demo_shut_def demo_run_eq)
  then have 2: "pool_step demo_shut demo_locked" by (auto simp: pool_step_def)
  have "thread_pool_thread 0 demo_locked demo_exited"
    unfolding demo_exited_def
    by (rule w_exit) (simp_all add: demo_locked_def set_worker_def demo_shut_def demo_run_eq must_wait_def must_leave_def)
  then have 3: "pool_step demo_locked demo_exited" by (auto simp: pool_step_def)
  from run_step [OF run_step [OF run_single [of pool_step, OF 1] 2] 3] show ?thesis by (simp add: demo_run_def)
qed

theorem graceful_shutdown_drains_witness:
  "taken demo_exited = submitted demo_exited
    \<and> thread_pool_add True True True 9 (pool demo_exited) = Inr (- 4, pool demo_exited)"
  by (rule graceful_shutdown_drains [OF demo_exit_run])
    (simp_all add: demo_exited_def demo_locked_def set_worker_def demo_shut_def demo_run_eq)

text \<open>
  \<open>thread_pool_destory\<close> never returns success: once every worker has exited and been joined,
  no thread is counted as started, so \<open>thread_pool_free\<close> goes on to lock the mutex twice and waits
  for itself for ever.
\<close>

theorem destroy_never_succeeds:
  assumes "run pool_step (start_run n q) s" and "\<forall>w \<in> set (workers s). w = W_Exited"
  shows "destroy_end Client joins (mutex s) (pool s) \<noteq> Some (0, m)
    \<and> (list_all (\<lambda>join_ok. join_ok) joins \<longrightarrow> destroy_end Client joins (mutex s) (pool s) = None)"
proof -
  have "started (pool s) = 0"
    using run_okD(4) [OF reachable_ok [OF assms(1)]] assms(2) by (simp add: filter_False)
  then have "thread_pool_free Client (mutex s) (pool s) = None"
    by (cases "mutex s") (simp_all add: thread_pool_free_def lock_mutex_def)
  then show ?thesis by (simp add: destroy_end_def)
qed

theorem destroy_never_succeeds_witness:
  "destroy_end Client [True] (mutex demo_exited) (pool demo_exited) = None"
  using destroy_never_succeeds [OF demo_exit_run, where joins = "[True]"]
  by (simp add: demo_exited_def demo_locked_def set_worker_def demo_shut_def demo_run_eq)

text \<open>
  A second \<open>thread_pool_destory\<close> finds the flag set, returns \<open>THREADPOOL_SHUTDOWN\<close> and keeps
  the mutex: from then on no task is ever started and no worker ever exits, so the first call,
  which waits for the workers, does not return either.
\<close>

theorem second_destroy_blocks:
  assumes "mutex s = Some Client" and "run_ok s" and "run pool_step s s'"
  shows "mutex s' = Some Client \<and> taken s' = taken s \<and> started (pool s') = started (pool s)"
proof -
  have "run_ok s' \<and> mutex s' = Some Client \<and> taken s' = taken s \<and> started (pool s') = started (pool s)"
    using assms(3,1,2)
  proof (induction rule: run.induct)
    case (run_step s t u)
    then have t: "run_ok t" "mutex t = Some Client" "taken t = taken s" "started (pool t) = started (pool s)" by auto
    have unlocked: "workers t ! i \<noteq> W_Locked" if "i < length (workers t)" for i
      using run_okD(3) [OF t(1), of i] t(2) that by simp
    have "mutex u = Some Client \<and> taken u = taken t \<and> started (pool u) = started (pool t)"
      using run_step(2) unfolding pool_step_def
    proof
      assume "\<exists>i. thread_pool_thread i t u"
      then obtain i where "thread_pool_thread i t u" by blast
      then show ?thesis using t(2) unlocked by cases (simp_all add: set_worker_def)
    next
      assume "client_step t u"
      then show ?thesis using t(2) by cases simp_all
    qed
    then show ?case using t pool_step_ok [OF t(1) run_step(2)] by simp
  qed simp
  then show ?thesis by blast
qed

definition demo_blocked :: "nat pool_run" where
  "demo_blocked = demo_shut\<lparr>mutex := Some Client\<rparr>"

theorem second_destroy_blocks_witness:
  "fst (snd (destroy_begin Client True True graceful_shutdown (pool demo_shut))) = Some Client
    \<and> (\<forall>s'. run pool_step demo_blocked s' \<longrightarrow> taken s' = [])"
proof -
  have "0 < i \<or> [W_Start] ! i \<noteq> (W_Locked :: nat worker)" for i by (cases i) simp_all
  then have "run_ok demo_blocked"
    by (simp add: demo_blocked_def demo_shut_def demo_run_eq run_ok_def ring_ok_def ring_slot_def contents_def)
  moreover have "mutex demo_blocked = Some Client" "taken demo_blocked = []"
    by (simp_all add: demo_blocked_def demo_shut_def demo_run_eq)
  ultimately show ?thesis
    using second_destroy_blocks [of demo_blocked] by (auto simp: destroy_begin_def demo_shut_def)
qed

end
