(* ===== verification/Log_Buffer.thy ===== *)
theory Log_Buffer
  imports Prelude Cpp_String "HOL-Library.Signed_Division"
begin

text \<open>
  \<open>include/Log/LogBuffer.h\<close> and the class \<open>LogStream\<close> of \<open>include/Log/Logging.h\<close> and
  \<open>Logging.cpp\<close>: a buffer of fixed size that drops what does not fit, the conversion of integers to
  decimal text in place, and the insertion operators. A new buffer is not initialised: its first
  contents are an argument. The declaration \<open>char data_(SIZE)\<close> is read as the array it means.
  A \<open>double\<close> is abstract, its text under \<open>%.12g\<close> an argument (\<open>snprintf\<close> of the C library).
\<close>

section \<open>The buffer\<close>

record log_buffer =
  buf_data :: string
  buf_cur :: nat

definition small_buffer :: nat where
  "small_buffer = 4096"

definition new_log_buffer :: "string \<Rightarrow> log_buffer" where
  "new_log_buffer garbage = \<lparr>buf_data = garbage, buf_cur = 0\<rparr>"

definition get_length :: "log_buffer \<Rightarrow> int" where
  "get_length b = to_int32 (int (buf_cur b))"

definition get_available_size :: "log_buffer \<Rightarrow> int" where
  "get_available_size b = to_int32 (int (length (buf_data b)) - int (buf_cur b))"

text \<open>
  \<open>append(const char*, size_t)\<close> reads \<open>len\<close> characters at \<open>src\<close>. The length is narrowed to \<open>int\<close>
  in the comparison.
\<close>

definition buffer_append :: "log_buffer \<Rightarrow> string \<Rightarrow> nat \<Rightarrow> log_buffer result" where
  "buffer_append b src len =
     (if get_available_size b > to_int32 (int len) then
        if length src < len then Inl Undefined_Behaviour
        else bind_result (mem_write (buf_data b) (buf_cur b) (take len src)) (\<lambda>data.
          Inr (b\<lparr>buf_data := data, buf_cur := buf_cur b + len\<rparr>))
      else Inr b)"

text \<open>\<open>add\<close>: a pointer further than one past the end is undefined.\<close>

definition buffer_add :: "log_buffer \<Rightarrow> nat \<Rightarrow> log_buffer result" where
  "buffer_add b len =
     (if buf_cur b + len \<le> length (buf_data b) then Inr (b\<lparr>buf_cur := buf_cur b + len\<rparr>) else Inl Undefined_Behaviour)"

definition set_zeros :: "log_buffer \<Rightarrow> log_buffer" where
  "set_zeros b = b\<lparr>buf_data := replicate (length (buf_data b)) (CHR 0x00)\<rparr>"

definition buffer_reset :: "log_buffer \<Rightarrow> log_buffer" where
  "buffer_reset b = (set_zeros b)\<lparr>buf_cur := 0\<rparr>"

section \<open>Integers to text\<close>

definition digits :: string where
  "digits = ''9876543210123456789''"

text \<open>\<open>zero\<close> points at \<open>digits + 9\<close>, and the remainder of a negative number is negative or 0.\<close>

definition zero_digit :: "int \<Rightarrow> char result" where
  "zero_digit digit =
     (if 0 \<le> 9 + digit \<and> 9 + digit < int (length digits) then Inr (digits ! nat (9 + digit))
      else Inl Undefined_Behaviour)"

lemma sdiv_10: "(num :: int) sdiv 10 = (if num < 0 then - (\<bar>num\<bar> div 10) else \<bar>num\<bar> div 10)"
  by (auto simp: signed_divide_int_def sgn_if)

lemma sdiv_10_smaller: "(num :: int) sdiv 10 \<noteq> 0 \<Longrightarrow> nat \<bar>num sdiv 10\<bar> < nat \<bar>num\<bar>"
  using int_div_less_self [of "\<bar>num\<bar>" 10] by (auto simp: sdiv_10 split: if_splits)

text \<open>
  The loop of \<open>convert\<close>: \<open>%\<close> and \<open>/\<close> of C++ truncate towards zero. The characters written from
  \<open>buffer\<close> up to \<open>cur\<close> are the accumulator.
\<close>

function convert_loop :: "int \<Rightarrow> string \<Rightarrow> string result" where
  "convert_loop num written =
     (case zero_digit (num smod 10) of
        Inl f \<Rightarrow> Inl f
      | Inr c \<Rightarrow>
          if num sdiv 10 \<noteq> 0 then convert_loop (num sdiv 10) (written @ [c]) else Inr (written @ [c]))"
  by pat_completeness auto

termination
  by (relation "measure (\<lambda>(num, written). nat \<bar>num\<bar>)") (use sdiv_10_smaller in auto)

declare convert_loop.simps [simp del]

text \<open>
  \<open>convert\<close> for any integral type, whose values are integers here: every intermediate value is in
  the range of the type. The terminating null is written behind the reversed text.
\<close>

definition convert :: "int \<Rightarrow> string result" where
  "convert v =
     bind_result (convert_loop v []) (\<lambda>written.
       Inr (rev (if v < 0 then written @ ''-'' else written)))"

definition max_digit_size :: int where
  "max_digit_size = 32"

definition fromat_integer :: "log_buffer \<Rightarrow> int \<Rightarrow> log_buffer result" where
  "fromat_integer b v =
     (if get_available_size b \<ge> max_digit_size then
        bind_result (convert v) (\<lambda>tx.
          bind_result (mem_write (buf_data b) (buf_cur b) (tx @ [CHR 0x00])) (\<lambda>data.
            buffer_add (b\<lparr>buf_data := data\<rparr>) (length tx)))
      else Inr b)"

section \<open>The insertion operators\<close>

text \<open>A C string is what a valid pointer leads to, up to its null.\<close>

definition put_bool :: "log_buffer \<Rightarrow> bool \<Rightarrow> log_buffer result" where
  "put_bool b v = buffer_append b (if v then ''1'' else ''0'') 1"

definition put_int :: "log_buffer \<Rightarrow> 32 word \<Rightarrow> log_buffer result" where
  "put_int b v = fromat_integer b (sint v)"

definition put_unsigned_int :: "log_buffer \<Rightarrow> 32 word \<Rightarrow> log_buffer result" where
  "put_unsigned_int b v = fromat_integer b (uint v)"

definition put_short :: "log_buffer \<Rightarrow> 16 word \<Rightarrow> log_buffer result" where
  "put_short b v = put_int b (scast v)"

definition put_unsigned_short :: "log_buffer \<Rightarrow> 16 word \<Rightarrow> log_buffer result" where
  "put_unsigned_short b v = put_unsigned_int b (ucast v)"

definition put_long :: "log_buffer \<Rightarrow> 64 word \<Rightarrow> log_buffer result" where
  "put_long b v = fromat_integer b (sint v)"

definition put_unsigned_long :: "log_buffer \<Rightarrow> 64 word \<Rightarrow> log_buffer result" where
  "put_unsigned_long b v = fromat_integer b (uint v)"

definition put_long_long :: "log_buffer \<Rightarrow> 64 word \<Rightarrow> log_buffer result" where
  "put_long_long b v = fromat_integer b (sint v)"

definition put_unsigned_long_long :: "log_buffer \<Rightarrow> 64 word \<Rightarrow> log_buffer result" where
  "put_unsigned_long_long b v = fromat_integer b (uint v)"

text \<open>
  \<open>snprintf\<close> with the size \<open>max_digit_size\<close> writes at most 31 characters and a null, and returns the
  length of the whole text.
\<close>

definition put_double :: "('d \<Rightarrow> string) \<Rightarrow> log_buffer \<Rightarrow> 'd \<Rightarrow> log_buffer result" where
  "put_double fmt b v =
     (if get_available_size b \<ge> max_digit_size then
        bind_result (mem_write (buf_data b) (buf_cur b) (take 31 (fmt v) @ [CHR 0x00])) (\<lambda>data.
          buffer_add (b\<lparr>buf_data := data\<rparr>) (length (fmt v)))
      else Inr b)"

definition put_float :: "('d \<Rightarrow> string) \<Rightarrow> ('f \<Rightarrow> 'd) \<Rightarrow> log_buffer \<Rightarrow> 'f \<Rightarrow> log_buffer result" where
  "put_float fmt widen b v = put_double fmt b (widen v)"

text \<open>\<open>%.12lg\<close> reads a \<open>double\<close>; a \<open>long double\<close> argument does not match it.\<close>

definition put_long_double :: "log_buffer \<Rightarrow> log_buffer result" where
  "put_long_double b = (if get_available_size b \<ge> max_digit_size then Inl Undefined_Behaviour else Inr b)"

definition put_char :: "log_buffer \<Rightarrow> char \<Rightarrow> log_buffer result" where
  "put_char b v = buffer_append b [v] 1"

definition put_cstr :: "log_buffer \<Rightarrow> string option \<Rightarrow> log_buffer result" where
  "put_cstr b str =
     (case str of
        Some s \<Rightarrow> buffer_append b s (length s)
      | None \<Rightarrow> buffer_append b ''_null_'' 6)"

definition put_unsigned_cstr :: "log_buffer \<Rightarrow> string option \<Rightarrow> log_buffer result" where
  "put_unsigned_cstr b str = put_cstr b str"

definition put_string :: "log_buffer \<Rightarrow> string \<Rightarrow> log_buffer result" where
  "put_string b v = buffer_append b v (length v)"

definition stream_append :: "log_buffer \<Rightarrow> string \<Rightarrow> int \<Rightarrow> log_buffer result" where
  "stream_append b log_line len = buffer_append b log_line (int_to_size len)"

definition reset_buffer :: "log_buffer \<Rightarrow> log_buffer" where
  "reset_buffer b = buffer_reset b"

section \<open>Decimal text\<close>

text \<open>The value of a decimal numeral, read from the left.\<close>

definition char_value :: "char \<Rightarrow> int" where
  "char_value c = int (of_char c) - 48"

definition decimal_nat :: "string \<Rightarrow> int" where
  "decimal_nat s = foldl (\<lambda>n c. 10 * n + char_value c) 0 s"

definition decimal_value :: "string \<Rightarrow> int" where
  "decimal_value s =
     (case s of c # s' \<Rightarrow> if c = CHR ''-'' then - decimal_nat s' else decimal_nat s | [] \<Rightarrow> 0)"

definition is_digit :: "char \<Rightarrow> bool" where
  "is_digit c \<longleftrightarrow> c \<in> set ''0123456789''"

lemma decimal_nat_snoc [simp]: "decimal_nat (s @ [c]) = 10 * decimal_nat s + char_value c"
  by (simp add: decimal_nat_def)

lemma smod_10: "(num :: int) smod 10 = (if num < 0 then - (\<bar>num\<bar> mod 10) else \<bar>num\<bar> mod 10)"
  by (auto simp: signed_modulo_int_def sgn_if)

lemma less_10_cases:
  fixes d :: int
  assumes "0 \<le> d" and "d < 10"
  obtains "d = 0" | "d = 1" | "d = 2" | "d = 3" | "d = 4" | "d = 5" | "d = 6" | "d = 7" | "d = 8" | "d = 9"
proof -
  have "d = 0 \<or> d = 1 \<or> d = 2 \<or> d = 3 \<or> d = 4 \<or> d = 5 \<or> d = 6 \<or> d = 7 \<or> d = 8 \<or> d = 9"
    using assms by presburger
  then show thesis using that by blast
qed

lemma zero_digit_char:
  assumes "\<bar>d\<bar> < 10"
  shows "\<exists>c. zero_digit d = Inr c \<and> zero_digit \<bar>d\<bar> = Inr c \<and> is_digit c \<and> char_value c = \<bar>d\<bar>"
proof -
  have "0 \<le> \<bar>d\<bar>" "\<bar>d\<bar> < 10" using assms by simp_all
  moreover have "d = \<bar>d\<bar> \<or> d = - \<bar>d\<bar>" by linarith
  ultimately show ?thesis
    by (elim less_10_cases disjE)
       (simp_all add: zero_digit_def digits_def is_digit_def char_value_def)
qed

text \<open>The characters come least significant first.\<close>

lemma convert_loop_text:
  "\<exists>ds. convert_loop num written = Inr (written @ ds) \<and> decimal_nat (rev ds) = \<bar>num\<bar> \<and> ds \<noteq> []
    \<and> list_all is_digit ds \<and> (num \<noteq> 0 \<longrightarrow> last ds \<noteq> CHR ''0'') \<and> (\<forall>k>0. \<bar>num\<bar> < 10 ^ k \<longrightarrow> length ds \<le> k)"
proof (induction num written rule: convert_loop.induct)
  case (1 num written)
  have d: "\<bar>num smod 10\<bar> = \<bar>num\<bar> mod 10" by (simp add: smod_10)
  then obtain c where c: "zero_digit (num smod 10) = Inr c" "is_digit c" "char_value c = \<bar>num\<bar> mod 10"
    using zero_digit_char [of "num smod 10"] by auto
  have q: "\<bar>num sdiv 10\<bar> = \<bar>num\<bar> div 10" by (simp add: sdiv_10)
  show ?case
  proof (cases "num sdiv 10 = 0")
    case True
    then have small: "\<bar>num\<bar> < 10" using q by (auto simp: zdiv_eq_0_iff)
    have "c \<noteq> CHR ''0''" if "num \<noteq> 0"
      using c(3) small that by (auto simp: char_value_def)
    then show ?thesis using True c small
      by (intro exI [of _ "[c]"]) (simp add: convert_loop.simps decimal_nat_def)
  next
    case False
    then obtain ds where ds: "convert_loop (num sdiv 10) (written @ [c]) = Inr ((written @ [c]) @ ds)"
        "decimal_nat (rev ds) = \<bar>num\<bar> div 10" "ds \<noteq> []" "list_all is_digit ds" "last ds \<noteq> CHR ''0''"
        "\<forall>k>0. \<bar>num\<bar> div 10 < 10 ^ k \<longrightarrow> length ds \<le> k"
      using 1 [OF c(1) False] q by auto
    have "length (c # ds) \<le> k" if k: "0 < k" "\<bar>num\<bar> < 10 ^ k" for k
    proof -
      have "1 \<le> \<bar>num\<bar> div 10" using False q by linarith
      then have "k \<noteq> 1" using k by (auto simp: zdiv_eq_0_iff)
      then obtain k' where k': "k = Suc k'" "0 < k'" using k(1) by (cases k) auto
      then have "\<bar>num\<bar> div 10 < 10 ^ k'" using k(2) by (simp add: div_less_iff_less_mult)
      then show ?thesis using ds(6) k' by simp
    qed
    then show ?thesis using False c ds
      by (intro exI [of _ "c # ds"]) (simp add: convert_loop.simps)
  qed
qed

lemma digit_not_minus: "is_digit c \<Longrightarrow> c \<noteq> CHR ''-''"
  by (auto simp: is_digit_def)

lemma convert_numeral:
  "\<exists>ds. convert v = Inr ((if v < 0 then ''-'' else []) @ ds) \<and> ds \<noteq> [] \<and> list_all is_digit ds
    \<and> (hd ds = CHR ''0'' \<longrightarrow> ds = ''0'') \<and> decimal_value ((if v < 0 then ''-'' else []) @ ds) = v
    \<and> (\<forall>k>0. \<bar>v\<bar> < 10 ^ k \<longrightarrow> length ds \<le> k)"
proof -
  obtain ds where ds: "convert_loop v [] = Inr ds" "decimal_nat (rev ds) = \<bar>v\<bar>" "ds \<noteq> []" "list_all is_digit ds"
      "v \<noteq> 0 \<longrightarrow> last ds \<noteq> CHR ''0''" "\<forall>k>0. \<bar>v\<bar> < 10 ^ k \<longrightarrow> length ds \<le> k"
    using convert_loop_text [of v "[]"] by auto
  have "last ds \<noteq> CHR ''-''" using ds(3,4) digit_not_minus by (metis last_in_set list.pred_set)
  moreover obtain c cs where "rev ds = c # cs" "c = last ds"
    using ds(3) by (metis hd_rev list.collapse rev_is_Nil_conv)
  ultimately have "decimal_value (rev ds) = decimal_nat (rev ds)"
    by (simp add: decimal_value_def del: rev_eq_Cons_iff)
  then have dec: "decimal_value ((if v < 0 then ''-'' else []) @ rev ds) = v"
    using ds(2) by (cases "v < 0") (simp_all add: decimal_value_def [of "CHR ''-'' # rev ds"])
  have zero: "rev ds = ''0''" if "hd (rev ds) = CHR ''0''"
  proof -
    have l: "last ds = CHR ''0''" using that ds(3) by (simp add: hd_rev)
    then have "v = 0" using ds(5) by blast
    then have "length ds \<le> 1" using ds(6) [rule_format, of 1] by simp
    then show ?thesis using ds(3) l by (cases ds) auto
  qed
  have "convert v = Inr ((if v < 0 then ''-'' else []) @ rev ds)" using ds(1) by (simp add: convert_def)
  moreover have "list_all is_digit (rev ds)" using ds(4) by (simp add: list.pred_set)
  moreover have "rev ds \<noteq> []" "\<forall>k>0. \<bar>v\<bar> < 10 ^ k \<longrightarrow> length (rev ds) \<le> k" using ds(3,6) by simp_all
  ultimately show ?thesis using dec zero by blast
qed

text \<open>A value of an integral type of at most 64 bits.\<close>

lemma convert_short:
  "\<exists>ds. convert v = Inr ((if v < 0 then ''-'' else []) @ ds) \<and> ds \<noteq> [] \<and> list_all is_digit ds
    \<and> (hd ds = CHR ''0'' \<longrightarrow> ds = ''0'') \<and> decimal_value ((if v < 0 then ''-'' else []) @ ds) = v
    \<and> (- (2 ^ 63) \<le> v \<and> v < 2 ^ 64 \<longrightarrow> length ((if v < 0 then ''-'' else []) @ ds) \<le> 20)"
proof -
  obtain ds where ds: "convert v = Inr ((if v < 0 then ''-'' else []) @ ds) \<and> ds \<noteq> [] \<and> list_all is_digit ds
      \<and> (hd ds = CHR ''0'' \<longrightarrow> ds = ''0'') \<and> decimal_value ((if v < 0 then ''-'' else []) @ ds) = v"
      "\<forall>k>0. \<bar>v\<bar> < 10 ^ k \<longrightarrow> length ds \<le> k"
    using convert_numeral [of v] by auto
  have "length ((if v < 0 then ''-'' else []) @ ds) \<le> 20" if "- (2 ^ 63) \<le> v" "v < 2 ^ 64"
  proof (cases "v < 0")
    case True
    then have "\<bar>v\<bar> < 10 ^ 19" using that by simp
    then show ?thesis using ds(2) [rule_format, of 19] True by simp
  next
    case False
    then have "\<bar>v\<bar> < 10 ^ 20" using that by simp
    then show ?thesis using ds(2) [rule_format, of 20] False by simp
  qed
  then show ?thesis using ds(1) by blast
qed

lemma convert_value:
  "\<exists>tx. convert v = Inr tx \<and> (- (2 ^ 63) \<le> v \<and> v < 2 ^ 64 \<longrightarrow> length tx \<le> 20)"
  using convert_short [of v] by blast

text \<open>
  C26. Converting an integer to text loses nothing: \<open>convert\<close> ends, reads only digits of its table and
  gives a decimal numeral, a minus sign for a negative value and then at least one character, all of
  them digits from 0 to 9 and the first of them 0 only in the text of zero itself. The value of the
  numeral is the integer, and for every value of a 64-bit type, signed or unsigned, it has at most 20
  characters, so it fits with its null into the 32 characters that the insertion operators ask for.
\<close>

theorem convert_round_trip:
  "\<exists>ds. convert v = Inr ((if v < 0 then ''-'' else []) @ ds) \<and> ds \<noteq> [] \<and> list_all is_digit ds
    \<and> (hd ds = CHR ''0'' \<longrightarrow> ds = ''0'') \<and> decimal_value ((if v < 0 then ''-'' else []) @ ds) = v
    \<and> (- (2 ^ 63) \<le> v \<and> v < 2 ^ 64 \<longrightarrow> length ((if v < 0 then ''-'' else []) @ ds) \<le> 20)"
  by (rule convert_short)

theorem convert_round_trip_witness:
  "\<exists>ds. convert (- 9223372036854775808) = Inr (''-'' @ ds) \<and> list_all is_digit ds \<and> ds \<noteq> [] \<and> hd ds \<noteq> CHR ''0''
    \<and> decimal_value (''-'' @ ds) = - 9223372036854775808 \<and> length (''-'' @ ds) \<le> 20"
proof -
  obtain ds where ds: "convert (- 9223372036854775808) = Inr (''-'' @ ds)" "ds \<noteq> []" "list_all is_digit ds"
      "hd ds = CHR ''0'' \<longrightarrow> ds = ''0''" "decimal_value (''-'' @ ds) = - 9223372036854775808"
      "length (''-'' @ ds) \<le> 20"
    using convert_round_trip [of "- 9223372036854775808"] by auto
  have "decimal_value (''-'' @ ''0'') = 0" by code_simp
  then have "ds \<noteq> ''0''" using ds(5) by auto
  then show ?thesis using ds by auto
qed

section \<open>Bounded text\<close>

text \<open>The text a buffer holds, and the invariant of a buffer of a stream.\<close>

definition buffer_text :: "log_buffer \<Rightarrow> string" where
  "buffer_text b = take (buf_cur b) (buf_data b)"

definition buffer_ok :: "log_buffer \<Rightarrow> bool" where
  "buffer_ok b \<longleftrightarrow> length (buf_data b) = small_buffer \<and> buf_cur b < small_buffer"

lemma buffer_text_length [simp]: "buffer_ok b \<Longrightarrow> length (buffer_text b) = buf_cur b"
  by (simp add: buffer_ok_def buffer_text_def)

lemma available_size: "buffer_ok b \<Longrightarrow> get_available_size b = 4096 - int (buf_cur b)"
  by (simp add: get_available_size_def buffer_ok_def small_buffer_def to_int32_small)

lemma write_text:
  assumes "buffer_ok b" and "mem_write (buf_data b) (buf_cur b) bs = Inr d" and "n \<le> length bs"
    and "buf_cur b + n < small_buffer"
  shows "buffer_ok (b\<lparr>buf_data := d, buf_cur := buf_cur b + n\<rparr>)
    \<and> buffer_text (b\<lparr>buf_data := d, buf_cur := buf_cur b + n\<rparr>) = buffer_text b @ take n bs"
  using assms mem_write_length [OF assms(2)] mem_write_prefix [OF assms(2,3)]
  by (simp add: buffer_ok_def buffer_text_def)

lemma buffer_append_fits:
  assumes "buffer_ok b" and "length (buffer_text b) + length s < small_buffer"
  shows "\<exists>b'. buffer_append b s (length s) = Inr b' \<and> buffer_ok b' \<and> buffer_text b' = buffer_text b @ s"
proof -
  have room: "buf_cur b + length s < small_buffer" using assms by simp
  then obtain d where d: "mem_write (buf_data b) (buf_cur b) s = Inr d"
    using assms(1) mem_write_ok [of "buf_cur b" s "buf_data b"] by (auto simp: buffer_ok_def)
  have "to_int32 (int (length s)) = int (length s)"
    using room by (intro to_int32_small) (simp_all add: small_buffer_def)
  then show ?thesis
    using room write_text [OF assms(1) d order_refl room] d
    by (simp add: buffer_append_def available_size [OF assms(1)] small_buffer_def)
qed

lemma buffer_append_full:
  assumes "buffer_ok b" and "small_buffer \<le> length (buffer_text b) + length s" and "length s < 2 ^ 31"
  shows "buffer_append b s (length s) = Inr b"
proof -
  have "to_int32 (int (length s)) = int (length s)"
    using assms(3) by (intro to_int32_small) simp_all
  then show ?thesis
    using assms(1,2) by (simp add: buffer_append_def available_size [OF assms(1)] small_buffer_def)
qed

text \<open>
  The interface a client of a bounded sink of text relies on: what fits is appended, what does not is
  dropped as a whole.
\<close>

locale bounded_text =
  fixes add_text :: "'b \<Rightarrow> string \<Rightarrow> 'b result"
    and text_of :: "'b \<Rightarrow> string"
    and good :: "'b \<Rightarrow> bool"
    and capacity :: nat
    and longest :: nat
  assumes add_fits: "good b \<Longrightarrow> length (text_of b) + length s < capacity \<Longrightarrow>
      \<exists>b'. add_text b s = Inr b' \<and> good b' \<and> text_of b' = text_of b @ s"
    and add_full: "good b \<Longrightarrow> capacity \<le> length (text_of b) + length s \<Longrightarrow> length s < longest \<Longrightarrow>
      add_text b s = Inr b"
begin

lemma add_or_drop:
  assumes "good b" and "length s < longest"
  shows "\<exists>b'. add_text b s = Inr b' \<and> good b'
    \<and> text_of b' = (if length (text_of b) + (length s + 1) \<le> capacity then text_of b @ s else text_of b)"
  using add_fits [OF assms(1), of s] add_full [OF assms(1) _ assms(2)] assms(1)
  by (cases "length (text_of b) + length s < capacity") auto

end

interpretation log_text: bounded_text put_string buffer_text buffer_ok small_buffer "2 ^ 31"
  by unfold_locales (simp_all add: put_string_def buffer_append_fits buffer_append_full)

text \<open>
  What the narrowing of the length to \<open>int\<close> does: a text that is longer than what is left and whose
  narrowed length is smaller than it is copied all the same, behind the end of the buffer.
\<close>

lemma buffer_append_overruns:
  assumes "buffer_ok b" and "small_buffer \<le> length (buffer_text b) + length s"
  shows "buffer_append b s (length s) =
    (if to_int32 (int (length s)) < int small_buffer - int (length (buffer_text b)) then Inl Undefined_Behaviour else Inr b)"
proof (cases "buf_cur b + length s = small_buffer")
  case True
  then have "to_int32 (int (length s)) = int (length s)"
    by (intro to_int32_small) (simp_all add: small_buffer_def)
  then show ?thesis
    using assms(1) True by (simp add: buffer_append_def available_size [OF assms(1)] small_buffer_def)
next
  case False
  then have "\<not> buf_cur b + length s \<le> length (buf_data b)" using assms by (simp add: buffer_ok_def)
  then have "mem_write (buf_data b) (buf_cur b) s = Inl Undefined_Behaviour" by (simp add: mem_write_def)
  then show ?thesis
    using assms(1) by (simp add: buffer_append_def available_size [OF assms(1)] small_buffer_def)
qed

text \<open>Every text from 2 GiB to below 4 GiB is copied behind the end, whatever is left of the buffer.\<close>

lemma long_text_overruns:
  assumes "buffer_ok b" and "2 ^ 31 \<le> length s" and "length s < 2 ^ 32"
  shows "put_string b s = Inl Undefined_Behaviour"
proof -
  have "(int (length s) + 2147483648) mod 4294967296 = (int (length s) - 2147483648 + 4294967296) mod 4294967296"
    by (rule arg_cong [of _ _ "\<lambda>x. x mod 4294967296"]) simp
  also have "\<dots> = int (length s) - 2147483648"
    using assms(2,3) by (simp only: mod_add_self2) (simp add: mod_pos_pos_trivial)
  finally have "to_int32 (int (length s)) = int (length s) - 4294967296" by (simp add: to_int32_def)
  then have "to_int32 (int (length s)) < 0" using assms(3) by simp
  moreover have "length (buffer_text b) < small_buffer" using assms(1) by (simp add: buffer_ok_def)
  moreover have "small_buffer \<le> length (buffer_text b) + length s" using assms(2) by (simp add: small_buffer_def)
  ultimately show ?thesis using buffer_append_overruns [OF assms(1), of s] by (simp add: put_string_def)
qed

section \<open>A chain of insertions\<close>

text \<open>
  \<open>stream << a << b << ...\<close>: the overload that each argument type selects. A floating point argument
  is given by its text under \<open>%.12g\<close>; the value of a \<open>long double\<close> does not matter.
\<close>

datatype log_item =
    Bool_Item bool
  | Short_Item "16 word"
  | Unsigned_Short_Item "16 word"
  | Int_Item "32 word"
  | Unsigned_Int_Item "32 word"
  | Long_Item "64 word"
  | Unsigned_Long_Item "64 word"
  | Long_Long_Item "64 word"
  | Unsigned_Long_Long_Item "64 word"
  | Double_Item string
  | Long_Double_Item
  | Char_Item char
  | Cstr_Item "string option"
  | String_Item string

fun put_item :: "log_buffer \<Rightarrow> log_item \<Rightarrow> log_buffer result" where
  "put_item b (Bool_Item v) = put_bool b v"
| "put_item b (Short_Item v) = put_short b v"
| "put_item b (Unsigned_Short_Item v) = put_unsigned_short b v"
| "put_item b (Int_Item v) = put_int b v"
| "put_item b (Unsigned_Int_Item v) = put_unsigned_int b v"
| "put_item b (Long_Item v) = put_long b v"
| "put_item b (Unsigned_Long_Item v) = put_unsigned_long b v"
| "put_item b (Long_Long_Item v) = put_long_long b v"
| "put_item b (Unsigned_Long_Long_Item v) = put_unsigned_long_long b v"
| "put_item b (Double_Item v) = put_double (\<lambda>t. t) b v"
| "put_item b Long_Double_Item = put_long_double b"
| "put_item b (Char_Item v) = put_char b v"
| "put_item b (Cstr_Item v) = put_cstr b v"
| "put_item b (String_Item v) = put_string b v"

fun put_items :: "log_buffer \<Rightarrow> log_item list \<Rightarrow> log_buffer result" where
  "put_items b [] = Inr b"
| "put_items b (i # is) = bind_result (put_item b i) (\<lambda>b'. put_items b' is)"

text \<open>The number an item stands for, the room it asks for, and what it may append.\<close>

fun item_number :: "log_item \<Rightarrow> int option" where
  "item_number (Short_Item v) = Some (sint v)"
| "item_number (Unsigned_Short_Item v) = Some (uint v)"
| "item_number (Int_Item v) = Some (sint v)"
| "item_number (Unsigned_Int_Item v) = Some (uint v)"
| "item_number (Long_Item v) = Some (sint v)"
| "item_number (Unsigned_Long_Item v) = Some (uint v)"
| "item_number (Long_Long_Item v) = Some (sint v)"
| "item_number (Unsigned_Long_Long_Item v) = Some (uint v)"
| "item_number _ = None"

fun plain_text :: "log_item \<Rightarrow> string" where
  "plain_text (Bool_Item v) = (if v then ''1'' else ''0'')"
| "plain_text (Double_Item v) = v"
| "plain_text (Char_Item v) = [v]"
| "plain_text (Cstr_Item v) = (case v of Some s \<Rightarrow> s | None \<Rightarrow> ''_null_'')"
| "plain_text (String_Item v) = v"
| "plain_text _ = []"

definition item_text :: "log_item \<Rightarrow> string" where
  "item_text i = (case item_number i of Some n \<Rightarrow> (case convert n of Inr t \<Rightarrow> t | Inl f \<Rightarrow> []) | None \<Rightarrow> plain_text i)"

definition item_room :: "log_item \<Rightarrow> nat" where
  "item_room i =
     (if item_number i \<noteq> None then 32 else case i of Double_Item v \<Rightarrow> 32 | Long_Double_Item \<Rightarrow> 32
      | _ \<Rightarrow> length (plain_text i) + 1)"

text \<open>Documented of the library: a text under \<open>%.12g\<close> has at most 19 characters.\<close>

definition item_doc :: "log_item \<Rightarrow> bool" where
  "item_doc i \<longleftrightarrow> (case i of Double_Item v \<Rightarrow> length v < 20 | _ \<Rightarrow> True)"

text \<open>
  The two arguments that leave the buffer with \<open>n\<close> characters in it: a \<open>long double\<close> that finds room,
  and a text that is too long but whose length, narrowed to \<open>int\<close>, is less than what is left.
\<close>

definition overruns :: "nat \<Rightarrow> log_item \<Rightarrow> bool" where
  "overruns n i \<longleftrightarrow>
     (if i = Long_Double_Item then n + 32 \<le> small_buffer
      else item_number i = None \<and> small_buffer \<le> n + length (plain_text i)
        \<and> to_int32 (int (length (plain_text i))) < int small_buffer - int n)"

text \<open>What never does: the documented texts, and strings of less than 2 GiB.\<close>

definition item_ok :: "log_item \<Rightarrow> bool" where
  "item_ok i \<longleftrightarrow> item_doc i \<and> i \<noteq> Long_Double_Item \<and> length (plain_text i) < 2 ^ 31"

lemma item_ok_doc: "list_all item_ok is \<Longrightarrow> list_all item_doc is"
  by (simp add: list_all_iff item_ok_def)

lemma item_ok_overruns: "item_doc i \<Longrightarrow> overruns n i \<Longrightarrow> \<not> item_ok i"
  by (auto simp: overruns_def item_ok_def to_int32_small small_buffer_def split: if_splits)

lemma sint_range: "LENGTH('a::len) \<le> 64 \<Longrightarrow> - (2 ^ 63) \<le> sint (v :: 'a word) \<and> sint v < 2 ^ 64"
proof -
  assume "LENGTH('a) \<le> 64"
  then have "(2::int) ^ (LENGTH('a) - 1) \<le> 2 ^ 63" by (intro power_increasing) simp_all
  then show ?thesis using sint_greater_eq [of v] sint_less [of v] by (simp add: order.strict_trans2)
qed

lemma uint_range: "LENGTH('a::len) \<le> 64 \<Longrightarrow> - (2 ^ 63) \<le> uint (v :: 'a word) \<and> uint v < 2 ^ 64"
proof -
  assume "LENGTH('a) \<le> 64"
  then have "(2::int) ^ LENGTH('a) \<le> 2 ^ 64" by (intro power_increasing) simp_all
  moreover have "0 \<le> uint v" "uint v < 2 ^ LENGTH('a)" by (simp_all add: unsigned_less)
  ultimately have "uint v < 2 ^ 64" "0 \<le> uint v" by (simp_all only: order.strict_trans2)
  moreover have "- (2 ^ 63) \<le> (0::int)" by simp
  ultimately show ?thesis by (meson order.trans)
qed

lemma item_number_range: "item_number i = Some n \<Longrightarrow> - (2 ^ 63) \<le> n \<and> n < 2 ^ 64"
  using sint_range [where 'a = 16] sint_range [where 'a = 32] sint_range [where 'a = 64]
    uint_range [where 'a = 16] uint_range [where 'a = 32] uint_range [where 'a = 64]
  by (cases i) auto

lemma fromat_integer_text:
  assumes "buffer_ok b" and "- (2 ^ 63) \<le> n" and "n < 2 ^ 64"
  shows "\<exists>b'. fromat_integer b n = Inr b' \<and> buffer_ok b'
    \<and> buffer_text b' = (if length (buffer_text b) + 32 \<le> small_buffer
        then buffer_text b @ (case convert n of Inr t \<Rightarrow> t | Inl f \<Rightarrow> []) else buffer_text b)"
proof -
  obtain tx where tx: "convert n = Inr tx" "length tx \<le> 20"
    using convert_value [of n] assms(2,3) by auto
  show ?thesis
  proof (cases "buf_cur b + 32 \<le> small_buffer")
    case True
    then obtain d where d: "mem_write (buf_data b) (buf_cur b) (tx @ [CHR 0x00]) = Inr d"
      using assms(1) tx(2) mem_write_ok [of "buf_cur b" "tx @ [CHR 0x00]" "buf_data b"] by (auto simp: buffer_ok_def)
    have room: "buf_cur b + length tx < small_buffer" using True tx(2) by simp
    then show ?thesis
      using write_text [OF assms(1) d _ room] True tx(1) d assms(1) mem_write_length [OF d]
      by (simp add: fromat_integer_def available_size max_digit_size_def small_buffer_def buffer_add_def buffer_ok_def)
  next
    case False
    then show ?thesis
      using assms(1) by (simp add: fromat_integer_def available_size max_digit_size_def small_buffer_def)
  qed
qed

lemma put_number:
  assumes "item_number i = Some n"
  shows "put_item b i = fromat_integer b n"
proof -
  have "sint (scast v :: 32 word) = sint v" "uint (ucast v :: 32 word) = uint v" for v :: "16 word"
    by (simp_all add: sint_up_scast uint_up_ucast is_up)
  then show ?thesis
    using assms
    by (cases i) (auto simp: put_short_def put_unsigned_short_def put_int_def put_unsigned_int_def put_long_def
      put_unsigned_long_def put_long_long_def put_unsigned_long_long_def)
qed

lemma put_double_text:
  assumes "buffer_ok b" and "length t < 20"
  shows "\<exists>b'. put_double (\<lambda>t. t) b t = Inr b' \<and> buffer_ok b'
    \<and> buffer_text b' = (if length (buffer_text b) + 32 \<le> small_buffer then buffer_text b @ t else buffer_text b)"
proof (cases "buf_cur b + 32 \<le> small_buffer")
  case True
  have t: "take 31 t = t" using assms(2) by simp
  obtain d where d: "mem_write (buf_data b) (buf_cur b) (t @ [CHR 0x00]) = Inr d"
    using assms True mem_write_ok [of "buf_cur b" "t @ [CHR 0x00]" "buf_data b"] by (auto simp: buffer_ok_def)
  have room: "buf_cur b + length t < small_buffer" using True assms(2) by simp
  then show ?thesis
    using write_text [OF assms(1) d _ room] True d assms(1) mem_write_length [OF d] t
    by (simp add: put_double_def available_size max_digit_size_def small_buffer_def buffer_add_def buffer_ok_def)
next
  case False
  then show ?thesis
    using assms(1) by (simp add: put_double_def available_size max_digit_size_def small_buffer_def)
qed

lemma put_append_text:
  assumes "buffer_ok b"
  shows "if small_buffer \<le> length (buffer_text b) + length s
      \<and> to_int32 (int (length s)) < int small_buffer - int (length (buffer_text b))
    then buffer_append b s (length s) = Inl Undefined_Behaviour
    else \<exists>b'. buffer_append b s (length s) = Inr b' \<and> buffer_ok b'
      \<and> buffer_text b' = (if length (buffer_text b) + (length s + 1) \<le> small_buffer then buffer_text b @ s else buffer_text b)"
proof (cases "length s < 2 ^ 31")
  case True
  then have "to_int32 (int (length s)) = int (length s)" by (intro to_int32_small) simp_all
  then have "\<not> (small_buffer \<le> length (buffer_text b) + length s
      \<and> to_int32 (int (length s)) < int small_buffer - int (length (buffer_text b)))" by linarith
  then show ?thesis using log_text.add_or_drop [OF assms True] by (simp only: put_string_def if_False)
next
  case False
  then have "small_buffer \<le> length (buffer_text b) + length s" by (simp add: small_buffer_def)
  then show ?thesis using buffer_append_overruns [OF assms, of s] assms by simp
qed

text \<open>The arguments that are appended as they are.\<close>

lemma put_plain:
  assumes "item_number i = None" and "i \<noteq> Long_Double_Item" and "\<forall>v. i \<noteq> Double_Item v"
  shows "put_item b i = buffer_append b (plain_text i) (length (plain_text i))
    \<and> item_room i = length (plain_text i) + 1 \<and> item_text i = plain_text i"
  using assms
  by (cases i) (auto simp: put_bool_def put_char_def put_cstr_def put_string_def item_text_def item_room_def
    numeral_eq_Suc split: option.split)

lemma put_item_text:
  assumes "buffer_ok b" and "item_doc i"
  shows "if overruns (length (buffer_text b)) i then put_item b i = Inl Undefined_Behaviour
    else \<exists>b'. put_item b i = Inr b' \<and> buffer_ok b'
      \<and> buffer_text b' = (if length (buffer_text b) + item_room i \<le> small_buffer
          then buffer_text b @ item_text i else buffer_text b)"
proof -
  consider n where "item_number i = Some n" | "i = Long_Double_Item" | v where "i = Double_Item v"
      | "item_number i = None" "i \<noteq> Long_Double_Item" "\<forall>v. i \<noteq> Double_Item v" by fastforce
  then show ?thesis
  proof cases
    case (1 n)
    then have "item_room i = 32" "item_text i = (case convert n of Inr t \<Rightarrow> t | Inl f \<Rightarrow> [])"
        "\<not> overruns (length (buffer_text b)) i"
      by (auto simp: item_text_def item_room_def overruns_def)
    then show ?thesis
      using fromat_integer_text [OF assms(1), of n] item_number_range [OF 1] put_number [OF 1] by presburger
  next
    case 2
    then show ?thesis
      using assms(1) by (simp add: put_long_double_def overruns_def available_size max_digit_size_def item_room_def
        small_buffer_def)
  next
    case (3 v)
    then have "\<not> overruns (length (buffer_text b)) i" "length v < 20"
      using assms(2) by (auto simp: overruns_def item_doc_def small_buffer_def to_int32_small)
    moreover have "item_room i = 32" "item_text i = v" "put_item b i = put_double (\<lambda>t. t) b v"
      using 3 by (simp_all add: item_text_def item_room_def)
    ultimately show ?thesis using put_double_text [OF assms(1), of v] by presburger
  next
    case 4
    then have "overruns (length (buffer_text b)) i \<longleftrightarrow> small_buffer \<le> length (buffer_text b) + length (plain_text i)
        \<and> to_int32 (int (length (plain_text i))) < int small_buffer - int (length (buffer_text b))"
      by (simp add: overruns_def)
    then show ?thesis using put_append_text [OF assms(1), of "plain_text i"] put_plain [OF 4, of b] by presburger
  qed
qed

text \<open>The text a chain of insertions leaves behind \<open>n\<close> characters.\<close>

fun kept_items :: "nat \<Rightarrow> log_item list \<Rightarrow> string" where
  "kept_items n [] = []"
| "kept_items n (i # is) =
     (if n + item_room i \<le> small_buffer then item_text i @ kept_items (n + length (item_text i)) is
      else kept_items n is)"

text \<open>A chain behind \<open>n\<close> characters leaves the buffer at the first argument that does.\<close>

fun chain_fault :: "nat \<Rightarrow> log_item list \<Rightarrow> bool" where
  "chain_fault n [] \<longleftrightarrow> False"
| "chain_fault n (i # is) \<longleftrightarrow>
     overruns n i \<or> chain_fault (if n + item_room i \<le> small_buffer then n + length (item_text i) else n) is"

lemma chain_fault_item:
  "chain_fault n is \<Longrightarrow> list_all item_doc is \<Longrightarrow> \<exists>i \<in> set is. i = Long_Double_Item \<or> 2 ^ 31 \<le> length (plain_text i)"
proof (induction "is" arbitrary: n)
  case (Cons i "is")
  then show ?case using item_ok_overruns [of i n] Cons.IH
    by (cases "overruns n i") (auto simp: item_ok_def simp del: numeral_power_eq_of_nat_cancel_iff)
qed simp

lemma put_items_doc:
  "buffer_ok b \<Longrightarrow> list_all item_doc is \<Longrightarrow>
   if chain_fault (length (buffer_text b)) is then put_items b is = Inl Undefined_Behaviour
   else \<exists>b'. put_items b is = Inr b' \<and> buffer_ok b' \<and> buffer_text b' = buffer_text b @ kept_items (length (buffer_text b)) is"
proof (induction "is" arbitrary: b)
  case (Cons i "is")
  then have step: "if overruns (length (buffer_text b)) i then put_item b i = Inl Undefined_Behaviour
    else \<exists>b'. put_item b i = Inr b' \<and> buffer_ok b'
      \<and> buffer_text b' = (if length (buffer_text b) + item_room i \<le> small_buffer
          then buffer_text b @ item_text i else buffer_text b)"
    using put_item_text [of b i] by simp
  show ?case
  proof (cases "overruns (length (buffer_text b)) i")
    case True
    then show ?thesis using step by simp
  next
    case False
    then obtain b1 where b1: "put_item b i = Inr b1" "buffer_ok b1"
        "buffer_text b1 = (if length (buffer_text b) + item_room i \<le> small_buffer
          then buffer_text b @ item_text i else buffer_text b)"
      using step by (metis (no_types, lifting))
    then show ?thesis using Cons.IH [OF b1(2)] Cons.prems(2) False by (auto split: if_splits)
  qed
qed simp

lemma put_items_text:
  assumes "buffer_ok b" and "list_all item_ok is"
  shows "\<exists>b'. put_items b is = Inr b' \<and> buffer_ok b' \<and> buffer_text b' = buffer_text b @ kept_items (length (buffer_text b)) is"
proof -
  have doc: "list_all item_doc is" using assms(2) by (rule item_ok_doc)
  then have "\<not> chain_fault (length (buffer_text b)) is"
    using chain_fault_item [of "length (buffer_text b)" "is"] assms(2) by (fastforce simp: list_all_iff item_ok_def)
  then show ?thesis using put_items_doc [OF assms(1) doc] by simp
qed

lemma item_text_room: "item_doc i \<Longrightarrow> length (item_text i) < item_room i"
proof (cases "item_number i")
  case (Some n)
  then show ?thesis using convert_value [of n] item_number_range [OF Some]
    by (auto simp: item_text_def item_room_def)
next
  case None
  then show "item_doc i \<Longrightarrow> ?thesis" by (cases i) (auto simp: item_text_def item_room_def item_doc_def)
qed

lemma kept_items_all:
  "n + sum_list (map item_room is) \<le> small_buffer \<Longrightarrow> list_all item_doc is \<Longrightarrow>
   kept_items n is = concat (map item_text is)"
proof (induction "is" arbitrary: n)
  case (Cons i "is")
  then show ?case using item_text_room [of i] Cons.IH [of "n + length (item_text i)"] by auto
qed simp

text \<open>
  C14. What any chain of insertions does to the 4096 bytes of a log line, whatever the number, the
  types and the lengths of its arguments. There are exactly two ways out of the buffer, and a chain
  that takes one of them is undefined: a \<open>long double\<close> that finds its room, whose format does not match
  it, and a text that is longer than what is left but whose length is less than it once narrowed to
  \<open>int\<close>, which takes a text of at least 2 GiB. Every other chain stays inside: each argument is
  appended as a whole or, when there is not enough room, dropped as a whole, and when the room they
  ask for together is there the line is the concatenation of their texts. The only premise on the
  arguments is the documented length of a text under \<open>%.12g\<close>.
\<close>

theorem insertions_stay_inside:
  assumes "buffer_ok b" and "list_all item_doc is"
  shows "(if chain_fault (length (buffer_text b)) is then put_items b is = Inl Undefined_Behaviour
      else \<exists>b'. put_items b is = Inr b' \<and> buffer_ok b'
        \<and> buffer_text b' = buffer_text b @ kept_items (length (buffer_text b)) is
        \<and> (length (buffer_text b) + sum_list (map item_room is) \<le> small_buffer \<longrightarrow>
            buffer_text b' = buffer_text b @ concat (map item_text is)))
    \<and> (chain_fault (length (buffer_text b)) is \<longrightarrow>
        (\<exists>i \<in> set is. i = Long_Double_Item \<or> 2 ^ 31 \<le> length (plain_text i)))"
  using put_items_doc [OF assms] kept_items_all [OF _ assms(2), of "length (buffer_text b)"]
    chain_fault_item [OF _ assms(2), of "length (buffer_text b)"]
  by (cases "chain_fault (length (buffer_text b)) is") auto

theorem insertions_stay_inside_witness:
  "(\<exists>b'. put_items (new_log_buffer (replicate small_buffer CHR ''x'')) [Int_Item (- 7), Cstr_Item None, Bool_Item True]
      = Inr b' \<and> buffer_ok b' \<and> buffer_text b' = ''-7_null_1'')
   \<and> put_items (new_log_buffer (replicate small_buffer CHR ''x'')) [Bool_Item True, String_Item (replicate 2147483648 CHR ''y'')]
      = Inl Undefined_Behaviour
   \<and> put_items (new_log_buffer (replicate small_buffer CHR ''x'')) [Long_Double_Item, Bool_Item True] = Inl Undefined_Behaviour"
proof -
  let ?b = "new_log_buffer (replicate small_buffer CHR ''x'')"
  let ?is = "[Int_Item (- 7), Cstr_Item None, Bool_Item True]"
  let ?js = "[Bool_Item True, String_Item (replicate 2147483648 CHR ''y'')]"
  have ok: "buffer_ok ?b" by (simp add: buffer_ok_def new_log_buffer_def small_buffer_def)
  have tx: "buffer_text ?b = []" by (simp add: buffer_text_def new_log_buffer_def)
  have "concat (map item_text ?is) = ''-7_null_1''" by code_simp
  moreover have "length ([] :: string) + sum_list (map item_room ?is) \<le> small_buffer"
    by (simp add: item_room_def small_buffer_def)
  moreover have "\<not> chain_fault 0 ?is" by code_simp
  moreover have "list_all item_doc ?is" by (simp add: item_doc_def)
  ultimately have good: "\<exists>b'. put_items ?b ?is = Inr b' \<and> buffer_ok b' \<and> buffer_text b' = ''-7_null_1''"
    using insertions_stay_inside [OF ok, of ?is] unfolding tx by auto
  have "overruns 1 (String_Item (replicate 2147483648 CHR ''y''))"
    by (simp add: overruns_def small_buffer_def to_int32_def)
  moreover have "item_room (Bool_Item True) = 2" "item_text (Bool_Item True) = ''1''" by code_simp+
  ultimately have "chain_fault 0 ?js" by (simp add: small_buffer_def)
  moreover have "list_all item_doc ?js" by (simp add: item_doc_def)
  ultimately have long: "put_items ?b ?js = Inl Undefined_Behaviour"
    using insertions_stay_inside [OF ok, of ?js] unfolding tx by (simp only: list.size if_True)
  have "chain_fault 0 [Long_Double_Item, Bool_Item True]" by (simp add: overruns_def small_buffer_def)
  then have "put_items ?b [Long_Double_Item, Bool_Item True] = Inl Undefined_Behaviour"
    using insertions_stay_inside [OF ok, of "[Long_Double_Item, Bool_Item True]"] unfolding tx
    by (simp add: item_doc_def)
  then show ?thesis using good long by blast
qed

end
