(* ===== verification/Log_File.thy ===== *)
theory Log_File
  imports Prelude
begin

text \<open>
  \<open>include/Log/LogUtil.cpp\<close>: the log file behind the logging thread. \<open>fwrite\<close> is an argument: the
  list of the numbers of characters its next calls accept at most; behind its end every call accepts
  all it is given. \<open>file_text\<close> is what the stream has accepted, \<open>flushed_length\<close> how much of it an
  explicit flush has passed on.
\<close>

record append_util =
  file_text :: string
  flushed_length :: nat
  fwrite_answers :: "nat list"

definition new_append_util :: "nat list \<Rightarrow> append_util" where
  "new_append_util answers = \<lparr>file_text = [], flushed_length = 0, fwrite_answers = answers\<rparr>"

definition util_write :: "append_util \<Rightarrow> string \<Rightarrow> append_util \<times> nat" where
  "util_write u line =
     (let n = (case fwrite_answers u of [] \<Rightarrow> length line | a # as \<Rightarrow> min a (length line)) in
      (u\<lparr>file_text := file_text u @ take n line, fwrite_answers := tl (fwrite_answers u)\<rparr>, n))"

lemma util_write_bound: "util_write u line = (u', n) \<Longrightarrow> n \<le> length line"
  by (auto simp: util_write_def Let_def split: list.splits)

function append_rest :: "append_util \<Rightarrow> string \<Rightarrow> nat \<Rightarrow> append_util" where
  "append_rest u line finished =
     (let remained = length line - finished in
      if remained > 0 then
        (case util_write u (drop finished line) of
           (u', new_finished) \<Rightarrow>
             if new_finished = 0 then u' else append_rest u' line (finished + new_finished))
      else u)"
  by pat_completeness auto

termination
  by (relation "measure (\<lambda>(u, line, finished). length line - finished)")
     (auto dest!: util_write_bound [OF sym])

declare append_rest.simps [simp del]

definition util_append :: "append_util \<Rightarrow> string \<Rightarrow> nat \<Rightarrow> append_util result" where
  "util_append u string_line len =
     (if length string_line < len then Inl Undefined_Behaviour
      else case util_write u (take len string_line) of
        (u', finished) \<Rightarrow> Inr (append_rest u' (take len string_line) finished))"

definition util_flush :: "append_util \<Rightarrow> append_util" where
  "util_flush u = u\<lparr>flushed_length := length (file_text u)\<rparr>"

text \<open>The destructor closes the stream, which flushes it.\<close>

definition destroy_append_util :: "append_util \<Rightarrow> append_util" where
  "destroy_append_util u = util_flush u"

record append_log =
  num_append :: int
  append_count :: int
  log_file :: append_util

definition new_append_log :: "nat list \<Rightarrow> append_log" where
  "new_append_log answers = \<lparr>num_append = 1000, append_count = 0, log_file = new_append_util answers\<rparr>"

definition append_log_flush :: "append_log \<Rightarrow> append_log" where
  "append_log_flush a = a\<lparr>log_file := util_flush (log_file a)\<rparr>"

definition append_unlocked :: "append_log \<Rightarrow> string \<Rightarrow> int \<Rightarrow> append_log result" where
  "append_unlocked a log_line len =
     bind_result (util_append (log_file a) log_line (int_to_size len)) (\<lambda>u.
       let a = a\<lparr>log_file := u, append_count := append_count a + 1\<rparr> in
       Inr (if append_count a \<ge> num_append a
            then a\<lparr>append_count := 0, log_file := util_flush (log_file a)\<rparr> else a))"

text \<open>The mutex of the log is taken around the call; only the logging thread uses the log.\<close>

definition append_log_append :: "append_log \<Rightarrow> string \<Rightarrow> int \<Rightarrow> append_log result" where
  "append_log_append a log_line len = append_unlocked a log_line len"

section \<open>What reaches the file\<close>

text \<open>Whatever the stream answers, a prefix of the line is added; all of it when no answer is 0.\<close>

lemma append_rest_prefix:
  "finished \<le> length line \<Longrightarrow>
   \<exists>n. finished \<le> n \<and> n \<le> length line
     \<and> file_text (append_rest u line finished) = file_text u @ take (n - finished) (drop finished line)
     \<and> (0 \<notin> set (fwrite_answers u) \<longrightarrow> n = length line \<and> 0 \<notin> set (fwrite_answers (append_rest u line finished)))"
proof (induction u line finished rule: append_rest.induct)
  case (1 u line finished)
  show ?case
  proof (cases "finished < length line")
    case True
    obtain u' k where w: "util_write u (drop finished line) = (u', k)" by (metis surj_pair)
    then have k: "k \<le> length line - finished" and u': "file_text u' = file_text u @ take k (drop finished line)"
      and keep: "0 \<notin> set (fwrite_answers u) \<longrightarrow> 0 \<notin> set (fwrite_answers u') \<and> k \<noteq> 0"
      using util_write_bound [OF w] True
      by (auto simp: util_write_def Let_def split: list.splits)
    show ?thesis
    proof (cases "k = 0")
      case True
      then have eq: "append_rest u line finished = u'"
        using w \<open>finished < length line\<close> by (subst append_rest.simps) (simp add: Let_def)
      show ?thesis unfolding eq using u' keep True 1(2)
        by (intro exI [of _ finished]) simp
    next
      case False
      then have eq: "append_rest u line finished = append_rest u' line (finished + k)"
        using w \<open>finished < length line\<close> by (subst append_rest.simps) (simp add: Let_def)
      have le: "finished + k \<le> length line" using k \<open>finished < length line\<close> by linarith
      obtain n where n: "finished + k \<le> n" "n \<le> length line"
          "file_text (append_rest u' line (finished + k)) = file_text u' @ take (n - (finished + k)) (drop (finished + k) line)"
          "0 \<notin> set (fwrite_answers u') \<longrightarrow> n = length line \<and> 0 \<notin> set (fwrite_answers (append_rest u' line (finished + k)))"
        using 1(1) [OF refl _ w [symmetric] False le] \<open>finished < length line\<close> by auto
      have "take (n - finished) (drop finished line)
          = take k (drop finished line) @ take (n - (finished + k)) (drop (finished + k) line)"
      proof -
        have "n - finished = k + (n - (finished + k))" using n(1) by simp
        then show ?thesis by (metis add.commute drop_drop take_add)
      qed
      then show ?thesis unfolding eq using n u' keep
        by (intro exI [of _ n]) simp
    qed
  next
    case False
    then have "append_rest u line finished = u" by (subst append_rest.simps) (simp add: Let_def)
    then show ?thesis using False 1(2) by (intro exI [of _ finished]) simp
  qed
qed

lemma util_append_prefix:
  assumes "len \<le> length line"
  shows "\<exists>u' n. util_append u line len = Inr u' \<and> n \<le> len \<and> file_text u' = file_text u @ take n line
    \<and> (0 \<notin> set (fwrite_answers u) \<longrightarrow> n = len \<and> 0 \<notin> set (fwrite_answers u'))"
proof -
  obtain u1 k where w: "util_write u (take len line) = (u1, k)" by (metis surj_pair)
  then have k: "k \<le> len" "file_text u1 = file_text u @ take k (take len line)"
      "0 \<notin> set (fwrite_answers u) \<longrightarrow> 0 \<notin> set (fwrite_answers u1)"
    using util_write_bound [OF w] assms by (auto simp: util_write_def Let_def split: list.splits)
  obtain n where n: "k \<le> n" "n \<le> len"
      "file_text (append_rest u1 (take len line) k) = file_text u1 @ take (n - k) (drop k (take len line))"
      "0 \<notin> set (fwrite_answers u1) \<longrightarrow> n = len \<and> 0 \<notin> set (fwrite_answers (append_rest u1 (take len line) k))"
    using append_rest_prefix [of k "take len line" u1] k(1) assms by auto
  have "take k (take len line) @ take (n - k) (drop k (take len line)) = take n (take len line)"
    using n(1) by (simp only: take_add [symmetric]) simp
  then show ?thesis
    using w n k assms by (intro exI [of _ "append_rest u1 (take len line) k"] exI [of _ n]) (simp add: util_append_def)
qed

text \<open>The counter of the log stays below its limit; a line that is accepted whole follows the text.\<close>

definition append_log_ok :: "append_log \<Rightarrow> bool" where
  "append_log_ok a \<longleftrightarrow> append_count a < num_append a \<and> 0 < num_append a \<and> 0 \<notin> set (fwrite_answers (log_file a))"

lemma append_log_append_whole:
  assumes "append_log_ok a" and "0 \<le> len" and "nat len \<le> length line" and "len < 2 ^ 31"
  shows "\<exists>a'. append_log_append a line len = Inr a' \<and> append_log_ok a'
    \<and> file_text (log_file a') = file_text (log_file a) @ take (nat len) line"
proof -
  have "int_to_size len = nat len" using assms(2,4) by (simp add: int_to_size_small)
  moreover obtain u where "util_append (log_file a) line (nat len) = Inr u"
      "file_text u = file_text (log_file a) @ take (nat len) line" "0 \<notin> set (fwrite_answers u)"
    using util_append_prefix [OF assms(3), of "log_file a"] assms(1) by (auto simp: append_log_ok_def)
  ultimately show ?thesis
    using assms(1) by (simp add: append_log_append_def append_unlocked_def append_log_ok_def Let_def util_flush_def)
qed

lemma append_log_flush_ok [simp]:
  "append_log_ok (append_log_flush a) = append_log_ok a"
  "file_text (log_file (append_log_flush a)) = file_text (log_file a)"
  by (simp_all add: append_log_flush_def util_flush_def append_log_ok_def)

end
