(* ===== verification/Logging.thy ===== *)
theory Logging
  imports Log_Buffer Log_File
begin

text \<open>
  \<open>include/Log/Logging.cpp\<close>: the double-buffered log. Client threads append to \<open>cur_buffer\<close>, one
  logging thread collects the full buffers and writes them. The shared pointers are never shared
  (each buffer is pushed or moved and the old pointer reset), so a pointer is an optional buffer. A
  step of the thread is what it does between two points where the mutex is free; the wait on the
  condition releases it. Its time-out and its wake-up go on in the same way, so the condition is not
  part of the state. A new buffer holds \<open>garbage\<close>.
\<close>

datatype log_phase =
    Thread_Begin
  | Loop_Top
  | In_Wait
  | Write_Out "log_buffer option list"
  | Thread_End

record logging =
  log_running :: bool
  cur_buffer :: "log_buffer option"
  next_buffer :: "log_buffer option"
  buffer_list :: "log_buffer option list"
  log_latch :: int
  log_phase :: log_phase
  log_buffer1 :: "log_buffer option"
  log_buffer2 :: "log_buffer option"
  logging_output :: append_log

text \<open>Following a null pointer is undefined.\<close>

definition deref :: "log_buffer option \<Rightarrow> log_buffer result" where
  "deref p = (case p of Some b \<Rightarrow> Inr b | None \<Rightarrow> Inl Undefined_Behaviour)"

definition new_logging :: "string \<Rightarrow> nat list \<Rightarrow> string \<Rightarrow> logging result" where
  "new_logging garbage answers log_name =
     (if \<not> length log_name > 1 then Inl Assertion_Failed
      else Inr \<lparr>log_running = False, cur_buffer = Some (set_zeros (new_log_buffer garbage)),
        next_buffer = Some (set_zeros (new_log_buffer garbage)), buffer_list = rev [], log_latch = 1,
        log_phase = Thread_End, log_buffer1 = None, log_buffer2 = None,
        logging_output = new_append_log answers\<rparr>)"

text \<open>\<open>start\<close> creates the thread; \<open>stop\<close> asks it to end (and joins it).\<close>

definition logging_start :: "logging \<Rightarrow> logging" where
  "logging_start st = st\<lparr>log_running := True, log_phase := Thread_Begin\<rparr>"

definition logging_stop :: "logging \<Rightarrow> logging" where
  "logging_stop st = st\<lparr>log_running := False\<rparr>"

definition destroy_logging :: "logging \<Rightarrow> logging" where
  "destroy_logging st = (if log_running st then logging_stop st else st)"

definition logging_append :: "string \<Rightarrow> logging \<Rightarrow> string \<Rightarrow> int \<Rightarrow> logging result" where
  "logging_append garbage st log_line len =
     bind_result (deref (cur_buffer st)) (\<lambda>cur.
       if get_available_size cur > len then
         bind_result (buffer_append cur log_line (int_to_size len)) (\<lambda>cur.
           Inr (st\<lparr>cur_buffer := Some cur\<rparr>))
       else
         let st = st\<lparr>buffer_list := buffer_list st @ [cur_buffer st]\<rparr>;
             st = st\<lparr>cur_buffer := None\<rparr>;
             st = (if next_buffer st \<noteq> None then st\<lparr>cur_buffer := next_buffer st, next_buffer := None\<rparr>
                   else st\<lparr>cur_buffer := Some (new_log_buffer garbage)\<rparr>) in
         bind_result (deref (cur_buffer st)) (\<lambda>cur.
           bind_result (buffer_append cur log_line (int_to_size len)) (\<lambda>cur.
             Inr (st\<lparr>cur_buffer := Some cur\<rparr>))))"

section \<open>The logging thread\<close>

definition thread_begin :: "string \<Rightarrow> logging \<Rightarrow> logging result" where
  "thread_begin garbage st =
     (if \<not> log_running st then Inl Assertion_Failed
      else Inr (st\<lparr>log_latch := log_latch st - 1,
        log_buffer1 := Some (set_zeros (new_log_buffer garbage)),
        log_buffer2 := Some (set_zeros (new_log_buffer garbage)), log_phase := Loop_Top\<rparr>))"

text \<open>The critical section behind the wait.\<close>

definition collect :: "logging \<Rightarrow> logging" where
  "collect st =
     (let out = buffer_list st @ [cur_buffer st];
          st = st\<lparr>buffer_list := [], cur_buffer := log_buffer1 st, log_buffer1 := None\<rparr>;
          st = (if next_buffer st = None then st\<lparr>next_buffer := log_buffer2 st, log_buffer2 := None\<rparr> else st) in
      st\<lparr>log_phase := Write_Out out\<rparr>)"

definition empty_buffer :: "log_buffer option \<Rightarrow> bool" where
  "empty_buffer p \<longleftrightarrow> (case p of None \<Rightarrow> False | Some b \<Rightarrow> get_length b = 0)"

definition loop_top :: "logging \<Rightarrow> logging result" where
  "loop_top st =
     (if \<not> log_running st then
        Inr (st\<lparr>logging_output := append_log_flush (logging_output st), log_phase := Thread_End\<rparr>)
      else if \<not> empty_buffer (log_buffer1 st) then Inl Assertion_Failed
      else if \<not> empty_buffer (log_buffer2 st) then Inl Assertion_Failed
      else if buffer_list st = [] then Inr (st\<lparr>log_phase := In_Wait\<rparr>)
      else Inr (collect st))"

fun write_buffers :: "append_log \<Rightarrow> log_buffer option list \<Rightarrow> append_log result" where
  "write_buffers a [] = Inr a"
| "write_buffers a (p # ps) =
     bind_result (deref p) (\<lambda>b.
       bind_result (append_log_append a (buf_data b) (get_length b)) (\<lambda>a'. write_buffers a' ps))"

text \<open>
  The pointer that is taken back from the list is itself reset (\<open>log_buffer1.reset()\<close> of the shared
  pointer), not the buffer behind it.
\<close>

definition refill :: "log_buffer option \<Rightarrow> log_buffer option list \<Rightarrow> (log_buffer option \<times> log_buffer option list) result" where
  "refill p out =
     (if p = None then
        (if out = [] then Inl Assertion_Failed
         else let p = last out; out = butlast out in (let p = None in Inr (p, out)))
      else Inr (p, out))"

definition write_out :: "logging \<Rightarrow> log_buffer option list \<Rightarrow> logging result" where
  "write_out st out =
     (if out = [] then Inl Assertion_Failed
      else
        let out = (if length out > 25 then take 2 out else out) in
        bind_result (write_buffers (logging_output st) out) (\<lambda>a.
          let out = (if length out > 2 then take 2 out else out) in
          bind_result (refill (log_buffer1 st) out) (\<lambda>(b1, out).
            bind_result (refill (log_buffer2 st) out) (\<lambda>(b2, out).
              Inr (st\<lparr>log_buffer1 := b1, log_buffer2 := b2, logging_output := append_log_flush a,
                log_phase := Loop_Top\<rparr>)))))"

fun thread_func :: "string \<Rightarrow> logging \<Rightarrow> logging result" where
  "thread_func garbage st =
     (case log_phase st of
        Thread_Begin \<Rightarrow> thread_begin garbage st
      | Loop_Top \<Rightarrow> loop_top st
      | In_Wait \<Rightarrow> Inr (collect st)
      | Write_Out out \<Rightarrow> write_out st out
      | Thread_End \<Rightarrow> Inr st)"

declare thread_func.simps [simp del]

section \<open>Runs\<close>

text \<open>Any interleaving of clients and the logging thread; a client passes a line and its length.\<close>

datatype log_event = Client string | Thread_Step | Stop

fun logging_step :: "string \<Rightarrow> logging \<Rightarrow> log_event \<Rightarrow> logging result" where
  "logging_step garbage st (Client line) = logging_append garbage st line (int (length line))"
| "logging_step garbage st Thread_Step = thread_func garbage st"
| "logging_step garbage st Stop = Inr (logging_stop st)"

fun logging_run :: "string \<Rightarrow> logging \<Rightarrow> log_event list \<Rightarrow> logging result" where
  "logging_run garbage st [] = Inr st"
| "logging_run garbage st (e # es) =
     bind_result (logging_step garbage st e) (\<lambda>st'. logging_run garbage st' es)"

text \<open>The specification: the lines that were passed, oversized ones left out, in order.\<close>

fun accepted_lines :: "log_event list \<Rightarrow> string" where
  "accepted_lines [] = []"
| "accepted_lines (Client line # es) = (if length line < small_buffer then line @ accepted_lines es else accepted_lines es)"
| "accepted_lines (_ # es) = accepted_lines es"

fun logged_bytes :: "log_event list \<Rightarrow> nat" where
  "logged_bytes [] = 0"
| "logged_bytes (Client line # es) = length line + logged_bytes es"
| "logged_bytes (_ # es) = logged_bytes es"

text \<open>Where the text is: in the file, in the thread's hands, in the buffers.\<close>

definition text_of :: "log_buffer option \<Rightarrow> string" where
  "text_of p = (case p of None \<Rightarrow> [] | Some b \<Rightarrow> buffer_text b)"

definition in_hand :: "logging \<Rightarrow> string" where
  "in_hand st = (case log_phase st of Write_Out out \<Rightarrow> concat (map text_of out) | _ \<Rightarrow> [])"

definition pending :: "logging \<Rightarrow> string" where
  "pending st = concat (map text_of (buffer_list st)) @ text_of (cur_buffer st)"

definition written :: "logging \<Rightarrow> string" where
  "written st = file_text (log_file (logging_output st))"

section \<open>The invariant\<close>

definition good_buffer :: "log_buffer option \<Rightarrow> bool" where
  "good_buffer p \<longleftrightarrow> (case p of None \<Rightarrow> False | Some b \<Rightarrow> buffer_ok b)"

definition fresh_buffer :: "log_buffer option \<Rightarrow> bool" where
  "fresh_buffer p \<longleftrightarrow> (case p of None \<Rightarrow> False | Some b \<Rightarrow> buffer_ok b \<and> buf_cur b = 0)"

text \<open>The thread's own buffers in each phase; it comes to the top of its loop a second time without them.\<close>

definition phase_ok :: "logging \<Rightarrow> bool" where
  "phase_ok st \<longleftrightarrow>
     (case log_phase st of
        Thread_Begin \<Rightarrow> True
      | Loop_Top \<Rightarrow> log_buffer1 st = None \<or>
          (fresh_buffer (log_buffer1 st) \<and> fresh_buffer (log_buffer2 st))
      | In_Wait \<Rightarrow> fresh_buffer (log_buffer1 st) \<and> fresh_buffer (log_buffer2 st)
      | Write_Out out \<Rightarrow> log_buffer1 st = None \<and> out \<noteq> [] \<and> list_all good_buffer out
          \<and> (log_buffer2 st = None \<longrightarrow> 2 \<le> length out)
      | Thread_End \<Rightarrow> True)"

definition waits_first :: "logging \<Rightarrow> bool" where
  "waits_first st \<longleftrightarrow> log_phase st = Thread_Begin \<or> log_phase st = In_Wait \<or> (log_phase st = Loop_Top \<and> log_buffer1 st \<noteq> None)"

definition logging_inv :: "logging \<Rightarrow> bool" where
  "logging_inv st \<longleftrightarrow>
     good_buffer (cur_buffer st) \<and> (next_buffer st \<noteq> None \<longrightarrow> fresh_buffer (next_buffer st))
     \<and> list_all good_buffer (buffer_list st) \<and> append_log_ok (logging_output st) \<and> phase_ok st
     \<and> (waits_first st \<longrightarrow> next_buffer st = None \<longrightarrow> buffer_list st \<noteq> [])"

text \<open>How many full buffers so much text can have filled.\<close>

definition bytes_inv :: "nat \<Rightarrow> logging \<Rightarrow> bool" where
  "bytes_inv n st \<longleftrightarrow>
     small_buffer * length (buffer_list st) + length (text_of (cur_buffer st)) \<le> 2 * n
     \<and> (case log_phase st of Write_Out out \<Rightarrow> small_buffer * (length out - 1) \<le> 2 * n | _ \<Rightarrow> True)"

lemma int_to_size_length [simp]: "int (length line) < 2 ^ 31 \<Longrightarrow> int_to_size (int (length line)) = length line"
  by (simp add: int_to_size_small)

lemma not_fresh_None [simp]: "\<not> fresh_buffer None"
  by (simp add: fresh_buffer_def)

lemma fresh_good: "fresh_buffer p \<Longrightarrow> good_buffer p \<and> text_of p = []"
  by (auto simp: fresh_buffer_def good_buffer_def text_of_def buffer_text_def split: option.splits)

lemma fresh_new: "length garbage = small_buffer \<Longrightarrow> fresh_buffer (Some (new_log_buffer garbage))"
  by (simp add: fresh_buffer_def buffer_ok_def new_log_buffer_def small_buffer_def)

lemma fresh_zeroed: "length garbage = small_buffer \<Longrightarrow> fresh_buffer (Some (set_zeros (new_log_buffer garbage)))"
  by (simp add: fresh_buffer_def buffer_ok_def new_log_buffer_def small_buffer_def set_zeros_def)

lemma fresh_empty: "fresh_buffer p \<Longrightarrow> empty_buffer p"
  by (auto simp: fresh_buffer_def empty_buffer_def get_length_def to_int32_def split: option.splits)

text \<open>Appending to a buffer that is good.\<close>

lemma append_short:
  assumes "good_buffer p" and "length (text_of p) + length line < small_buffer"
  shows "\<exists>b b'. p = Some b \<and> get_available_size b > int (length line)
    \<and> buffer_append b line (int_to_size (int (length line))) = Inr b'
    \<and> good_buffer (Some b') \<and> text_of (Some b') = text_of p @ line"
proof -
  obtain b where b: "p = Some b" "buffer_ok b" using assms(1) by (auto simp: good_buffer_def split: option.splits)
  have len: "length (buffer_text b) + length line < small_buffer" using assms(2) b(1) by (simp add: text_of_def)
  have "int_to_size (int (length line)) = length line" using len by (simp add: small_buffer_def)
  then show ?thesis
    using log_text.add_fits [OF b(2) len] b len
    by (auto simp: put_string_def available_size good_buffer_def text_of_def small_buffer_def)
qed

lemma append_long:
  assumes "good_buffer p" and "small_buffer \<le> length (text_of p) + length line" and "length line < 2 ^ 31"
  shows "\<exists>b. p = Some b \<and> \<not> get_available_size b > int (length line)
    \<and> buffer_append b line (int_to_size (int (length line))) = Inr b"
proof -
  obtain b where b: "p = Some b" "buffer_ok b" using assms(1) by (auto simp: good_buffer_def split: option.splits)
  have len: "small_buffer \<le> length (buffer_text b) + length line" using assms(2) b(1) by (simp add: text_of_def)
  have "int (length line) < 2 ^ 31" using assms(3) by simp
  then show ?thesis
    using log_text.add_full [OF b(2) len assms(3)] b len int_to_size_length
    by (simp add: put_string_def available_size small_buffer_def)
qed

text \<open>Appending to a fresh buffer keeps a line that fits into an empty one.\<close>

lemma append_fresh:
  assumes "fresh_buffer p" and "length line < 2 ^ 31"
  shows "\<exists>b b'. p = Some b \<and> buffer_append b line (int_to_size (int (length line))) = Inr b'
    \<and> good_buffer (Some b') \<and> text_of (Some b') = (if length line < small_buffer then line else [])"
  using append_short [of p line] append_long [of p line] fresh_good [OF assms(1)] assms(2)
  by (cases "length line < small_buffer") auto

definition unmoved :: "logging \<Rightarrow> logging \<Rightarrow> bool" where
  "unmoved st st' \<longleftrightarrow> log_phase st' = log_phase st \<and> log_running st' = log_running st
     \<and> log_buffer1 st' = log_buffer1 st \<and> log_buffer2 st' = log_buffer2 st \<and> logging_output st' = logging_output st"

lemma logging_append_step:
  assumes inv: "logging_inv st" and garbage: "length garbage = small_buffer" and len: "length line < 2 ^ 31"
  shows "\<exists>st'. logging_append garbage st line (int (length line)) = Inr st' \<and> unmoved st st' \<and> logging_inv st'
    \<and> pending st' = pending st @ accepted_lines [Client line]
    \<and> (bytes_inv n st \<longrightarrow> bytes_inv (n + length line) st')"
proof (cases "length (text_of (cur_buffer st)) + length line < small_buffer")
  case True
  have good: "good_buffer (cur_buffer st)" using inv by (simp add: logging_inv_def)
  obtain b b' where b: "cur_buffer st = Some b" "get_available_size b > int (length line)"
      "buffer_append b line (int_to_size (int (length line))) = Inr b'"
      "good_buffer (Some b')" "text_of (Some b') = text_of (cur_buffer st) @ line"
    using append_short [OF good True] by blast
  let ?st = "st\<lparr>cur_buffer := Some b'\<rparr>"
  have "logging_append garbage st line (int (length line)) = Inr ?st"
    using b(1-3) by (simp add: logging_append_def deref_def)
  moreover have "pending ?st = pending st @ accepted_lines [Client line]"
    using b(5) True by (simp add: pending_def)
  moreover have "logging_inv ?st"
    using inv b(4) by (simp add: logging_inv_def phase_ok_def waits_first_def cong: log_phase.case_cong)
  moreover have "bytes_inv n st \<longrightarrow> bytes_inv (n + length line) ?st"
    using b(5) by (auto simp: bytes_inv_def split: log_phase.split)
  ultimately show ?thesis by (simp add: unmoved_def)
next
  case False
  have good: "good_buffer (cur_buffer st)" using inv by (simp add: logging_inv_def)
  obtain b where b: "cur_buffer st = Some b" "\<not> get_available_size b > int (length line)"
    using append_long [OF good _ len] False by fastforce
  define p where "p = (if next_buffer st = None then Some (new_log_buffer garbage) else next_buffer st)"
  have "fresh_buffer p" using inv garbage fresh_new by (auto simp: p_def logging_inv_def)
  then obtain c c' where c: "p = Some c" "buffer_append c line (int_to_size (int (length line))) = Inr c'"
      "good_buffer (Some c')" "text_of (Some c') = (if length line < small_buffer then line else [])"
    using append_fresh len by blast
  let ?st = "st\<lparr>buffer_list := buffer_list st @ [cur_buffer st], cur_buffer := Some c', next_buffer := None\<rparr>"
  have "logging_append garbage st line (int (length line)) = Inr ?st"
    using b c(1,2) by (auto simp: logging_append_def deref_def p_def Let_def split: if_splits)
  moreover have "pending ?st = pending st @ accepted_lines [Client line]"
    using c(4) by (simp add: pending_def)
  moreover have "logging_inv ?st"
    using inv c(3) good by (simp add: logging_inv_def phase_ok_def waits_first_def cong: log_phase.case_cong)
  moreover have "bytes_inv n st \<longrightarrow> bytes_inv (n + length line) ?st"
    using c(4) False by (auto simp: bytes_inv_def algebra_simps split: log_phase.split)
  ultimately show ?thesis by (simp add: unmoved_def)
qed

section \<open>The steps of the thread\<close>

lemma write_buffers_text:
  "append_log_ok a \<Longrightarrow> list_all good_buffer ps \<Longrightarrow>
   \<exists>a'. write_buffers a ps = Inr a' \<and> append_log_ok a'
     \<and> file_text (log_file a') = file_text (log_file a) @ concat (map text_of ps)"
proof (induction ps arbitrary: a)
  case (Cons p ps)
  then obtain b where b: "p = Some b" "buffer_ok b" by (auto simp: good_buffer_def split: option.splits)
  then have cur: "buf_cur b < 4096" "length (buf_data b) = 4096" by (simp_all add: buffer_ok_def small_buffer_def)
  then have len: "get_length b = int (buf_cur b)" by (simp add: get_length_def to_int32_small)
  obtain a1 where "append_log_append a (buf_data b) (get_length b) = Inr a1" "append_log_ok a1"
      "file_text (log_file a1) = file_text (log_file a) @ buffer_text b"
    using append_log_append_whole [OF Cons.prems(1), of "get_length b" "buf_data b"] cur
    by (auto simp: len buffer_text_def)
  then show ?case using Cons.IH [of a1] Cons.prems(2) b(1) by (auto simp: deref_def text_of_def)
qed simp

lemma collect_step:
  assumes "logging_inv st" and "fresh_buffer (log_buffer1 st)" and "fresh_buffer (log_buffer2 st)"
    and "waits_first st"
  shows "logging_inv (collect st) \<and> written (collect st) = written st \<and> in_hand (collect st) = pending st
    \<and> pending (collect st) = [] \<and> log_running (collect st) = log_running st
    \<and> (\<exists>out. log_phase (collect st) = Write_Out out) \<and> (bytes_inv n st \<longrightarrow> bytes_inv n (collect st))"
proof -
  have "log_phase (collect st) = Write_Out (buffer_list st @ [cur_buffer st])"
    by (simp add: collect_def Let_def)
  moreover have "logging_inv (collect st)"
    using assms fresh_good [OF assms(2)]
    by (auto simp: logging_inv_def collect_def Let_def phase_ok_def waits_first_def Suc_le_eq)
  moreover have "pending (collect st) = []"
    using fresh_good [OF assms(2)] by (simp add: pending_def collect_def Let_def)
  moreover have "bytes_inv n st \<longrightarrow> bytes_inv n (collect st)"
    using fresh_good [OF assms(2)] by (auto simp: bytes_inv_def collect_def Let_def)
  ultimately show ?thesis
    by (simp add: written_def in_hand_def pending_def) (simp add: collect_def Let_def)
qed

text \<open>Taking a pointer back from the list always leaves it null.\<close>

lemma refill_None: "p = None \<Longrightarrow> out \<noteq> [] \<Longrightarrow> refill p out = Inr (None, butlast out)"
  by (simp add: refill_def)

lemma refill_Some: "p \<noteq> None \<Longrightarrow> refill p out = Inr (p, out)"
  by (auto simp: refill_def)

lemma write_out_step:
  assumes inv: "logging_inv st" and phase: "log_phase st = Write_Out out"
  shows "\<exists>st'. write_out st out = Inr st' \<and> logging_inv st' \<and> log_phase st' = Loop_Top \<and> log_buffer1 st' = None
    \<and> log_running st' = log_running st \<and> pending st' = pending st \<and> (bytes_inv n st \<longrightarrow> bytes_inv n st')
    \<and> written st' = written st @ concat (map text_of (if length out > 25 then take 2 out else out))"
proof -
  have out: "log_buffer1 st = None" "out \<noteq> []" "list_all good_buffer out" "log_buffer2 st = None \<longrightarrow> 2 \<le> length out"
    using inv phase by (simp_all add: logging_inv_def phase_ok_def)
  define ps where "ps = (if length out > 25 then take 2 out else out)"
  have "list_all good_buffer ps" using out(3) by (auto simp: ps_def list_all_iff dest: in_set_takeD)
  then obtain a where a: "write_buffers (logging_output st) ps = Inr a" "append_log_ok a"
      "file_text (log_file a) = written st @ concat (map text_of ps)"
    using write_buffers_text inv by (fastforce simp: logging_inv_def written_def)
  define rest where "rest = (if length ps > 2 then take 2 ps else ps)"
  have rest: "rest \<noteq> []" "log_buffer2 st = None \<longrightarrow> butlast rest \<noteq> []"
    using out(2,4) by (auto simp: rest_def ps_def butlast_conv_take)
  then have "\<exists>b2 tl. refill (log_buffer2 st) (butlast rest) = Inr (b2, tl)"
    by (cases "log_buffer2 st = None") (simp_all add: refill_None refill_Some)
  then obtain b2 tl where b2: "refill (log_buffer2 st) (butlast rest) = Inr (b2, tl)" by blast
  let ?st = "st\<lparr>log_buffer1 := None, log_buffer2 := b2, logging_output := append_log_flush a, log_phase := Loop_Top\<rparr>"
  have "write_out st out = Inr ?st"
    using out(2) a(1) b2 refill_None [OF out(1) rest(1)]
    by (simp add: write_out_def Let_def ps_def [symmetric] rest_def [symmetric])
  moreover have "logging_inv ?st"
    using inv a(2) by (simp add: logging_inv_def phase_ok_def waits_first_def)
  moreover have "bytes_inv n st \<longrightarrow> bytes_inv n ?st" by (auto simp: bytes_inv_def)
  ultimately show ?thesis using a(3) by (simp add: written_def pending_def ps_def [symmetric])
qed

text \<open>How many steps the thread can still make while it is not told to stop.\<close>

definition steps_left :: "logging \<Rightarrow> nat" where
  "steps_left st =
     (case log_phase st of
        Thread_Begin \<Rightarrow> 4 | Loop_Top \<Rightarrow> (if log_buffer1 st = None then 0 else 3)
      | In_Wait \<Rightarrow> 2 | Write_Out out \<Rightarrow> 1 | Thread_End \<Rightarrow> 0)"

definition keeps_all :: "logging \<Rightarrow> bool" where
  "keeps_all st \<longleftrightarrow> (case log_phase st of Write_Out out \<Rightarrow> length out \<le> 25 | _ \<Rightarrow> True)"

lemma thread_func_fails:
  assumes "logging_inv st" and "log_running st" and "log_phase st \<noteq> Thread_End" and "steps_left st = 0"
  shows "thread_func garbage st = Inl Assertion_Failed"
  using assms by (auto simp: thread_func.simps loop_top_def empty_buffer_def steps_left_def split: log_phase.splits if_splits)

text \<open>What a step of the thread keeps, and how it comes closer to the failing assertion.\<close>

definition good_step :: "nat \<Rightarrow> logging \<Rightarrow> logging \<Rightarrow> bool" where
  "good_step n st st' \<longleftrightarrow>
     logging_inv st' \<and> log_running st' = log_running st \<and> (bytes_inv n st \<longrightarrow> bytes_inv n st')
     \<and> (keeps_all st \<longrightarrow> written st' @ in_hand st' @ pending st' = written st @ in_hand st @ pending st)
     \<and> (log_running st \<and> log_phase st \<noteq> Thread_End \<longrightarrow> log_phase st' \<noteq> Thread_End \<and> steps_left st' < steps_left st)"

lemma loop_top_step:
  assumes inv: "logging_inv st" and top: "log_phase st = Loop_Top" and run: "log_running st" and b1: "log_buffer1 st \<noteq> None"
  shows "\<exists>st'. thread_func garbage st = Inr st' \<and> good_step n st st'"
proof -
  have fresh: "fresh_buffer (log_buffer1 st)" "fresh_buffer (log_buffer2 st)" "waits_first st"
    using inv top b1 by (auto simp: logging_inv_def phase_ok_def waits_first_def)
  show ?thesis
  proof (cases "buffer_list st = []")
    case True
    then show ?thesis
      using inv top run b1 fresh fresh_empty
      by (auto simp: thread_func.simps loop_top_def logging_inv_def phase_ok_def waits_first_def bytes_inv_def
        written_def in_hand_def pending_def steps_left_def good_step_def)
  next
    case False
    then have "thread_func garbage st = Inr (collect st)"
      using top run fresh b1 fresh_empty by (simp add: thread_func.simps loop_top_def)
    then show ?thesis
      using collect_step [OF inv fresh, of n] top b1 by (auto simp: steps_left_def in_hand_def good_step_def)
  qed
qed

lemma thread_func_good:
  assumes inv: "logging_inv st" and garbage: "length garbage = small_buffer"
    and "log_running st \<or> log_phase st \<noteq> Thread_Begin" and "\<not> (log_running st \<and> log_phase st = Loop_Top \<and> log_buffer1 st = None)"
  shows "\<exists>st'. thread_func garbage st = Inr st' \<and> good_step n st st'"
proof (cases "log_phase st")
  case Thread_Begin
  then show ?thesis
    using inv assms(3) fresh_zeroed [OF garbage]
    by (auto simp: thread_func.simps thread_begin_def logging_inv_def phase_ok_def waits_first_def bytes_inv_def
      written_def in_hand_def pending_def steps_left_def good_step_def)
next
  case Loop_Top
  show ?thesis
  proof (cases "log_running st")
    case False
    then show ?thesis
      using inv Loop_Top
      by (auto simp: thread_func.simps loop_top_def logging_inv_def phase_ok_def waits_first_def bytes_inv_def
        written_def in_hand_def pending_def good_step_def)
  next
    case True
    then show ?thesis using loop_top_step [OF inv Loop_Top] Loop_Top assms(4) by simp
  qed
next
  case In_Wait
  then have "fresh_buffer (log_buffer1 st)" "fresh_buffer (log_buffer2 st)" "waits_first st"
    using inv by (simp_all add: logging_inv_def phase_ok_def waits_first_def)
  then show ?thesis
    using collect_step [OF inv, of n] In_Wait by (auto simp: thread_func.simps steps_left_def in_hand_def good_step_def)
next
  case (Write_Out out)
  then show ?thesis
    using write_out_step [OF inv Write_Out, of n]
    by (auto simp: thread_func.simps steps_left_def in_hand_def keeps_all_def good_step_def)
next
  case Thread_End
  then show ?thesis using inv by (simp add: thread_func.simps good_step_def)
qed

lemmas thread_func_step = thread_func_good [unfolded good_step_def]

section \<open>What a run keeps\<close>

fun short_lines :: "log_event list \<Rightarrow> bool" where
  "short_lines [] \<longleftrightarrow> True"
| "short_lines (Client line # es) \<longleftrightarrow> length line < 2 ^ 31 \<and> short_lines es"
| "short_lines (_ # es) \<longleftrightarrow> short_lines es"

fun thread_steps :: "log_event list \<Rightarrow> nat" where
  "thread_steps [] = 0"
| "thread_steps (Thread_Step # es) = Suc (thread_steps es)"
| "thread_steps (_ # es) = thread_steps es"

lemma short_lines_bytes: "logged_bytes es < 2 ^ 31 \<Longrightarrow> short_lines es"
  by (induction es rule: short_lines.induct) auto

lemma accepted_lines_Cons: "accepted_lines (e # es) = accepted_lines [e] @ accepted_lines es"
  by (cases e) auto

lemma thread_func_blocked:
  "log_phase st = Thread_Begin \<Longrightarrow> \<not> log_running st \<Longrightarrow> thread_func garbage st = Inl Assertion_Failed"
  "log_running st \<Longrightarrow> log_phase st = Loop_Top \<Longrightarrow> log_buffer1 st = None \<Longrightarrow> thread_func garbage st = Inl Assertion_Failed"
  by (simp_all add: thread_func.simps thread_begin_def loop_top_def empty_buffer_def)

lemma logging_inv_running [simp]: "logging_inv (logging_stop st) = logging_inv st"
  by (simp add: logging_inv_def phase_ok_def waits_first_def logging_stop_def cong: log_phase.case_cong)

lemma logging_stop_contents [simp]:
  "bytes_inv n (logging_stop st) = bytes_inv n st" "written (logging_stop st) = written st"
  "in_hand (logging_stop st) = in_hand st" "pending (logging_stop st) = pending st"
  by (simp_all add: bytes_inv_def written_def in_hand_def pending_def logging_stop_def cong: log_phase.case_cong)

lemma logging_step_contents:
  assumes inv: "logging_inv st" "bytes_inv n st" and garbage: "length garbage = small_buffer"
    and ok: "logging_step garbage st e = Inr st'" and len: "n + logged_bytes [e] < 51200"
  shows "logging_inv st' \<and> bytes_inv (n + logged_bytes [e]) st'
    \<and> written st' @ in_hand st' @ pending st' = (written st @ in_hand st @ pending st) @ accepted_lines [e]"
proof (cases e)
  case (Client line)
  then show ?thesis
    using logging_append_step [OF inv(1) garbage, of line n] ok len inv(2)
    by (auto simp: unmoved_def written_def in_hand_def)
next
  case Thread_Step
  have "keeps_all st"
    using inv(2) len by (auto simp: keeps_all_def bytes_inv_def small_buffer_def split: log_phase.splits)
  moreover have "log_running st \<or> log_phase st \<noteq> Thread_Begin" "\<not> (log_running st \<and> log_phase st = Loop_Top \<and> log_buffer1 st = None)"
    using ok Thread_Step thread_func_blocked [of st garbage] by auto
  ultimately show ?thesis
    using thread_func_step [OF inv(1) garbage, of n] ok Thread_Step inv(2) by auto
next
  case Stop
  then have "st' = logging_stop st" using ok by simp
  then show ?thesis using inv Stop by simp
qed

lemma logging_run_contents:
  "logging_inv st \<Longrightarrow> bytes_inv n st \<Longrightarrow> length garbage = small_buffer \<Longrightarrow> logging_run garbage st es = Inr st' \<Longrightarrow>
   n + logged_bytes es < 51200 \<Longrightarrow>
   written st' @ in_hand st' @ pending st' = (written st @ in_hand st @ pending st) @ accepted_lines es"
proof (induction es arbitrary: st n)
  case (Cons e es)
  obtain st1 where st1: "logging_step garbage st e = Inr st1" "logging_run garbage st1 es = Inr st'"
    using Cons.prems(4) by (auto simp: bind_result_Inr)
  have split: "logged_bytes (e # es) = logged_bytes [e] + logged_bytes es" by (cases e) auto
  note s = logging_step_contents [OF Cons.prems(1-3) st1(1)]
  show ?case
    using Cons.IH [of st1 "n + logged_bytes [e]"] s st1(2) Cons.prems(3,5) split accepted_lines_Cons [of e es] by simp
qed simp

lemma started_inv:
  assumes "new_logging garbage answers log_name = Inr st" and "length garbage = small_buffer" and "0 \<notin> set answers"
  shows "logging_inv (logging_start st) \<and> bytes_inv 0 (logging_start st) \<and> log_running (logging_start st)
    \<and> log_phase (logging_start st) = Thread_Begin
    \<and> written (logging_start st) = [] \<and> in_hand (logging_start st) = [] \<and> pending (logging_start st) = []"
  using assms(1,3) fresh_zeroed [OF assms(2)] fresh_good [OF fresh_zeroed [OF assms(2)]]
  by (auto simp: new_logging_def logging_inv_def logging_start_def phase_ok_def bytes_inv_def written_def in_hand_def
    pending_def new_append_log_def new_append_util_def append_log_ok_def split: if_splits)

lemma logging_run_thread:
  "logging_inv st \<Longrightarrow> log_running st \<Longrightarrow> log_phase st \<noteq> Thread_End \<Longrightarrow> length garbage = small_buffer \<Longrightarrow>
   short_lines es \<Longrightarrow> Stop \<notin> set es \<Longrightarrow>
   (steps_left st < thread_steps es \<longrightarrow> logging_run garbage st es = Inl Assertion_Failed)
   \<and> (thread_steps es = 0 \<longrightarrow> (\<exists>st'. logging_run garbage st es = Inr st'))"
proof (induction es arbitrary: st)
  case (Cons e es)
  show ?case
  proof (cases e)
    case (Client line)
    then have len: "length line < 2 ^ 31" using Cons.prems(5) by simp
    obtain st1 where st1: "logging_append garbage st line (int (length line)) = Inr st1" "unmoved st st1" "logging_inv st1"
      using logging_append_step [OF Cons.prems(1,4) len, of 0] by blast
    then have "steps_left st1 = steps_left st" by (simp add: unmoved_def steps_left_def cong: log_phase.case_cong)
    then show ?thesis
      using Cons.IH [OF st1(3)] Cons.prems Client st1(1,2) by (simp add: unmoved_def)
  next
    case Thread_Step
    show ?thesis
    proof (cases "steps_left st = 0")
      case True
      then show ?thesis using thread_func_fails [OF Cons.prems(1-3) True] Thread_Step by simp
    next
      case False
      then have "\<not> (log_running st \<and> log_phase st = Loop_Top \<and> log_buffer1 st = None)" by (auto simp: steps_left_def split: if_splits)
      then obtain st1 where st1: "thread_func garbage st = Inr st1" "logging_inv st1" "log_running st1"
          "log_phase st1 \<noteq> Thread_End" "steps_left st1 < steps_left st"
        using thread_func_step [OF Cons.prems(1,4), of 0] Cons.prems(2,3) by auto
      then show ?thesis
        using Cons.IH [OF st1(2-4)] Cons.prems Thread_Step by auto
    qed
  next
    case Stop
    then show ?thesis using Cons.prems(6) by simp
  qed
qed simp

text \<open>
  C6. The log keeps every line in order as long as fewer than 51200 bytes have been passed: in every
  interleaving of clients and the logging thread, what is in the file, in the thread's hands and in
  the buffers, read in this order, is the sequence of the lines that were passed (lines of 4096 bytes
  and more left out), when \<open>fwrite\<close> never writes nothing; so the file is always a prefix of it, and what is in the buffers when the thread
  ends after \<open>stop\<close> is never written.
\<close>

theorem logging_keeps_lines:
  assumes "new_logging garbage answers log_name = Inr st0" and "length garbage = small_buffer" and "0 \<notin> set answers"
    and "logging_run garbage (logging_start st0) es = Inr st" and "logged_bytes es < 51200"
  shows "written st @ in_hand st @ pending st = accepted_lines es"
  using logging_run_contents [OF _ _ assms(2,4), of 0] started_inv [OF assms(1-3)] assms(5) by simp

theorem logging_keeps_lines_witness:
  "\<exists>st0 st. new_logging (replicate small_buffer CHR ''x'') [1, 2] ''log'' = Inr st0
    \<and> logging_run (replicate small_buffer CHR ''x'') (logging_start st0) [Client ''one '', Client ''two''] = Inr st
    \<and> written st @ in_hand st @ pending st = ''one two''"
proof -
  let ?g = "replicate small_buffer CHR ''x''"
  let ?es = "[Client ''one '', Client ''two'']"
  obtain st0 where st0: "new_logging ?g [1, 2] ''log'' = Inr st0" by (simp add: new_logging_def)
  have start: "length ?g = small_buffer" "0 \<notin> set [1, 2 :: nat]" by simp_all
  obtain st where st: "logging_run ?g (logging_start st0) ?es = Inr st"
    using logging_run_thread [of "logging_start st0" ?g ?es] started_inv [OF st0 start] by auto
  have "accepted_lines ?es = ''one two''" by (simp add: small_buffer_def)
  then show ?thesis using logging_keeps_lines [OF st0 start st] st0 st by simp
qed

text \<open>
  C28. The logging thread never survives its second turn: its own buffers are given up when they are
  taken back from the list, because the shared pointers are reset and not the buffers, so unless the
  log is stopped its fifth step fails an assertion and ends the process, whatever the clients log.
\<close>

theorem logging_thread_fails:
  assumes "new_logging garbage answers log_name = Inr st0" and "length garbage = small_buffer" and "0 \<notin> set answers"
    and "short_lines es" and "Stop \<notin> set es" and "5 \<le> thread_steps es"
  shows "logging_run garbage (logging_start st0) es = Inl Assertion_Failed"
  using logging_run_thread [OF _ _ _ assms(2,4,5), of "logging_start st0"] started_inv [OF assms(1-3)] assms(6)
  by (simp add: steps_left_def)

theorem logging_thread_fails_witness:
  "\<exists>st0. new_logging (replicate small_buffer CHR ''x'') [] ''log'' = Inr st0
    \<and> logging_run (replicate small_buffer CHR ''x'') (logging_start st0)
       [Client ''a'', Thread_Step, Thread_Step, Thread_Step, Client ''b'', Thread_Step, Thread_Step] = Inl Assertion_Failed"
proof -
  obtain st0 where st0: "new_logging (replicate small_buffer CHR ''x'') [] ''log'' = Inr st0"
    by (simp add: new_logging_def)
  show ?thesis
    using logging_thread_fails [OF st0, of "[Client ''a'', Thread_Step, Thread_Step, Thread_Step, Client ''b'', Thread_Step, Thread_Step]"]
      st0 by simp
qed

end
