(* ===== verification/Logger.thy ===== *)
theory Logger
  imports Logging
begin

text \<open>
  \<open>include/Log/Logger.cpp\<close>: a temporary \<open>Logger\<close> per \<open>LOG\<close> statement. Its constructor writes the
  time, the statement its arguments, the destructor the place in the source; the destructor then
  hands the line to the one \<open>Logging\<close>, made by the first line. The text of the time (\<open>strftime\<close> under
  \<open>%Y-%m-%d %H:%M:%S\<close> and a newline) is an argument, and \<open>get_log_name\<close>, which is not defined under
  \<open>src\<close>, the name it returns.
\<close>

type_synonym log_service = "logging option"

definition once_init :: "string \<Rightarrow> nat list \<Rightarrow> string \<Rightarrow> log_service result" where
  "once_init garbage answers log_name =
     bind_result (new_logging garbage answers log_name) (\<lambda>st. Inr (Some (logging_start st)))"

text \<open>\<open>pthread_once\<close> runs the initialisation for the first caller only.\<close>

definition log_output ::
  "string \<Rightarrow> nat list \<Rightarrow> string \<Rightarrow> log_service \<Rightarrow> string \<Rightarrow> int \<Rightarrow> log_service result" where
  "log_output garbage answers log_name service message len =
     bind_result (if service = None then once_init garbage answers log_name else Inr service) (\<lambda>service.
       case service of
         None \<Rightarrow> Inl Undefined_Behaviour
       | Some st \<Rightarrow> bind_result (logging_append garbage st message len) (\<lambda>st'. Inr (Some st')))"

record log_implement =
  log_stream :: log_buffer
  num_lines :: "32 word"
  log_file_name :: string

definition format_time :: "string \<Rightarrow> log_implement \<Rightarrow> log_implement result" where
  "format_time str_time l =
     bind_result (put_cstr (log_stream l) (Some str_time)) (\<lambda>b. Inr (l\<lparr>log_stream := b\<rparr>))"

definition new_log_implement :: "string \<Rightarrow> string \<Rightarrow> string \<Rightarrow> 32 word \<Rightarrow> log_implement result" where
  "new_log_implement garbage str_time log_name lines =
     format_time str_time \<lparr>log_stream = new_log_buffer garbage, num_lines = lines, log_file_name = log_name\<rparr>"

definition destroy_logger ::
  "string \<Rightarrow> nat list \<Rightarrow> string \<Rightarrow> log_service \<Rightarrow> log_implement \<Rightarrow> log_service result" where
  "destroy_logger garbage answers log_name service l =
     bind_result (put_items (log_stream l)
       [Cstr_Item (Some '' -- ''), String_Item (log_file_name l), Char_Item (CHR '':''),
        Int_Item (num_lines l), Char_Item (CHR 0x0A)]) (\<lambda>b.
       log_output garbage answers log_name service (buf_data b) (get_length b))"

text \<open>\<open>LOG << a << b << ...;\<close>\<close>

definition log_statement ::
  "string \<Rightarrow> nat list \<Rightarrow> string \<Rightarrow> string \<Rightarrow> string \<Rightarrow> 32 word \<Rightarrow> log_item list \<Rightarrow> log_service \<Rightarrow> log_service result" where
  "log_statement garbage answers log_name str_time source_file lines items service =
     bind_result (new_log_implement garbage str_time source_file lines) (\<lambda>l.
       bind_result (put_items (log_stream l) items) (\<lambda>b.
         destroy_logger garbage answers log_name service (l\<lparr>log_stream := b\<rparr>)))"

section \<open>The line of a statement\<close>

definition statement_items :: "string \<Rightarrow> string \<Rightarrow> 32 word \<Rightarrow> log_item list \<Rightarrow> log_item list" where
  "statement_items str_time source_file lines items =
     Cstr_Item (Some str_time) # items @ [Cstr_Item (Some '' -- ''), String_Item source_file,
       Char_Item (CHR '':''), Int_Item lines, Char_Item (CHR 0x0A)]"

lemma put_items_append:
  "put_items b (is @ js) = bind_result (put_items b is) (\<lambda>b'. put_items b' js)"
  by (induction "is" arbitrary: b) (simp_all add: bind_result_assoc)

lemma log_statement_items:
  "log_statement garbage answers log_name str_time source_file lines items service =
     bind_result (put_items (new_log_buffer garbage) (statement_items str_time source_file lines items)) (\<lambda>b.
       log_output garbage answers log_name service (buf_data b) (get_length b))"
  by (simp add: log_statement_def new_log_implement_def format_time_def destroy_logger_def statement_items_def
    put_items_append bind_result_assoc)

lemma buffer_append_take:
  "len \<le> length line \<Longrightarrow> len < 2 ^ 31 \<Longrightarrow> buffer_append b (take len line) len = buffer_append b line len"
  by (simp add: buffer_append_def)

lemma logging_append_take:
  assumes "len \<le> length line" and "len < 2 ^ 31"
  shows "logging_append garbage st line (int len) = logging_append garbage st (take len line) (int len)"
proof -
  have "int len < 2 ^ 31" using assms(2) by simp
  then have eq: "int_to_size (int len) = len" by (simp add: int_to_size_small)
  show ?thesis by (simp only: logging_append_def eq buffer_append_take [OF assms])
qed

lemma log_output_text:
  assumes "buffer_ok b" and "logging_inv st" and "length garbage = small_buffer"
  shows "\<exists>st'. log_output garbage answers log_name (Some st) (buf_data b) (get_length b) = Inr (Some st')
    \<and> logging_inv st' \<and> unmoved st st' \<and> pending st' = pending st @ buffer_text b"
proof -
  have cur: "buf_cur b < 4096" "length (buf_data b) = 4096"
    using assms(1) by (simp_all add: buffer_ok_def small_buffer_def)
  then have len: "get_length b = int (buf_cur b)" by (simp add: get_length_def to_int32_small)
  have "length (buffer_text b) = buf_cur b" using assms(1) by simp
  then obtain st' where "logging_append garbage st (buffer_text b) (int (buf_cur b)) = Inr st'" "unmoved st st'"
      "logging_inv st'" "pending st' = pending st @ buffer_text b"
    using logging_append_step [OF assms(2,3), of "buffer_text b"] cur by (auto simp: small_buffer_def)
  moreover have "logging_append garbage st (buf_data b) (int (buf_cur b)) = logging_append garbage st (buffer_text b) (int (buf_cur b))"
    unfolding buffer_text_def by (rule logging_append_take) (use cur in simp_all)
  ultimately show ?thesis by (simp add: log_output_def len)
qed

text \<open>
  C27. A \<open>LOG\<close> statement adds one line to the log: its time, the texts of its arguments, \<open>--\<close> and the
  place in the source, complete and in this order, when the room its parts ask for is there and none is
  a \<open>long double\<close> or a string of 2 GiB; what earlier statements logged stays before it, in the file, in
  the thread's hands or in the buffers.
\<close>

theorem log_statement_line:
  assumes "logging_inv st" and "length garbage = small_buffer"
    and "list_all item_ok (statement_items str_time source_file lines items)"
    and "sum_list (map item_room (statement_items str_time source_file lines items)) \<le> small_buffer"
  shows "\<exists>st'. log_statement garbage answers log_name str_time source_file lines items (Some st) = Inr (Some st')
    \<and> written st' @ in_hand st' @ pending st' = written st @ in_hand st @ pending st
        @ str_time @ concat (map item_text items) @ '' -- '' @ source_file @ '':'' @ item_text (Int_Item lines) @ [CHR 0x0A]"
proof -
  let ?is = "statement_items str_time source_file lines items"
  have new: "buffer_ok (new_log_buffer garbage)" "buffer_text (new_log_buffer garbage) = []"
    using assms(2) by (simp_all add: buffer_ok_def buffer_text_def new_log_buffer_def small_buffer_def)
  obtain b where b: "put_items (new_log_buffer garbage) ?is = Inr b" "buffer_ok b"
      "buffer_text b = kept_items 0 ?is"
    using put_items_text [OF new(1) assms(3)] new(2) by auto
  have "buffer_text b = concat (map item_text ?is)"
    using kept_items_all [of 0 ?is] item_ok_doc [OF assms(3)] assms(4) b(3) by simp
  also have "\<dots> = str_time @ concat (map item_text items) @ '' -- '' @ source_file @ '':'' @ item_text (Int_Item lines) @ [CHR 0x0A]"
    by (simp add: statement_items_def) (simp add: item_text_def)
  finally have tx: "buffer_text b = \<dots>" .
  obtain st' where "log_output garbage answers log_name (Some st) (buf_data b) (get_length b) = Inr (Some st')"
      "unmoved st st'" "pending st' = pending st @ buffer_text b"
    using log_output_text [OF b(2) assms(1,2)] by blast
  then show ?thesis
    using b(1) tx by (simp add: log_statement_items unmoved_def written_def in_hand_def)
qed

theorem log_statement_line_witness:
  "\<exists>st0 st'. new_logging (replicate small_buffer CHR ''x'') [] ''log'' = Inr st0
    \<and> log_statement (replicate small_buffer CHR ''x'') [] ''log'' ''noon '' ''a.cpp'' 12 [Cstr_Item (Some ''fd ''), Int_Item 7]
        (Some (logging_start st0)) = Inr (Some st')
    \<and> written st' @ in_hand st' @ pending st' = ''noon fd 7 -- a.cpp:12'' @ [CHR 0x0A]"
proof -
  let ?g = "replicate small_buffer CHR ''x''"
  obtain st0 where st0: "new_logging ?g [] ''log'' = Inr st0" by (simp add: new_logging_def)
  note start = started_inv [OF st0]
  have items: "list_all item_ok (statement_items ''noon '' ''a.cpp'' 12 [Cstr_Item (Some ''fd ''), Int_Item 7])"
    by (simp add: statement_items_def item_ok_def item_doc_def)
  have room: "sum_list (map item_room (statement_items ''noon '' ''a.cpp'' 12 [Cstr_Item (Some ''fd ''), Int_Item 7])) \<le> small_buffer"
    by (simp add: statement_items_def item_room_def small_buffer_def)
  have "item_text (Int_Item 7) = ''7''" "item_text (Int_Item 12) = ''12''" "item_text (Cstr_Item (Some ''fd '')) = ''fd ''"
    by code_simp+
  then show ?thesis
    using log_statement_line [OF _ _ items room, of "logging_start st0" ?g "[]" "''log''"] start st0 by fastforce
qed

end
