(* ===== verification/Thread_Sync.thy ===== *)
theory Thread_Sync
  imports Cpp_String
begin

text \<open>
  \<open>include/CountDownLatch.cpp\<close>, \<open>include/Thread.cpp\<close> and \<open>include/CurrentThread.h\<close>. The latch is a
  counter with the threads that block on its condition variable: what a thread does between two points
  where the mutex is free is one step, and a blocked thread wakes by a broadcast or for no reason and
  tests again. The number that \<open>gettid\<close> returns is an argument.
\<close>

section \<open>The latch\<close>

record latch =
  latch_count :: int
  latch_blocked :: "nat list"
  latch_woken :: "nat list"
  latch_passed :: "nat list"

definition new_latch :: "int \<Rightarrow> latch" where
  "new_latch n = \<lparr>latch_count = n, latch_blocked = [], latch_woken = [], latch_passed = []\<rparr>"

text \<open>The loop of \<open>wait\<close> up to its next blocking point, for thread \<open>t\<close>.\<close>

definition latch_test :: "nat \<Rightarrow> latch \<Rightarrow> latch" where
  "latch_test t l =
     (if latch_count l > 0 then l\<lparr>latch_blocked := latch_blocked l @ [t]\<rparr>
      else l\<lparr>latch_passed := latch_passed l @ [t]\<rparr>)"

definition notify_all :: "latch \<Rightarrow> latch" where
  "notify_all l = l\<lparr>latch_woken := latch_woken l @ latch_blocked l, latch_blocked := []\<rparr>"

definition count_down :: "latch \<Rightarrow> latch" where
  "count_down l =
     (let l = l\<lparr>latch_count := latch_count l - 1\<rparr> in
      if latch_count l = 0 then notify_all l else l)"

inductive latch_step :: "latch \<Rightarrow> latch \<Rightarrow> bool" where
  arrive: "latch_step l (latch_test t l)"
| recheck: "t \<in> set (latch_woken l) \<Longrightarrow> latch_step l (latch_test t (l\<lparr>latch_woken := remove1 t (latch_woken l)\<rparr>))"
| spurious: "t \<in> set (latch_blocked l) \<Longrightarrow>
    latch_step l (l\<lparr>latch_blocked := remove1 t (latch_blocked l), latch_woken := latch_woken l @ [t]\<rparr>)"
| down: "latch_step l (count_down l)"

definition latch_inv :: "latch \<Rightarrow> bool" where
  "latch_inv l \<longleftrightarrow> (latch_blocked l \<noteq> [] \<longrightarrow> latch_count l > 0) \<and> (latch_passed l \<noteq> [] \<longrightarrow> latch_count l \<le> 0)"

inductive_cases latch_stepE: "latch_step l l'"

lemma latch_step_inv: "latch_inv l \<Longrightarrow> latch_step l l' \<Longrightarrow> latch_inv l'"
  by (erule latch_stepE)
     (auto simp: latch_inv_def latch_test_def count_down_def notify_all_def Let_def split: if_splits)

interpretation latch_sys: invariant_system "\<lambda>l. \<exists>n. l = new_latch n" latch_step latch_inv
proof unfold_locales
  show "\<exists>n. l = new_latch n \<Longrightarrow> latch_inv l" for l by (auto simp: latch_inv_def new_latch_def)
  show "latch_inv l \<Longrightarrow> latch_step l l' \<Longrightarrow> latch_inv l'" for l l' by (rule latch_step_inv)
qed

text \<open>
  The latch holds every thread until its count is used up and no longer: in every interleaving of
  waiting, counting down and spurious wake-ups, nobody has passed while the count is positive, and
  nobody is blocked once it is not, however often it is counted down.
\<close>

theorem latch_releases:
  assumes "run latch_step (new_latch n) l"
  shows "(latch_passed l \<noteq> [] \<longrightarrow> latch_count l \<le> 0) \<and> (latch_count l \<le> 0 \<longrightarrow> latch_blocked l = [])"
  using latch_sys.reach_inv [OF _ assms] by (force simp: latch_inv_def)

theorem latch_releases_witness:
  "\<exists>l. run latch_step (new_latch 1) l \<and> latch_woken l = [4] \<and> latch_count l \<le> 0
    \<and> (latch_passed l \<noteq> [] \<longrightarrow> latch_count l \<le> 0) \<and> (latch_count l \<le> 0 \<longrightarrow> latch_blocked l = [])"
proof -
  let ?l = "count_down (latch_test 4 (new_latch 1))"
  have r: "run latch_step (new_latch 1) ?l"
    using run_step [OF run_single] arrive down by metis
  have "latch_woken ?l = [4]" "latch_count ?l \<le> 0"
    by (simp_all add: count_down_def latch_test_def new_latch_def notify_all_def)
  then show ?thesis using latch_releases [OF r] r by blast
qed

section \<open>Threads\<close>

record thread_object =
  th_started :: bool
  th_joined :: bool
  th_tid :: int
  th_name :: string
  th_latch :: latch
  th_detached :: bool

definition set_default_name :: "string \<Rightarrow> string" where
  "set_default_name name = (if name = [] then ''Thread'' else name)"

definition new_thread :: "string \<Rightarrow> thread_object" where
  "new_thread name =
     \<lparr>th_started = False, th_joined = False, th_tid = 0, th_name = set_default_name name,
      th_latch = new_latch 1, th_detached = False\<rparr>"

text \<open>The thread-local cache of \<open>CurrentThread\<close>; \<open>%5d\<close> pads to five characters.\<close>

record current_thread =
  cached_tid :: int
  tid_string :: string
  thread_name :: string

definition cache_tid :: "nat \<Rightarrow> current_thread \<Rightarrow> current_thread" where
  "cache_tid gettid c =
     (if cached_tid c = 0 then
        (let digits = to_string (int gettid) in
         c\<lparr>cached_tid := int gettid, tid_string := replicate (5 - length digits) (CHR '' '') @ digits @ '' ''\<rparr>)
      else c)"

definition current_tid :: "nat \<Rightarrow> current_thread \<Rightarrow> int \<times> current_thread" where
  "current_tid gettid c =
     (let c = (if cached_tid c = 0 then cache_tid gettid c else c) in (cached_tid c, c))"

text \<open>\<open>runInThread\<close> up to the call of the function: it publishes its number and opens the latch.\<close>

definition run_in_thread :: "nat \<Rightarrow> current_thread \<Rightarrow> thread_object \<Rightarrow> current_thread \<times> thread_object" where
  "run_in_thread gettid c th =
     (case current_tid gettid c of
        (tid, c) \<Rightarrow> (c\<lparr>thread_name := (if th_name th = [] then ''Thread'' else th_name th)\<rparr>,
                      th\<lparr>th_tid := tid, th_latch := count_down (th_latch th)\<rparr>))"

text \<open>
  The rest of \<open>runInThread\<close>: the function, an argument that changes the world of type \<open>'w\<close>, and the
  name the thread has afterwards. \<open>startThread\<close> runs this on the \<open>ThreadData\<close> it is given; the two
  pointers of that object are those of the \<open>Thread\<close> that made it.
\<close>

record 'w thread_data =
  td_func :: "'w \<Rightarrow> 'w"
  td_name :: string

definition new_thread_data :: "('w \<Rightarrow> 'w) \<Rightarrow> thread_object \<Rightarrow> 'w thread_data" where
  "new_thread_data func th = \<lparr>td_func = func, td_name = th_name th\<rparr>"

definition call_thread_function :: "'w thread_data \<Rightarrow> current_thread \<times> 'w \<Rightarrow> current_thread \<times> 'w" where
  "call_thread_function td cw = ((fst cw)\<lparr>thread_name := ''finished''\<rparr>, td_func td (snd cw))"

definition start_thread ::
  "nat \<Rightarrow> 'w thread_data \<Rightarrow> current_thread \<Rightarrow> thread_object \<Rightarrow> 'w \<Rightarrow> current_thread \<times> thread_object \<times> 'w" where
  "start_thread gettid td c th w =
     (case run_in_thread gettid c (th\<lparr>th_name := td_name td\<rparr>) of (c, th') \<Rightarrow>
        case call_thread_function td (c, w) of (c, w) \<Rightarrow> (c, th'\<lparr>th_name := th_name th\<rparr>, w))"

text \<open>The accessors of \<open>CurrentThread\<close> and \<open>Thread\<close>.\<close>

definition tid_string_length :: "current_thread \<Rightarrow> int" where
  "tid_string_length c = int (length (tid_string c))"

definition current_name :: "current_thread \<Rightarrow> string" where
  "current_name c = thread_name c"

definition thread_started :: "thread_object \<Rightarrow> bool" where
  "thread_started th = th_started th"

definition thread_tid :: "thread_object \<Rightarrow> int" where
  "thread_tid th = th_tid th"

definition thread_get_name :: "thread_object \<Rightarrow> string" where
  "thread_get_name th = th_name th"

text \<open>
  \<open>start\<close>: \<open>created\<close> is the number of the new thread, or nothing when \<open>pthread_create\<close> fails. The new
  thread has come past \<open>runInThread\<close> when the wait on the latch returns.
\<close>

definition thread_start :: "nat option \<Rightarrow> thread_object \<Rightarrow> thread_object outcome" where
  "thread_start created th =
     (if th_started th then Some (Inl Assertion_Failed)
      else
        let th = th\<lparr>th_started := True\<rparr> in
        case created of
          None \<Rightarrow> Some (Inr (th\<lparr>th_started := False\<rparr>))
        | Some tid \<Rightarrow>
            (case run_in_thread tid \<lparr>cached_tid = 0, tid_string = [], thread_name = []\<rparr> th of
               (c, th) \<Rightarrow>
                 if latch_count (th_latch th) > 0 then None
                 else if \<not> th_tid th > 0 then Some (Inl Assertion_Failed)
                 else Some (Inr th)))"

definition thread_join :: "thread_object \<Rightarrow> thread_object result" where
  "thread_join th =
     (if \<not> th_started th then Inl Assertion_Failed
      else if th_joined th then Inl Assertion_Failed
      else Inr (th\<lparr>th_joined := True\<rparr>))"

definition destroy_thread :: "thread_object \<Rightarrow> thread_object" where
  "destroy_thread th = (if th_started th \<and> \<not> th_joined th then th\<lparr>th_detached := True\<rparr> else th)"

text \<open>A started thread has published a positive number, and it is joined or detached, not both.\<close>

lemma thread_start_publishes:
  assumes "thread_start (Some tid) (new_thread name) = Some (Inr th)"
  shows "th_started th \<and> th_tid th = int tid \<and> 0 < tid \<and> \<not> th_joined th"
  using assms
  by (auto simp: thread_start_def run_in_thread_def current_tid_def cache_tid_def new_thread_def Let_def split: if_splits)

lemma thread_start_returns:
  "0 < tid \<Longrightarrow> \<exists>th. thread_start (Some tid) (new_thread name) = Some (Inr th)"
  by (simp add: thread_start_def run_in_thread_def current_tid_def cache_tid_def new_thread_def new_latch_def
    count_down_def notify_all_def Let_def)

lemma destroy_thread_once:
  "th_started th \<Longrightarrow> \<not> th_detached th \<Longrightarrow> th_detached (destroy_thread th) = (\<not> th_joined th)"
  by (simp add: destroy_thread_def)

text \<open>
  The text of a thread's number fits its buffer of 32 characters for every number of a process, and is
  padded to six.
\<close>

lemma cached_string_fits:
  assumes "g < 2147483648" and "cached_tid c = 0"
  shows "6 \<le> tid_string_length (cache_tid g c) \<and> tid_string_length (cache_tid g c) \<le> 11"
proof -
  have "length (to_string (int g)) \<le> 10" using dec_nat_length [of g 10] assms(1) by (simp add: to_string_def)
  then show ?thesis using assms(2) by (auto simp: cache_tid_def tid_string_length_def Let_def)
qed

text \<open>A thread runs its function once and leaves the object as \<open>runInThread\<close> published it.\<close>

lemma start_thread_once:
  "start_thread gettid (new_thread_data func th) c th w = (c', th', w') \<Longrightarrow>
   w' = func w \<and> th_tid th' = fst (current_tid gettid c) \<and> latch_count (th_latch th') = latch_count (th_latch th) - 1
   \<and> current_name c' = ''finished''"
  by (auto simp: start_thread_def new_thread_data_def call_thread_function_def run_in_thread_def current_name_def
    count_down_def notify_all_def Let_def split: prod.splits)

end
