(* ===== verification/Event_Loop.thy ===== *)
theory Event_Loop
  imports Epoll Util_IO
begin

unbundle bit_operations_syntax

text \<open>
  \<open>EventLoop.cpp\<close>: one thread polls, lets the channels handle their events, runs the functors other
  threads have queued and sweeps the timers; an \<open>eventfd\<close> wakes it out of the poll. A functor is the
  list of what it does to the loop (queue or run another one, ask the loop to quit) and a number that
  stands for the rest. \<open>queued\<close> and \<open>calls_made\<close> are histories: the functors queued and those called. The
  log lines are left out. Threads are numbered; \<open>tid\<close> is the calling one.
\<close>

datatype loop_functor = Functor nat "loop_call list"
  and loop_call = Call_Queue loop_functor | Call_Run loop_functor | Call_Quit

record event_loop =
  looping :: bool
  quit_flag :: bool
  event_handling :: bool
  calling_pending_functors :: bool
  pending_functors :: "loop_functor list"
  eventfd :: nat
  poller :: epoll
  loop_thread :: int
  wakeup_channel :: channel_state
  queued :: "loop_functor list"
  calls_made :: "nat list"

section \<open>The wake-up descriptor\<close>

definition create_event_fd :: "int \<Rightarrow> nat result" where
  "create_event_fd event_fd = (if event_fd < 0 then Inl Aborted else Inr (nat event_fd))"

text \<open>
  A non-blocking \<open>eventfd\<close>: a write adds to the counter unless it would pass its largest value, a read
  returns the counter in 8 bytes and clears it, or fails with \<open>EAGAIN\<close> when it is 0.
\<close>

definition eventfd_max :: nat where
  "eventfd_max = 18446744073709551614"

definition eventfd_write :: "nat \<Rightarrow> writes" where
  "eventfd_write n = (if n < eventfd_max then [Ret 8] else [Err EAGAIN])"

definition eventfd_read :: "nat \<Rightarrow> reads" where
  "eventfd_read n =
     (if n = 0 then [Err EAGAIN]
      else [Ret (map (\<lambda>i. char_of (n div 256 ^ i)) [0..<8]), Err EAGAIN])"

definition wakeup :: "event_loop \<Rightarrow> int \<times> event_loop" where
  "wakeup l =
     (case writen_buf (eventfd_write (eventfd l)) (CHR 0x01 # replicate 7 (CHR 0x00)) of
        Some (Inr (n, sent, es)) \<Rightarrow> (n, if n = 8 then l\<lparr>eventfd := eventfd l + 1\<rparr> else l)
      | _ \<Rightarrow> (- 1, l))"

text \<open>\<open>handle_read\<close>: the count that \<open>readn\<close> returns and the loop; the variable \<open>one\<close> has 8 bytes.\<close>

definition wakeup_handle_read :: "event_loop \<Rightarrow> (int \<times> event_loop) outcome" where
  "wakeup_handle_read l =
     bind_outcome
       (readn_buf (eventfd_read (eventfd l)) (CHR 0x01 # replicate 7 (CHR 0x00)) 0 8 0) (\<lambda>(n, one, es).
         Some (Inr (n, l\<lparr>eventfd := 0,
           wakeup_channel := set_events (EPOLLIN OR EPOLLET) (wakeup_channel l)\<rparr>)))"

text \<open>
  \<open>handle_connect\<close>. Its first statement calls a function \<open>Epoll\<close> does not have (four arguments); what is
  left is the update of the poller.
\<close>

definition loop_update_poller ::
  "ctl_kernel \<Rightarrow> (nat \<Rightarrow> bool) \<Rightarrow> timeval \<Rightarrow> channel_state \<Rightarrow> int \<Rightarrow> event_loop \<Rightarrow>
   ((nat \<times> nat) option \<times> channel_state \<times> event_loop) result" where
  "loop_update_poller ctl_ok alive now ch timeout l =
     bind_result (modify_fd_in_epoll ctl_ok alive now ch timeout (poller l)) (\<lambda>(link, ch, ep).
       Inr (link, ch, l\<lparr>poller := ep\<rparr>))"

definition wakeup_handle_connect ::
  "ctl_kernel \<Rightarrow> (nat \<Rightarrow> bool) \<Rightarrow> timeval \<Rightarrow> event_loop \<Rightarrow> event_loop result" where
  "wakeup_handle_connect ctl_ok alive now l =
     bind_result (loop_update_poller ctl_ok alive now (wakeup_channel l) 0 l) (\<lambda>(link, ch, l).
       Inr (l\<lparr>wakeup_channel := ch\<rparr>))"

text \<open>What the wake-up channel runs, and the dispatch of its events.\<close>

fun wakeup_callback ::
  "ctl_kernel \<Rightarrow> (nat \<Rightarrow> bool) \<Rightarrow> timeval \<Rightarrow> callback \<Rightarrow> event_loop \<Rightarrow> event_loop outcome" where
  "wakeup_callback ctl_ok alive now Wakeup_Handle_Read l = bind_outcome (wakeup_handle_read l) (\<lambda>(n, l). Some (Inr l))"
| "wakeup_callback ctl_ok alive now Wakeup_Handle_Connect l = Some (wakeup_handle_connect ctl_ok alive now l)"
| "wakeup_callback ctl_ok alive now cb l = Some (Inr l)"

definition wakeup_handle_events ::
  "ctl_kernel \<Rightarrow> (nat \<Rightarrow> bool) \<Rightarrow> timeval \<Rightarrow> event_loop \<Rightarrow> event_loop outcome" where
  "wakeup_handle_events ctl_ok alive now =
     handle_events wakeup_channel (\<lambda>f l. l\<lparr>wakeup_channel := f (wakeup_channel l)\<rparr>)
       (wakeup_callback ctl_ok alive now)"

definition loop_remove_from_poller :: "ctl_kernel \<Rightarrow> channel_state \<Rightarrow> event_loop \<Rightarrow> event_loop result" where
  "loop_remove_from_poller ctl_ok ch l =
     bind_result (delete_fd_in_epoll ctl_ok ch (poller l)) (\<lambda>ep. Inr (l\<lparr>poller := ep\<rparr>))"

definition loop_add_to_poller ::
  "ctl_kernel \<Rightarrow> (nat \<Rightarrow> bool) \<Rightarrow> timeval \<Rightarrow> nat \<Rightarrow> channel_state \<Rightarrow> int \<Rightarrow> event_loop \<Rightarrow>
   ((nat \<times> nat) option \<times> channel_state \<times> event_loop) result" where
  "loop_add_to_poller ctl_ok alive now c ch timeout l =
     bind_result (add_fd_in_epoll ctl_ok alive now c ch timeout (poller l)) (\<lambda>(link, ch, ep).
       Inr (link, ch, l\<lparr>poller := ep\<rparr>))"

definition loop_shutdown :: "channel_state \<Rightarrow> sockop list" where
  "loop_shutdown ch = shutdown_writer (ch_fd ch)"

text \<open>
  The constructor: \<open>current\<close> is the loop the thread already has (then the variable is left as it is),
  \<open>c\<close> the number of the wake-up channel.
\<close>

definition new_event_loop ::
  "ctl_kernel \<Rightarrow> (nat \<Rightarrow> bool) \<Rightarrow> timeval \<Rightarrow> 32 word \<Rightarrow> int \<Rightarrow> nat \<Rightarrow> int \<Rightarrow> 'p option \<Rightarrow> 'p \<Rightarrow>
   (event_loop \<times> 'p option) result" where
  "new_event_loop ctl_ok alive now garbage event_fd c tid current this =
     bind_result (create_event_fd event_fd) (\<lambda>fd.
       let ch = set_connect_handler Wakeup_Handle_Connect (set_read_handler Wakeup_Handle_Read
             (set_events (EPOLLIN OR EPOLLET) (new_channel_fd garbage fd))) in
       bind_result (add_fd_in_epoll ctl_ok alive now c ch 0 new_epoll) (\<lambda>(link, ch, ep).
         Inr (\<lparr>looping = False, quit_flag = False, event_handling = False, calling_pending_functors = False,
               pending_functors = [], eventfd = 0, poller = ep, loop_thread = tid, wakeup_channel = ch,
               queued = [], calls_made = []\<rparr>,
              if current = None then Some this else current)))"

text \<open>The destructor clears the variable of the thread, even when it names another loop.\<close>

definition destroy_event_loop :: "event_loop \<Rightarrow> 'p option \<Rightarrow> sockop list \<times> 'p option" where
  "destroy_event_loop l current = ([Close (ch_fd (wakeup_channel l))], None)"

section \<open>Functors\<close>

definition is_thread_in_loop :: "int \<Rightarrow> event_loop \<Rightarrow> bool" where
  "is_thread_in_loop tid l \<longleftrightarrow> loop_thread l = tid"

text \<open>The two halves of \<open>queue_in_loop\<close>: the locked one, and the test and the wake-up behind it.\<close>

definition push_functor :: "loop_functor \<Rightarrow> event_loop \<Rightarrow> event_loop" where
  "push_functor f l = l\<lparr>pending_functors := pending_functors l @ [f], queued := queued l @ [f]\<rparr>"

definition wake_if_needed :: "int \<Rightarrow> event_loop \<Rightarrow> event_loop" where
  "wake_if_needed tid l =
     (if \<not> is_thread_in_loop tid l \<or> calling_pending_functors l then snd (wakeup l) else l)"

definition queue_in_loop :: "int \<Rightarrow> loop_functor \<Rightarrow> event_loop \<Rightarrow> event_loop" where
  "queue_in_loop tid f l = wake_if_needed tid (push_functor f l)"

definition quit :: "int \<Rightarrow> event_loop \<Rightarrow> event_loop" where
  "quit tid l =
     (let l = l\<lparr>quit_flag := True\<rparr> in if \<not> is_thread_in_loop tid l then snd (wakeup l) else l)"

fun call_functor :: "int \<Rightarrow> loop_functor \<Rightarrow> event_loop \<Rightarrow> event_loop"
  and do_call :: "int \<Rightarrow> loop_call \<Rightarrow> event_loop \<Rightarrow> event_loop"
  and do_calls :: "int \<Rightarrow> loop_call list \<Rightarrow> event_loop \<Rightarrow> event_loop" where
  "call_functor tid (Functor n cs) l = do_calls tid cs (l\<lparr>calls_made := calls_made l @ [n]\<rparr>)"
| "do_call tid (Call_Queue f) l = queue_in_loop tid f l"
| "do_call tid (Call_Run f) l = (if is_thread_in_loop tid l then call_functor tid f l else queue_in_loop tid f l)"
| "do_call tid Call_Quit l = quit tid l"
| "do_calls tid [] l = l"
| "do_calls tid (c # cs) l = do_calls tid cs (do_call tid c l)"

definition run_in_loop :: "int \<Rightarrow> loop_functor \<Rightarrow> event_loop \<Rightarrow> event_loop" where
  "run_in_loop tid f l = (if is_thread_in_loop tid l then call_functor tid f l else queue_in_loop tid f l)"

definition swap_functors :: "event_loop \<Rightarrow> loop_functor list \<times> event_loop" where
  "swap_functors l = (pending_functors l, l\<lparr>pending_functors := []\<rparr>)"

text \<open>\<open>do_pending_functors\<close> when no other thread comes in between.\<close>

definition do_pending_functors :: "int \<Rightarrow> event_loop \<Rightarrow> event_loop" where
  "do_pending_functors tid l =
     (case swap_functors (l\<lparr>calling_pending_functors := True\<rparr>) of
        (functor_list, l) \<Rightarrow> (foldl (\<lambda>l f. call_functor tid f l) l functor_list)\<lparr>calling_pending_functors := False\<rparr>)"

section \<open>The loop\<close>

text \<open>
  Where the loop thread is in \<open>loop\<close>. An event is the wake-up descriptor or a channel whose handlers do
  something to the loop.
\<close>

datatype loop_event = Wakeup_Ready | Channel_Ready "loop_call list"

datatype loop_pc =
    Before_Loop
  | Polling
  | Handling "loop_event list"
  | Swapping
  | Calling "loop_functor list"
  | Sweeping
  | Loop_Left

text \<open>
  \<open>owed\<close> counts the other threads that have pushed a functor or set the flag and have not yet reached
  their wake-up; \<open>drained\<close> is the history of the functors called from the swapped lists.
\<close>

record loop_system =
  sys_loop :: event_loop
  loop_pc :: loop_pc
  owed :: nat
  drained :: "loop_functor list"

definition loop_test :: "event_loop \<Rightarrow> event_loop \<times> loop_pc" where
  "loop_test l = (if \<not> quit_flag l then (l, Polling) else (l\<lparr>looping := False\<rparr>, Loop_Left))"

definition loop_enter :: "int \<Rightarrow> event_loop \<Rightarrow> (event_loop \<times> loop_pc) result" where
  "loop_enter tid l =
     (if looping l then Inl Assertion_Failed
      else if \<not> is_thread_in_loop tid l then Inl Assertion_Failed
      else Inr (loop_test (l\<lparr>looping := True, quit_flag := False\<rparr>)))"

text \<open>The poll has set the reported events of the wake-up channel to \<open>EPOLLIN\<close>, and its events to 0.\<close>

definition wakeup_reported :: "event_loop \<Rightarrow> event_loop" where
  "wakeup_reported l = l\<lparr>wakeup_channel := set_events 0 (set_revents EPOLLIN (wakeup_channel l))\<rparr>"

fun handle_event ::
  "ctl_kernel \<Rightarrow> (nat \<Rightarrow> bool) \<Rightarrow> timeval \<Rightarrow> int \<Rightarrow> loop_event \<Rightarrow> event_loop \<Rightarrow> event_loop outcome" where
  "handle_event ctl_ok alive now tid Wakeup_Ready l = wakeup_handle_events ctl_ok alive now (wakeup_reported l)"
| "handle_event ctl_ok alive now tid (Channel_Ready cs) l = Some (Inr (do_calls tid cs l))"

text \<open>
  One step of the loop thread. The poll returns the events that are ready; the wake-up descriptor is
  when its counter is not 0. The sweep of the timers changes only the poller and the connections, which
  no step here reads, and is left out of the steps; \<open>Loop_Turn\<close> has it.
\<close>

inductive loop_thread_step :: "loop_system \<Rightarrow> loop_system \<Rightarrow> bool" where
  enter: "loop_pc s = Before_Loop \<Longrightarrow> loop_enter (loop_thread (sys_loop s)) (sys_loop s) = Inr (l, pc) \<Longrightarrow>
    loop_thread_step s (s\<lparr>sys_loop := l, loop_pc := pc\<rparr>)"
| poll_returns: "loop_pc s = Polling \<Longrightarrow> es \<noteq> [] \<Longrightarrow> Wakeup_Ready \<in> set es \<longrightarrow> eventfd (sys_loop s) > 0 \<Longrightarrow>
    loop_thread_step s (s\<lparr>sys_loop := (sys_loop s)\<lparr>event_handling := True\<rparr>, loop_pc := Handling es\<rparr>)"
| handle: "loop_pc s = Handling (e # es) \<Longrightarrow> 
    handle_event ctl_ok alive now (loop_thread (sys_loop s)) e (sys_loop s) = Some (Inr l) \<Longrightarrow>
    loop_thread_step s (s\<lparr>sys_loop := l, loop_pc := Handling es\<rparr>)"
| handled: "loop_pc s = Handling [] \<Longrightarrow>
    loop_thread_step s (s\<lparr>sys_loop := (sys_loop s)\<lparr>event_handling := False, calling_pending_functors := True\<rparr>,
      loop_pc := Swapping\<rparr>)"
| swap: "loop_pc s = Swapping \<Longrightarrow> swap_functors (sys_loop s) = (fs, l) \<Longrightarrow>
    loop_thread_step s (s\<lparr>sys_loop := l, loop_pc := Calling fs\<rparr>)"
| call: "loop_pc s = Calling (f # fs) \<Longrightarrow>
    loop_thread_step s (s\<lparr>sys_loop := call_functor (loop_thread (sys_loop s)) f (sys_loop s),
      loop_pc := Calling fs, drained := drained s @ [f]\<rparr>)"
| called: "loop_pc s = Calling [] \<Longrightarrow>
    loop_thread_step s (s\<lparr>sys_loop := (sys_loop s)\<lparr>calling_pending_functors := False\<rparr>, loop_pc := Sweeping\<rparr>)"
| swept: "loop_pc s = Sweeping \<Longrightarrow> loop_test (sys_loop s) = (l, pc) \<Longrightarrow>
    loop_thread_step s (s\<lparr>sys_loop := l, loop_pc := pc\<rparr>)"

text \<open>Other threads: \<open>run_in_loop\<close> and \<open>queue_in_loop\<close> push, both they and \<open>quit\<close> then wake the loop.\<close>

inductive other_thread_step :: "loop_system \<Rightarrow> loop_system \<Rightarrow> bool" where
  push: "other_thread_step s (s\<lparr>sys_loop := push_functor f (sys_loop s), owed := owed s + 1\<rparr>)"
| ask_quit: "other_thread_step s (s\<lparr>sys_loop := (sys_loop s)\<lparr>quit_flag := True\<rparr>, owed := owed s + 1\<rparr>)"
| wake: "owed s > 0 \<Longrightarrow> other_thread_step s (s\<lparr>sys_loop := snd (wakeup (sys_loop s)), owed := owed s - 1\<rparr>)"

definition system_step :: "loop_system \<Rightarrow> loop_system \<Rightarrow> bool" where
  "system_step s t \<longleftrightarrow> loop_thread_step s t \<or> other_thread_step s t"

text \<open>A loop as the constructor leaves it, before any other thread knows it.\<close>

definition fresh_loop :: "loop_system \<Rightarrow> bool" where
  "fresh_loop s \<longleftrightarrow>
     (\<exists>ctl_ok alive now garbage event_fd c tid current this current'.
        new_event_loop ctl_ok alive now garbage event_fd c tid current (this :: nat) = Inr (sys_loop s, current'))
     \<and> loop_pc s = Before_Loop \<and> owed s = 0 \<and> drained s = []"

section \<open>The wake-up\<close>

lemma wakeup_counter:
  "wakeup l = (if eventfd l < eventfd_max then (8, l\<lparr>eventfd := eventfd l + 1\<rparr>) else (0, l))"
  by (simp add: wakeup_def eventfd_write_def writen_buf_def write_loop.simps numeral_eq_Suc)

lemma wakeup_signals [simp]: "eventfd (snd (wakeup l)) > 0"
  by (simp add: wakeup_counter eventfd_max_def)

lemma wakeup_keeps [simp]:
  "pending_functors (snd (wakeup l)) = pending_functors l" "queued (snd (wakeup l)) = queued l"
  "quit_flag (snd (wakeup l)) = quit_flag l" "loop_thread (snd (wakeup l)) = loop_thread l"
  "calling_pending_functors (snd (wakeup l)) = calling_pending_functors l" "looping (snd (wakeup l)) = looping l"
  by (simp_all add: wakeup_counter)

lemma wakeup_mono: "eventfd l \<le> eventfd (snd (wakeup l))"
  by (simp add: wakeup_counter)

text \<open>
  The read that clears the counter. The loop of \<open>readn\<close> does not count what it has read, asks again and
  returns 0.
\<close>

lemma wakeup_read_counts_nothing:
  "wakeup_handle_read l = Some (Inr (0, l\<lparr>eventfd := 0, wakeup_channel := set_events (EPOLLIN OR EPOLLET) (wakeup_channel l)\<rparr>))"
  by (simp add: wakeup_handle_read_def eventfd_read_def readn_buf.simps mem_write_def Let_def)

section \<open>No functor is left without a wake-up\<close>

definition extends :: "event_loop \<Rightarrow> event_loop \<Rightarrow> bool" where
  "extends l l' \<longleftrightarrow>
     loop_thread l' = loop_thread l \<and> calling_pending_functors l' = calling_pending_functors l
     \<and> looping l' = looping l \<and> eventfd l \<le> eventfd l'
     \<and> (\<exists>fs. pending_functors l' = pending_functors l @ fs \<and> queued l' = queued l @ fs
          \<and> (fs \<noteq> [] \<longrightarrow> calling_pending_functors l \<longrightarrow> eventfd l' > 0))"

lemma extends_refl [intro]: "extends l l"
  by (simp add: extends_def)

lemma extends_trans:
  assumes "extends l m" and "extends m k"
  shows "extends l k"
proof -
  obtain fs where fs: "pending_functors m = pending_functors l @ fs" "queued m = queued l @ fs"
      "fs \<noteq> [] \<longrightarrow> calling_pending_functors l \<longrightarrow> eventfd m > 0"
    using assms(1) unfolding extends_def by blast
  obtain gs where gs: "pending_functors k = pending_functors m @ gs" "queued k = queued m @ gs"
      "gs \<noteq> [] \<longrightarrow> calling_pending_functors m \<longrightarrow> eventfd k > 0"
    using assms(2) unfolding extends_def by blast
  show ?thesis using assms fs gs unfolding extends_def by (intro conjI exI [of _ "fs @ gs"]) auto
qed

lemma queue_extends: "extends l (queue_in_loop tid f l)"
  by (auto simp: extends_def queue_in_loop_def wake_if_needed_def push_functor_def
    intro: order_trans [OF _ wakeup_mono])

lemma quit_extends: "extends l (quit tid l)"
  by (auto simp: extends_def quit_def Let_def intro: order_trans [OF _ wakeup_mono])

lemma calls_extend:
  "extends l (call_functor tid f l)" "extends l (do_call tid c l)" "extends l (do_calls tid cs l)"
proof (induction tid f l and tid c l and tid cs l rule: call_functor_do_call_do_calls.induct)
  case (1 tid n cs l)
  have "extends l (l\<lparr>calls_made := calls_made l @ [n]\<rparr>)" by (simp add: extends_def)
  from extends_trans [OF this 1] show ?case by simp
next
  case (6 tid c cs l)
  then show ?case using extends_trans by simp
qed (auto simp: queue_extends quit_extends)

definition signalled :: "loop_system \<Rightarrow> bool" where
  "signalled s \<longleftrightarrow> eventfd (sys_loop s) > 0 \<or> owed s > 0"

definition in_call :: "loop_system \<Rightarrow> loop_functor list" where
  "in_call s = (case loop_pc s of Calling fs \<Rightarrow> fs | _ \<Rightarrow> [])"

definition loop_inv :: "loop_system \<Rightarrow> bool" where
  "loop_inv s \<longleftrightarrow>
     (let l = sys_loop s; waiting = pending_functors l \<noteq> [] in
      queued l = drained s @ in_call s @ pending_functors l
      \<and> (case loop_pc s of
           Before_Loop \<Rightarrow> waiting \<longrightarrow> signalled s
         | Polling \<Rightarrow> waiting \<or> quit_flag l \<longrightarrow> signalled s
         | Handling es \<Rightarrow> True
         | Swapping \<Rightarrow> calling_pending_functors l
         | Calling fs \<Rightarrow> calling_pending_functors l \<and> (waiting \<longrightarrow> signalled s)
         | Sweeping \<Rightarrow> waiting \<longrightarrow> signalled s
         | Loop_Left \<Rightarrow> True))"

lemma loop_inv_other: "loop_inv s \<Longrightarrow> other_thread_step s t \<Longrightarrow> loop_inv t"
  by (erule other_thread_step.cases)
     (auto simp: loop_inv_def signalled_def in_call_def push_functor_def Let_def split: loop_pc.splits)

lemma wakeup_callback_keeps:
  "wakeup_callback ctl_ok alive now cb l = Some (Inr l') \<Longrightarrow>
   pending_functors l' = pending_functors l \<and> queued l' = queued l \<and> quit_flag l' = quit_flag l"
  by (cases cb) (auto simp: wakeup_read_counts_nothing wakeup_handle_connect_def loop_update_poller_def bind_result_Inr)

lemma wakeup_handle_events_keeps:
  assumes "wakeup_handle_events ctl_ok alive now l = Some (Inr l')"
  shows "pending_functors l' = pending_functors l \<and> queued l' = queued l \<and> quit_flag l' = quit_flag l"
  by (rule handle_events_preserves [OF assms [unfolded wakeup_handle_events_def]])
    (use wakeup_callback_keeps in auto)

lemma handle_event_keeps:
  assumes "handle_event ctl_ok alive now tid e l = Some (Inr l')"
  shows "\<exists>fs. pending_functors l' = pending_functors l @ fs \<and> queued l' = queued l @ fs"
proof (cases e)
  case Wakeup_Ready
  with assms wakeup_handle_events_keeps [of ctl_ok alive now "wakeup_reported l" l'] show ?thesis
    by (simp add: wakeup_reported_def)
next
  case (Channel_Ready cs)
  with assms calls_extend(3) [of l tid cs] show ?thesis by (auto simp: extends_def)
qed

lemma loop_inv_call:
  assumes "loop_inv s" and "loop_pc s = Calling (f # fs)"
  shows "loop_inv (s\<lparr>sys_loop := call_functor tid f (sys_loop s), loop_pc := Calling fs, drained := drained s @ [f]\<rparr>)"
  using assms calls_extend(1) [of "sys_loop s" tid f]
  by (auto simp: loop_inv_def signalled_def in_call_def Let_def extends_def)

lemma loop_inv_thread: "loop_inv s \<Longrightarrow> loop_thread_step s t \<Longrightarrow> loop_inv t"
proof (erule loop_thread_step.cases)
  fix s' f fs
  assume "loop_inv s" "s = s'" "t = s'\<lparr>sys_loop := call_functor (loop_thread (sys_loop s')) f (sys_loop s'),
      loop_pc := Calling fs, drained := drained s' @ [f]\<rparr>" "loop_pc s' = Calling (f # fs)"
  then show ?thesis using loop_inv_call by blast
next
  fix s' e es ctl_ok alive now l
  assume "loop_inv s" "s = s'" "t = s'\<lparr>sys_loop := l, loop_pc := Handling es\<rparr>" "loop_pc s' = Handling (e # es)"
    "handle_event ctl_ok alive now (loop_thread (sys_loop s')) e (sys_loop s') = Some (Inr l)"
  then show ?thesis using handle_event_keeps [of ctl_ok alive now "loop_thread (sys_loop s')" e "sys_loop s'" l]
    by (auto simp: loop_inv_def in_call_def Let_def)
qed (auto simp: loop_inv_def signalled_def in_call_def Let_def loop_enter_def loop_test_def swap_functors_def
  split: if_splits)

lemma fresh_loop_empty:
  assumes "fresh_loop s"
  shows "pending_functors (sys_loop s) = [] \<and> queued (sys_loop s) = [] \<and> loop_pc s = Before_Loop \<and> drained s = []"
proof -
  obtain ctl_ok alive now garbage event_fd c tid current and this :: nat and current' where
      "new_event_loop ctl_ok alive now garbage event_fd c tid current this = Inr (sys_loop s, current')"
    using assms by (auto simp: fresh_loop_def)
  note new = this [unfolded new_event_loop_def Let_def bind_result_Inr]
  show ?thesis using assms new by (auto simp: fresh_loop_def bind_result_Inr dest!: sym [of _ "sys_loop s"])
qed

lemma fresh_loop_inv: "fresh_loop s \<Longrightarrow> loop_inv s"
  using fresh_loop_empty [of s] by (simp add: loop_inv_def in_call_def)

interpretation loop_sys: invariant_system fresh_loop system_step loop_inv
  by unfold_locales (auto simp: system_step_def fresh_loop_inv intro: loop_inv_other loop_inv_thread)

text \<open>
  C7. No functor and no request to quit is slept on: in every interleaving, when the loop thread polls
  while functors are queued or the quit flag is set, the wake-up descriptor is readable, so the poll
  returns, or a thread has not yet reached its wake-up; and the functors are called each once, in the
  order they were queued.
\<close>

theorem loop_never_sleeps_on_functors:
  assumes "fresh_loop s" and "run system_step s t"
  shows "(loop_pc t = Polling \<and> (pending_functors (sys_loop t) \<noteq> [] \<or> quit_flag (sys_loop t)) \<longrightarrow>
      eventfd (sys_loop t) > 0 \<or> owed t > 0)
    \<and> queued (sys_loop t) = drained t @ in_call t @ pending_functors (sys_loop t)"
  using loop_sys.reach_inv [OF assms] by (auto simp: loop_inv_def signalled_def Let_def)

text \<open>A loop for the witnesses: descriptor 5, thread 1, every \<open>epoll_ctl\<close> succeeds.\<close>

definition demo_loop :: event_loop where
  "demo_loop =
     (case new_event_loop (\<lambda>_ _ _ _. True) (\<lambda>_. True) (0, 0) 0 5 0 1 None (0 :: nat) of Inr (l, p) \<Rightarrow> l | Inl f \<Rightarrow> undefined)"

definition demo_system :: loop_system where
  "demo_system = \<lparr>sys_loop = demo_loop, loop_pc = Before_Loop, owed = 0, drained = []\<rparr>"

lemma demo_new:
  "new_event_loop (\<lambda>_ _ _ _. True) (\<lambda>_. True) (0, 0) 0 5 0 1 None (0 :: nat) = Inr (demo_loop, Some 0)"
  by (simp add: demo_loop_def new_event_loop_def create_event_fd_def add_fd_in_epoll_def epoll_ctl_def MAX_FDS_def
    equal_and_update_last_events_def set_connect_handler_def set_read_handler_def set_events_def new_channel_fd_def Let_def)

lemma demo_fresh: "fresh_loop demo_system"
  unfolding fresh_loop_def using demo_new by (fastforce simp: demo_system_def)

lemma demo_state:
  "\<not> looping demo_loop" "loop_thread demo_loop = 1" "\<not> quit_flag demo_loop"
  by (simp_all add: demo_loop_def new_event_loop_def create_event_fd_def add_fd_in_epoll_def epoll_ctl_def MAX_FDS_def
    equal_and_update_last_events_def set_connect_handler_def set_read_handler_def set_events_def new_channel_fd_def Let_def)

lemma demo_enter:
  assumes "loop_pc s = Before_Loop" and "\<not> looping (sys_loop s)"
  shows "loop_thread_step s (s\<lparr>sys_loop := (sys_loop s)\<lparr>looping := True, quit_flag := False\<rparr>, loop_pc := Polling\<rparr>)"
  using enter [OF assms(1), of "(sys_loop s)\<lparr>looping := True, quit_flag := False\<rparr>" Polling] assms(2)
  by (simp add: loop_enter_def loop_test_def is_thread_in_loop_def)

theorem loop_never_sleeps_on_functors_witness:
  "\<exists>t. loop_pc t = Polling \<and> pending_functors (sys_loop t) = [Functor 3 []]
    \<and> ((loop_pc t = Polling \<and> (pending_functors (sys_loop t) \<noteq> [] \<or> quit_flag (sys_loop t)) \<longrightarrow>
        eventfd (sys_loop t) > 0 \<or> owed t > 0)
      \<and> queued (sys_loop t) = drained t @ in_call t @ pending_functors (sys_loop t))"
proof -
  let ?s1 = "demo_system\<lparr>sys_loop := demo_loop\<lparr>looping := True, quit_flag := False\<rparr>, loop_pc := Polling\<rparr>"
  let ?t = "?s1\<lparr>sys_loop := push_functor (Functor 3 []) (sys_loop ?s1), owed := owed ?s1 + 1\<rparr>"
  have "loop_thread_step demo_system ?s1"
    using demo_enter [of demo_system] demo_state by (simp add: demo_system_def)
  then have "run system_step demo_system ?t"
    using run_step [OF run_single] other_thread_step.push system_step_def by metis
  note c = loop_never_sleeps_on_functors [OF demo_fresh this]
  have "pending_functors (sys_loop ?t) = [Functor 3 []]"
    using fresh_loop_empty [OF demo_fresh] by (simp add: push_functor_def demo_system_def)
  then show ?thesis using c by (intro exI [of _ ?t] conjI) simp_all
qed

section \<open>The wake-up event\<close>

text \<open>The wake-up channel as the constructor leaves it: its two handlers, and the events the kernel was given.\<close>

definition wake_ok :: "event_loop \<Rightarrow> bool" where
  "wake_ok l \<longleftrightarrow>
     read_handler (wakeup_channel l) = Some Wakeup_Handle_Read
     \<and> connect_handler (wakeup_channel l) = Some Wakeup_Handle_Connect
     \<and> ch_last_events (wakeup_channel l) = EPOLLIN OR EPOLLET"

lemma wakeup_dispatch:
  assumes "wake_ok l" and "ch_revents (wakeup_channel l) = EPOLLIN"
  shows "wakeup_handle_events ctl_ok alive now l = Some (Inr (l\<lparr>eventfd := 0,
    wakeup_channel := set_events (EPOLLIN OR EPOLLET) (wakeup_channel l)\<rparr>))"
  using assms
  by (cases l, cases "wakeup_channel l")
    (simp add: wake_ok_def wakeup_handle_events_def handle_events_def channel_handle_read_def channel_handle_connect_def
      wakeup_read_counts_nothing wakeup_handle_connect_def loop_update_poller_def modify_fd_in_epoll_def
      equal_and_update_last_events_def set_events_def Let_def)

lemma wake_ok_cong: "wakeup_channel l' = wakeup_channel l \<Longrightarrow> wake_ok l' = wake_ok l"
  by (simp add: wake_ok_def)

lemma wake_ok_wakeup [simp]: "wake_ok (snd (wakeup l)) = wake_ok l"
  by (simp add: wakeup_counter wake_ok_def)

lemma calls_keep_channel:
  "wakeup_channel (call_functor tid f l) = wakeup_channel l" "wakeup_channel (do_call tid c l) = wakeup_channel l"
  "wakeup_channel (do_calls tid cs l) = wakeup_channel l"
  by (induction tid f l and tid c l and tid cs l rule: call_functor_do_call_do_calls.induct)
    (simp_all add: queue_in_loop_def wake_if_needed_def push_functor_def quit_def wakeup_counter Let_def)

lemma handle_event_wake_ok:
  assumes "handle_event ctl_ok alive now tid e l = Some (Inr l')" and "wake_ok l"
  shows "wake_ok l'"
proof (cases e)
  case Wakeup_Ready
  have "wake_ok (wakeup_reported l)" using assms(2) by (simp add: wake_ok_def wakeup_reported_def set_events_def set_revents_def)
  moreover have "ch_revents (wakeup_channel (wakeup_reported l)) = EPOLLIN"
    by (simp add: wakeup_reported_def set_events_def set_revents_def)
  ultimately show ?thesis using assms(1) Wakeup_Ready wakeup_dispatch [of "wakeup_reported l"]
    by (auto simp: wake_ok_def set_events_def)
next
  case (Channel_Ready cs)
  then show ?thesis using assms by (auto simp: wake_ok_cong [OF calls_keep_channel(3)])
qed

lemma loop_thread_wake_ok: "wake_ok (sys_loop s) \<Longrightarrow> loop_thread_step s t \<Longrightarrow> wake_ok (sys_loop t)"
  by (erule loop_thread_step.cases)
    (auto simp: loop_enter_def loop_test_def swap_functors_def wake_ok_cong [OF calls_keep_channel(1)]
      wake_ok_def calls_keep_channel split: if_splits dest: handle_event_wake_ok [unfolded wake_ok_def])

lemma other_thread_wake_ok: "wake_ok (sys_loop s) \<Longrightarrow> other_thread_step s t \<Longrightarrow> wake_ok (sys_loop t)"
  by (erule other_thread_step.cases) (auto simp: push_functor_def wake_ok_def wakeup_counter)

lemma new_loop_wake_ok:
  "new_event_loop ctl_ok alive now garbage event_fd c tid current this = Inr (l, current') \<Longrightarrow> wake_ok l"
  by (auto simp: new_event_loop_def bind_result_Inr add_fd_in_epoll_def equal_and_update_last_events_def Let_def
    wake_ok_def set_events_def set_read_handler_def set_connect_handler_def split: if_splits prod.splits)

lemma fresh_loop_wake_ok: "fresh_loop s \<Longrightarrow> wake_ok (sys_loop s)"
  unfolding fresh_loop_def by (elim conjE exE) (rule new_loop_wake_ok)

interpretation wake_sys: invariant_system fresh_loop system_step "\<lambda>s. wake_ok (sys_loop s)"
proof unfold_locales
  show "fresh_loop s \<Longrightarrow> wake_ok (sys_loop s)" for s by (rule fresh_loop_wake_ok)
  show "wake_ok (sys_loop s) \<Longrightarrow> system_step s t \<Longrightarrow> wake_ok (sys_loop t)" for s t
    unfolding system_step_def
    by (elim disjE) (erule loop_thread_wake_ok, assumption, erule other_thread_wake_ok, assumption)
qed

text \<open>
  Dispatching the wake-up event re-arms the wake-up and costs no call of \<open>epoll_ctl\<close>: in every
  reachable state of the loop the event clears the counter of the descriptor, asks for
  \<open>EPOLLIN\<close> and \<open>EPOLLET\<close> again, and leaves the poller, the queued functors and the flags alone.
\<close>

theorem wakeup_event_rearms:
  assumes "fresh_loop s" and "run system_step s t"
  shows "handle_event ctl_ok alive now tid Wakeup_Ready (sys_loop t) = Some (Inr ((sys_loop t)\<lparr>eventfd := 0,
    wakeup_channel := set_events (EPOLLIN OR EPOLLET) (set_revents EPOLLIN (wakeup_channel (sys_loop t)))\<rparr>))"
proof -
  have "wake_ok (wakeup_reported (sys_loop t))"
    using wake_sys.reach_inv [OF assms] by (simp add: wake_ok_def wakeup_reported_def set_events_def set_revents_def)
  from wakeup_dispatch [OF this] show ?thesis
    by (simp add: wakeup_reported_def set_events_def set_revents_def)
qed

theorem wakeup_event_rearms_witness:
  "\<exists>l. handle_event (\<lambda>_ _ _ _. True) (\<lambda>_. True) (0, 0) 1 Wakeup_Ready demo_loop = Some (Inr l)
    \<and> eventfd l = 0 \<and> ch_events (wakeup_channel l) = EPOLLIN OR EPOLLET"
proof -
  have "sys_loop demo_system = demo_loop" by (simp add: demo_system_def)
  with wakeup_event_rearms [OF demo_fresh run_refl] show ?thesis by (simp add: set_events_def)
qed

section \<open>A request that comes too early\<close>

lemma enter_forgets:
  assumes "loop_pc s = Before_Loop" and "loop_thread_step s t"
  shows "loop_pc t = Polling \<and> \<not> quit_flag (sys_loop t)"
  using assms(2,1)
  by (cases rule: loop_thread_step.cases) (auto simp: loop_enter_def loop_test_def split: if_splits)

lemma stays_in_loop:
  assumes "run (\<lambda>a b. system_step a b \<and> \<not> quit_flag (sys_loop b)) s t"
    and "loop_pc s \<noteq> Loop_Left" and "\<not> quit_flag (sys_loop s)"
  shows "loop_pc t \<noteq> Loop_Left \<and> \<not> quit_flag (sys_loop t)"
  using assms
proof (induction rule: run.induct)
  case (run_step s t u)
  then have t: "loop_pc t \<noteq> Loop_Left" "\<not> quit_flag (sys_loop t)" by auto
  have "loop_pc u \<noteq> Loop_Left" if "loop_thread_step t u"
    using that t by (cases rule: loop_thread_step.cases) (auto simp: loop_enter_def loop_test_def split: if_splits)
  moreover have "loop_pc u \<noteq> Loop_Left" if "other_thread_step t u"
    using that t by (cases rule: other_thread_step.cases) auto
  ultimately show ?case using run_step.hyps(2) by (auto simp: system_step_def)
qed simp

text \<open>
  A request to quit that comes before the loop thread has entered \<open>loop\<close> is forgotten: entering
  clears the flag, and the loop is left only after another request. The destructor of
  \<open>EventLoopThread\<close>, which asks once and joins, then waits for ever.
\<close>

theorem early_quit_is_forgotten:
  assumes "loop_pc s = Before_Loop" and "quit_flag (sys_loop s)" and "loop_thread_step s s'"
    and "run (\<lambda>a b. system_step a b \<and> \<not> quit_flag (sys_loop b)) s' t"
  shows "loop_pc s' = Polling \<and> \<not> quit_flag (sys_loop s') \<and> loop_pc t \<noteq> Loop_Left"
  using stays_in_loop [OF assms(4)] enter_forgets [OF assms(1,3)] by auto

theorem early_quit_is_forgotten_witness:
  "\<exists>s s'. other_thread_step demo_system s \<and> quit_flag (sys_loop s) \<and> loop_thread_step s s'
    \<and> loop_pc s' = Polling \<and> \<not> quit_flag (sys_loop s') \<and> loop_pc s' \<noteq> Loop_Left"
proof -
  let ?s = "demo_system\<lparr>sys_loop := (sys_loop demo_system)\<lparr>quit_flag := True\<rparr>, owed := owed demo_system + 1\<rparr>"
  have pc: "loop_pc ?s = Before_Loop" "\<not> looping (sys_loop ?s)" "quit_flag (sys_loop ?s)"
    using demo_state by (simp_all add: demo_system_def)
  note e = demo_enter [OF pc(1,2)]
  show ?thesis
    using early_quit_is_forgotten [OF pc(1,3) e run_refl] e pc(3) other_thread_step.ask_quit [of demo_system] by blast
qed

end
