(* ===== verification/Event_Loop_Threads.thy ===== *)
theory Event_Loop_Threads
  imports Prelude
begin

text \<open>
  \<open>EventLoopThread.cpp\<close> and \<open>EventLoopThreadPool.cpp\<close>: a thread that makes its own loop and publishes
  it, and the pool that hands the loops out in turn. Loops are numbered. The mutex of the handshake is
  held from the test to the wait and by the publishing thread, so its steps are those of \<open>start_loop\<close>
  and \<open>thread_publish\<close> (\<open>Loop_Handshake\<close> has the statements). What the loop does is in \<open>Event_Loop\<close>.
\<close>

section \<open>A loop thread\<close>

record event_loop_thread =
  et_loop :: "nat option"
  et_exiting :: bool
  et_started :: bool
  et_joined :: bool

definition new_event_loop_thread :: event_loop_thread where
  "new_event_loop_thread = \<lparr>et_loop = None, et_exiting = False, et_started = False, et_joined = False\<rparr>"

text \<open>\<open>thread_func\<close> before and after the loop runs.\<close>

definition thread_publish :: "nat \<Rightarrow> event_loop_thread \<Rightarrow> event_loop_thread" where
  "thread_publish loop t = t\<lparr>et_loop := Some loop\<rparr>"

definition thread_retire :: "event_loop_thread \<Rightarrow> event_loop_thread" where
  "thread_retire t = t\<lparr>et_loop := None\<rparr>"

text \<open>
  \<open>start_loop\<close>: \<open>created\<close> is the loop the new thread publishes, or nothing when \<open>pthread_create\<close> fails;
  then \<open>Thread::start\<close> only notes that the thread is not started, and the wait does not end.
\<close>

definition start_loop :: "nat option \<Rightarrow> event_loop_thread \<Rightarrow> (nat option \<times> event_loop_thread) outcome" where
  "start_loop created t =
     (if et_started t then Some (Inl Assertion_Failed)
      else
        let t = (case created of None \<Rightarrow> t | Some loop \<Rightarrow> thread_publish loop (t\<lparr>et_started := True\<rparr>)) in
        if et_loop t = None then None else Some (Inr (et_loop t, t)))"

text \<open>The destructor asks the loop to quit and joins; the second component is the loop that is asked.\<close>

definition destroy_loop_thread :: "event_loop_thread \<Rightarrow> (event_loop_thread \<times> nat option) result" where
  "destroy_loop_thread t =
     (let t = t\<lparr>et_exiting := True\<rparr> in
      if et_loop t \<noteq> None then
        (if \<not> et_started t \<or> et_joined t then Inl Assertion_Failed
         else Inr (t\<lparr>et_joined := True\<rparr>, et_loop t))
      else Inr (t, None))"

section \<open>The pool\<close>

record loop_pool =
  base_loop :: nat
  lp_started :: bool
  lp_num_threads :: int
  lp_next :: int
  lp_threads :: "event_loop_thread list"
  lp_loops :: "nat option list"

definition new_loop_pool :: "nat \<Rightarrow> int \<Rightarrow> loop_pool result" where
  "new_loop_pool loop num_threads =
     (if num_threads \<le> 0 then Inl Aborted
      else Inr \<lparr>base_loop = loop, lp_started = False, lp_num_threads = num_threads, lp_next = 0,
             lp_threads = [], lp_loops = []\<rparr>)"

text \<open>\<open>created i\<close> is the loop of the i-th thread.\<close>

fun create_threads :: "(nat \<Rightarrow> nat option) \<Rightarrow> nat \<Rightarrow> nat \<Rightarrow> loop_pool \<Rightarrow> loop_pool outcome" where
  "create_threads created i 0 p = Some (Inr p)"
| "create_threads created i (Suc n) p =
     bind_outcome (start_loop (created i) new_event_loop_thread) (\<lambda>(loop, t).
       create_threads created (i + 1) n (p\<lparr>lp_threads := lp_threads p @ [t], lp_loops := lp_loops p @ [loop]\<rparr>))"

definition loop_pool_create :: "bool \<Rightarrow> (nat \<Rightarrow> nat option) \<Rightarrow> loop_pool \<Rightarrow> loop_pool outcome" where
  "loop_pool_create in_loop created p =
     (if \<not> in_loop then Some (Inl Assertion_Failed)
      else create_threads created 0 (nat (lp_num_threads p)) (p\<lparr>lp_started := True\<rparr>))"

text \<open>\<open>%\<close> of two non-negative values.\<close>

definition get_next_loop :: "bool \<Rightarrow> loop_pool \<Rightarrow> (nat option \<times> loop_pool) result" where
  "get_next_loop in_loop p =
     (if \<not> in_loop then Inl Assertion_Failed
      else if \<not> lp_started p then Inl Assertion_Failed
      else if lp_loops p = [] then Inr (Some (base_loop p), p)
      else if \<not> (0 \<le> lp_next p \<and> nat (lp_next p) < length (lp_loops p)) then Inl Undefined_Behaviour
      else Inr (lp_loops p ! nat (lp_next p), p\<lparr>lp_next := (lp_next p + 1) mod lp_num_threads p\<rparr>))"

fun get_loops :: "nat \<Rightarrow> loop_pool \<Rightarrow> (nat option list \<times> loop_pool) result" where
  "get_loops 0 p = Inr ([], p)"
| "get_loops (Suc n) p =
     bind_result (get_next_loop True p) (\<lambda>(l, p').
       bind_result (get_loops n p') (\<lambda>(ls, p''). Inr (l # ls, p'')))"

section \<open>Taking turns\<close>

definition pool_ready :: "loop_pool \<Rightarrow> bool" where
  "pool_ready p \<longleftrightarrow>
     lp_started p \<and> 0 < lp_num_threads p \<and> length (lp_loops p) = nat (lp_num_threads p)
     \<and> 0 \<le> lp_next p \<and> lp_next p < lp_num_threads p \<and> None \<notin> set (lp_loops p)"

lemma start_loop_done: "start_loop created new_event_loop_thread = Some (Inr (l, t)) \<Longrightarrow> \<exists>k. l = Some k"
  by (auto simp: start_loop_def Let_def split: if_splits)

lemma create_threads_loops:
  "create_threads created i n p = Some (Inr p') \<Longrightarrow>
   \<exists>ls. lp_loops p' = lp_loops p @ ls \<and> length ls = n \<and> None \<notin> set ls
     \<and> lp_started p' = lp_started p \<and> lp_num_threads p' = lp_num_threads p \<and> lp_next p' = lp_next p"
proof (induction n arbitrary: i p)
  case (Suc n)
  then obtain l t where 1: "start_loop (created i) new_event_loop_thread = Some (Inr (l, t))"
      "create_threads created (i + 1) n (p\<lparr>lp_threads := lp_threads p @ [t], lp_loops := lp_loops p @ [l]\<rparr>) = Some (Inr p')"
    by (auto simp: bind_outcome_Some_Inr)
  then show ?case using Suc.IH [OF 1(2)] start_loop_done [OF 1(1)] by fastforce
qed simp

lemma create_threads_ok:
  "\<exists>p'. create_threads (\<lambda>i. Some (f i)) i n p = Some (Inr p')"
  by (induction n arbitrary: i p) (simp_all add: start_loop_def thread_publish_def new_event_loop_thread_def)

lemma pool_created_ready:
  assumes "new_loop_pool loop num = Inr p0" and "loop_pool_create in_loop created p0 = Some (Inr p)"
  shows "pool_ready p \<and> lp_next p = 0 \<and> lp_num_threads p = num"
proof -
  let ?p = "\<lparr>base_loop = loop, lp_started = True, lp_num_threads = num, lp_next = 0, lp_threads = [], lp_loops = []\<rparr>"
  have "create_threads created 0 (nat num) ?p = Some (Inr p)" "0 < num"
    using assms by (auto simp: new_loop_pool_def loop_pool_create_def split: if_splits)
  with create_threads_loops [OF this(1)] show ?thesis by (auto simp: pool_ready_def)
qed

lemma get_next_loop_ready:
  assumes "pool_ready p"
  shows "get_next_loop True p = Inr (lp_loops p ! nat (lp_next p), p\<lparr>lp_next := (lp_next p + 1) mod lp_num_threads p\<rparr>)
    \<and> pool_ready (p\<lparr>lp_next := (lp_next p + 1) mod lp_num_threads p\<rparr>)"
  using assms by (auto simp: get_next_loop_def pool_ready_def nat_less_iff)

lemma get_loops_turns:
  "pool_ready p \<Longrightarrow>
   \<exists>p'. get_loops n p = Inr (map (\<lambda>k. lp_loops p ! nat ((lp_next p + int k) mod lp_num_threads p)) [0..<n], p')
     \<and> pool_ready p'"
proof (induction n arbitrary: p)
  case (Suc n)
  let ?p = "p\<lparr>lp_next := (lp_next p + 1) mod lp_num_threads p\<rparr>"
  note s = get_next_loop_ready [OF Suc.prems]
  obtain p' where p': "get_loops n ?p = Inr (map (\<lambda>k. lp_loops ?p ! nat ((lp_next ?p + int k) mod lp_num_threads ?p)) [0..<n], p')"
      "pool_ready p'"
    using Suc.IH s by blast
  have "(lp_next p + 1 + int k) mod lp_num_threads p = (lp_next ?p + int k) mod lp_num_threads ?p" for k
    by (simp add: mod_simps)
  moreover have "lp_next p mod lp_num_threads p = lp_next p" using Suc.prems by (simp add: pool_ready_def)
  ultimately show ?case using s p'
    by (simp del: upt_Suc add: upt_conv_Cons map_Suc_upt [symmetric] comp_def algebra_simps)
qed simp

text \<open>
  The loops take turns: once the pool is created the k-th call of \<open>get_next_loop\<close> returns the loop of
  thread \<open>k mod num_threads\<close>, never a null pointer and never outside the vector.
\<close>

theorem loops_take_turns:
  assumes "new_loop_pool loop num = Inr p0" and "loop_pool_create in_loop created p0 = Some (Inr p)"
  shows "\<exists>p'. get_loops n p = Inr (map (\<lambda>k. lp_loops p ! (k mod nat num)) [0..<n], p')
    \<and> length (lp_loops p) = nat num \<and> None \<notin> set (lp_loops p)"
proof -
  note r = pool_created_ready [OF assms]
  have "nat (int k mod num) = k mod nat num" for k using r by (simp add: pool_ready_def nat_mod_distrib)
  then show ?thesis using get_loops_turns [of p n] r by (auto simp: pool_ready_def)
qed

theorem loops_take_turns_witness:
  "\<exists>p0 p p'. new_loop_pool 9 2 = Inr p0 \<and> loop_pool_create True (\<lambda>i. Some (i + 20)) p0 = Some (Inr p)
    \<and> get_loops 3 p = Inr (map (\<lambda>k. lp_loops p ! (k mod nat 2)) [0..<3], p')
    \<and> length (lp_loops p) = nat 2 \<and> None \<notin> set (lp_loops p)"
proof -
  obtain p0 where p0: "new_loop_pool 9 2 = Inr p0" by (simp add: new_loop_pool_def)
  obtain p where p: "loop_pool_create True (\<lambda>i. Some (i + 20)) p0 = Some (Inr p)"
    using p0 by (auto simp: new_loop_pool_def loop_pool_create_def start_loop_def thread_publish_def
      new_event_loop_thread_def numeral_2_eq_2)
  show ?thesis using loops_take_turns [OF p0 p, of 3] p0 p by blast
qed

end
