(* ===== verification/Server.thy ===== *)
theory Server
  imports Event_Loop_Threads Event_Loop
begin

text \<open>
  \<open>Server.cpp\<close> and \<open>main.cpp\<close>: the accepting side. The kernel's answers are arguments; what the server
  does to descriptors and the connections it makes is a trace. A loop that may not end is a partial
  function: \<open>None\<close> says that it never returns.
\<close>

datatype server_op = Sock sockop | New_Connection "nat option" nat

record server =
  srv_loop :: nat
  srv_num_threads :: int
  srv_pool :: loop_pool
  srv_started :: bool
  accept_channel :: channel_state
  srv_port :: int
  listen_fd :: int
  srv_ops :: "server_op list"

definition MAXFDS :: int where
  "MAXFDS = 100000"

text \<open>\<open>getfl\<close> and \<open>setfl\<close> answer the two \<open>fcntl\<close> calls; on the descriptor -1 they fail.\<close>

definition new_server ::
  "32 word \<Rightarrow> nat option \<Rightarrow> bool \<Rightarrow> bool \<Rightarrow> bool \<Rightarrow> 32 word \<Rightarrow> 32 word \<Rightarrow> nat \<Rightarrow> int \<Rightarrow> int \<Rightarrow> server result" where
  "new_server garbage socket_fd reuse_ok bind_ok listen_ok getfl setfl event_loop num_threads port =
     bind_result (new_loop_pool event_loop num_threads) (\<lambda>pool.
       bind_result (set_socket_bind_listen port socket_fd reuse_ok bind_ok listen_ok) (\<lambda>(fd, ops).
         let ch = set_fd (nat fd) (new_channel garbage);
             (nb, nb_ops) = (if fd < 0 then (- 1, []) else set_socket_nonblock (nat fd) getfl setfl) in
         if nb < 0 then Inl Aborted
         else Inr \<lparr>srv_loop = event_loop, srv_num_threads = num_threads, srv_pool = pool, srv_started = False,
                accept_channel = ch, srv_port = port, listen_fd = fd,
                srv_ops = map Sock (ops @ handle_for_signal_pipe @ nb_ops)\<rparr>))"

definition server_start ::
  "ctl_kernel \<Rightarrow> (nat \<Rightarrow> bool) \<Rightarrow> timeval \<Rightarrow> nat \<Rightarrow> bool \<Rightarrow> (nat \<Rightarrow> nat option) \<Rightarrow> event_loop \<Rightarrow> server \<Rightarrow>
   (event_loop \<times> server) outcome" where
  "server_start ctl_ok alive now c in_loop created l sv =
     bind_outcome (loop_pool_create in_loop created (srv_pool sv)) (\<lambda>pool.
       let ch = set_connect_handler Accept_Cur_Connection (set_read_handler Accept_New_Connection
             (set_events (EPOLLIN OR EPOLLET) (accept_channel sv))) in
       Some (bind_result (loop_add_to_poller ctl_ok alive now c ch 0 l) (\<lambda>(link, ch, l).
         Inr (l, sv\<lparr>srv_pool := pool, accept_channel := ch, srv_started := True\<rparr>))))"

definition get_event_loop :: "server \<Rightarrow> nat" where
  "get_event_loop sv = srv_loop sv"

text \<open>
  The loop of \<open>handle_new_connection\<close>. \<open>accept\<close> is called once, before it, so \<open>fd\<close> never changes.
  \<open>nonblock k\<close> says whether the k-th attempt to make it non-blocking succeeds. A new connection is queued
  in the loop that is next; a null loop is undefined.
\<close>

partial_function (option) accept_loop ::
  "(nat \<Rightarrow> bool) \<Rightarrow> int \<Rightarrow> nat \<Rightarrow> server \<Rightarrow> server result option" where
  "accept_loop nonblock fd k sv =
     (if fd > 0 then
        (case get_next_loop True (srv_pool sv) of
           Inl f \<Rightarrow> Some (Inl f)
         | Inr (loop, pool) \<Rightarrow>
             if fd \<ge> MAXFDS then
               accept_loop nonblock fd k (sv\<lparr>srv_pool := pool, srv_ops := srv_ops sv @ [Sock (Close (nat fd))]\<rparr>)
             else if \<not> nonblock k then Some (Inr (sv\<lparr>srv_pool := pool\<rparr>))
             else if loop = None then Some (Inl Undefined_Behaviour)
             else accept_loop nonblock fd (Suc k)
                (sv\<lparr>srv_pool := pool,
                    srv_ops := srv_ops sv @ map Sock (set_socket_nodelay (nat fd)) @ [New_Connection loop (nat fd)]\<rparr>))
      else Some (Inr (sv\<lparr>accept_channel := set_events (EPOLLIN OR EPOLLET) (accept_channel sv)\<rparr>)))"

definition handle_new_connection :: "(nat \<Rightarrow> bool) \<Rightarrow> int \<Rightarrow> server \<Rightarrow> server result option" where
  "handle_new_connection nonblock accept_fd sv = accept_loop nonblock accept_fd 0 sv"

definition handle_cur_connection ::
  "ctl_kernel \<Rightarrow> (nat \<Rightarrow> bool) \<Rightarrow> timeval \<Rightarrow> event_loop \<Rightarrow> server \<Rightarrow> (event_loop \<times> server) result" where
  "handle_cur_connection ctl_ok alive now l sv =
     bind_result (loop_update_poller ctl_ok alive now (accept_channel sv) 0 l) (\<lambda>(link, ch, l).
       Inr (l, sv\<lparr>accept_channel := ch\<rparr>))"

section \<open>The options of the program\<close>

text \<open>\<open>atoi\<close> of the C library: a number that does not fit is undefined.\<close>

definition atoi :: "string \<Rightarrow> int result" where
  "atoi s =
     (let (sg, ds) = sign_split (dropWhile is_space s); v = sg * int (parse_digits 0 ds) in
      if - 2147483648 \<le> v \<and> v < 2147483648 then Inr v else Inl Undefined_Behaviour)"

record main_options =
  opt_threads :: int
  opt_port :: int
  opt_log_path :: string

definition default_options :: main_options where
  "default_options = \<lparr>opt_threads = 4, opt_port = 80, opt_log_path = ''./FastWebServer.log''\<rparr>"

text \<open>The body of the loop: \<open>opt\<close> is what \<open>getopt\<close> returned, with its argument.\<close>

definition option_case :: "char \<Rightarrow> string \<Rightarrow> main_options \<Rightarrow> main_options result" where
  "option_case opt optarg opts =
     (if opt = CHR ''t'' then bind_result (atoi optarg) (\<lambda>n. Inr (opts\<lparr>opt_threads := n\<rparr>))
      else if opt = CHR ''l'' then
        (if length optarg < 2 \<or> hd optarg \<noteq> CHR ''/'' then Inl Aborted else Inr (opts\<lparr>opt_log_path := optarg\<rparr>))
      else if opt = CHR ''p'' then bind_result (atoi optarg) (\<lambda>n. Inr (opts\<lparr>opt_port := n\<rparr>))
      else Inr opts)"

text \<open>\<open>getopt\<close> is called once, before the loop: \<open>None\<close> is its -1, the end of the options.\<close>

partial_function (option) option_loop ::
  "(char \<times> string) option \<Rightarrow> main_options \<Rightarrow> main_options result option" where
  "option_loop opt opts =
     (case opt of
        None \<Rightarrow> Some (Inr opts)
      | Some (c, optarg) \<Rightarrow>
          (case option_case c optarg opts of Inl f \<Rightarrow> Some (Inl f) | Inr opts' \<Rightarrow> option_loop opt opts'))"

definition main_program :: "(char \<times> string) list \<Rightarrow> main_options result option" where
  "main_program options =
     option_loop (case options of [] \<Rightarrow> None | x # xs \<Rightarrow> Some x) default_options"

text \<open>What \<open>main\<close> does once it is past its options, up to the loop it then enters.\<close>

definition main_setup ::
  "ctl_kernel \<Rightarrow> (nat \<Rightarrow> bool) \<Rightarrow> timeval \<Rightarrow> 32 word \<Rightarrow> int \<Rightarrow> int \<Rightarrow> nat option \<Rightarrow> bool \<Rightarrow> bool \<Rightarrow> bool \<Rightarrow>
   32 word \<Rightarrow> 32 word \<Rightarrow> (nat \<Rightarrow> nat option) \<Rightarrow> main_options \<Rightarrow> (event_loop \<times> server) outcome" where
  "main_setup ctl_ok alive now garbage event_fd tid socket_fd reuse_ok bind_ok listen_ok getfl setfl created opts =
     bind_outcome (Some (new_event_loop ctl_ok alive now garbage event_fd 0 tid None (0 :: nat))) (\<lambda>(l, current).
       bind_outcome (Some (new_server garbage socket_fd reuse_ok bind_ok listen_ok getfl setfl 0
           (opt_threads opts) (opt_port opts))) (\<lambda>sv.
         server_start ctl_ok alive now 1 (is_thread_in_loop tid l) created l sv))"

lemma new_server_pool:
  assumes "new_server garbage socket_fd reuse_ok bind_ok listen_ok getfl setfl loop num port = Inr sv"
  shows "new_loop_pool loop num = Inr (srv_pool sv)"
proof -
  obtain pool fd ops where 1: "new_loop_pool loop num = Inr pool"
      "set_socket_bind_listen port socket_fd reuse_ok bind_ok listen_ok = Inr (fd, ops)"
    using assms by (auto simp: new_server_def bind_result_Inr)
  obtain nb nb_ops where "(if fd < 0 then (- 1, []) else set_socket_nonblock (nat fd) getfl setfl) = (nb, nb_ops)"
    by (metis surj_pair)
  then show ?thesis using assms 1 by (auto simp: new_server_def Let_def split: if_splits)
qed

text \<open>A server that has been set up has its pool ready.\<close>

lemma main_setup_ready:
  assumes "main_setup ctl_ok alive now garbage event_fd tid socket_fd reuse_ok bind_ok listen_ok getfl setfl created opts
      = Some (Inr (l, sv))"
  shows "pool_ready (srv_pool sv) \<and> srv_started sv \<and> lp_next (srv_pool sv) = 0
    \<and> lp_num_threads (srv_pool sv) = opt_threads opts"
proof -
  obtain l0 c0 sv0 where sv0: "new_server garbage socket_fd reuse_ok bind_ok listen_ok getfl setfl 0
          (opt_threads opts) (opt_port opts) = Inr sv0"
      "server_start ctl_ok alive now 1 (is_thread_in_loop tid l0) created l0 sv0 = Some (Inr (l, sv))"
    using assms by (auto simp: main_setup_def bind_outcome_Some_Inr)
  obtain p where p: "loop_pool_create (is_thread_in_loop tid l0) created (srv_pool sv0) = Some (Inr p)"
      "srv_pool sv = p" "srv_started sv"
    using sv0(2) by (auto simp: server_start_def bind_outcome_Some_Inr bind_result_Inr Let_def)
  have "new_loop_pool 0 (opt_threads opts) = Inr (srv_pool sv0)"
    by (rule new_server_pool [OF sv0(1)])
  then show ?thesis using pool_created_ready [OF _ p(1)] p(2,3) by simp
qed

section \<open>Loops that do not end\<close>

text \<open>\<open>accept_done\<close> is the state after \<open>n\<close> turns of the loop for one accepted descriptor.\<close>

fun accept_done :: "int \<Rightarrow> nat \<Rightarrow> server \<Rightarrow> server" where
  "accept_done fd 0 sv = sv"
| "accept_done fd (Suc n) sv =
     (case get_next_loop True (srv_pool sv) of
        Inl f \<Rightarrow> sv
      | Inr (loop, pool) \<Rightarrow>
          accept_done fd n (sv\<lparr>srv_pool := pool, srv_ops := srv_ops sv @
            (if fd \<ge> MAXFDS then [Sock (Close (nat fd))]
             else map Sock (set_socket_nodelay (nat fd)) @ [New_Connection loop (nat fd)])\<rparr>))"

lemma ready_next:
  assumes "pool_ready p"
  shows "\<exists>loop pool. get_next_loop True p = Inr (Some loop, pool) \<and> pool_ready pool"
proof -
  have "lp_loops p ! nat (lp_next p) \<in> set (lp_loops p)"
    using assms by (intro nth_mem) (auto simp: pool_ready_def nat_less_iff)
  moreover have "None \<notin> set (lp_loops p)" using assms by (simp add: pool_ready_def)
  ultimately obtain loop where "lp_loops p ! nat (lp_next p) = Some loop" by (metis option.exhaust)
  then show ?thesis using get_next_loop_ready [OF assms] by auto
qed

text \<open>One turn, with the pool ready and the descriptor made non-blocking, leads to the next turn.\<close>

lemma accept_turn:
  assumes "pool_ready (srv_pool sv)" and "0 < fd" and "\<forall>k. nonblock k"
  shows "\<exists>k'. accept_loop nonblock fd k sv = accept_loop nonblock fd k' (accept_done fd 1 sv)
    \<and> pool_ready (srv_pool (accept_done fd 1 sv))"
proof -
  obtain loop pool where "get_next_loop True (srv_pool sv) = Inr (Some loop, pool)" "pool_ready pool"
    using ready_next [OF assms(1)] by blast
  then show ?thesis using assms(2,3) by (subst accept_loop.simps) auto
qed

lemma accept_turns:
  assumes "pool_ready (srv_pool sv)" and "0 < fd" and "\<forall>k. nonblock k"
  shows "\<exists>k'. accept_loop nonblock fd k sv = accept_loop nonblock fd k' (accept_done fd n sv)"
  using assms(1)
proof (induction n arbitrary: k sv)
  case (Suc n)
  obtain k1 where k1: "accept_loop nonblock fd k sv = accept_loop nonblock fd k1 (accept_done fd 1 sv)"
      "pool_ready (srv_pool (accept_done fd 1 sv))"
    using accept_turn [OF Suc.prems assms(2,3)] by blast
  moreover have "accept_done fd n (accept_done fd 1 sv) = accept_done fd (Suc n) sv"
    using get_next_loop_ready [OF Suc.prems] by auto
  ultimately show ?case using Suc.IH [OF k1(2), of k1] by metis
qed auto

lemma accept_never_returns:
  assumes "accept_loop nonblock fd k sv = Some r"
  shows "(\<forall>k. nonblock k) \<longrightarrow> 0 < fd \<longrightarrow> \<not> pool_ready (srv_pool sv)"
proof (rule accept_loop.raw_induct [OF _ assms], intro impI notI)
  fix f nonblock fd k sv r
  assume IH: "\<And>nonblock fd k sv r. f nonblock fd k sv = Some r \<Longrightarrow>
      (\<forall>k. nonblock k) \<longrightarrow> 0 < fd \<longrightarrow> \<not> pool_ready (srv_pool sv)"
    and body: "(if fd > 0 then
        (case get_next_loop True (srv_pool sv) of
           Inl f \<Rightarrow> Some (Inl f)
         | Inr (loop, pool) \<Rightarrow>
             if fd \<ge> MAXFDS then
               f nonblock fd k (sv\<lparr>srv_pool := pool, srv_ops := srv_ops sv @ [Sock (Close (nat fd))]\<rparr>)
             else if \<not> nonblock k then Some (Inr (sv\<lparr>srv_pool := pool\<rparr>))
             else if loop = None then Some (Inl Undefined_Behaviour)
             else f nonblock fd (Suc k)
                (sv\<lparr>srv_pool := pool,
                    srv_ops := srv_ops sv @ map Sock (set_socket_nodelay (nat fd)) @ [New_Connection loop (nat fd)]\<rparr>))
      else Some (Inr (sv\<lparr>accept_channel := set_events (EPOLLIN OR EPOLLET) (accept_channel sv)\<rparr>))) = Some r"
    and "\<forall>k. nonblock k" "0 < fd" "pool_ready (srv_pool sv)"
  moreover obtain loop pool where "get_next_loop True (srv_pool sv) = Inr (Some loop, pool)" "pool_ready pool"
    using ready_next [OF \<open>pool_ready (srv_pool sv)\<close>] by blast
  ultimately show False by (auto split: if_splits dest: IH)
qed

lemma accept_done_ops:
  "pool_ready (srv_pool sv) \<Longrightarrow> 0 < fd \<Longrightarrow> fd < MAXFDS \<Longrightarrow>
   length (filter (\<lambda>x. case x of New_Connection l d \<Rightarrow> int d = fd | _ \<Rightarrow> False) (srv_ops (accept_done fd n sv)))
     = length (filter (\<lambda>x. case x of New_Connection l d \<Rightarrow> int d = fd | _ \<Rightarrow> False) (srv_ops sv)) + n"
proof (induction n arbitrary: sv)
  case (Suc n)
  obtain loop pool where g: "get_next_loop True (srv_pool sv) = Inr (Some loop, pool)" "pool_ready pool"
    using ready_next [OF Suc.prems(1)] by blast
  then show ?case using Suc.IH Suc.prems(2,3) by (auto simp: set_socket_nodelay_def)
qed simp

lemma accept_never_ends_ready:
  assumes "pool_ready (srv_pool sv)" and "0 < accept_fd" and "\<forall>k. nonblock k"
  shows "handle_new_connection nonblock accept_fd sv = None
    \<and> (\<forall>n. \<exists>k. handle_new_connection nonblock accept_fd sv = accept_loop nonblock accept_fd k (accept_done accept_fd n sv))
    \<and> (accept_fd < MAXFDS \<longrightarrow> (\<forall>n.
        n \<le> length (filter (\<lambda>x. case x of New_Connection l d \<Rightarrow> int d = accept_fd | _ \<Rightarrow> False)
          (srv_ops (accept_done accept_fd n sv)))))"
proof (intro conjI allI impI)
  show "handle_new_connection nonblock accept_fd sv = None"
    unfolding handle_new_connection_def
    using accept_never_returns [of nonblock accept_fd 0 sv] assms by (cases "accept_loop nonblock accept_fd 0 sv") auto
  show "\<exists>k. handle_new_connection nonblock accept_fd sv = accept_loop nonblock accept_fd k (accept_done accept_fd n sv)" for n
    unfolding handle_new_connection_def by (rule accept_turns [OF assms])
  show "n \<le> length (filter (\<lambda>x. case x of New_Connection l d \<Rightarrow> int d = accept_fd | _ \<Rightarrow> False)
      (srv_ops (accept_done accept_fd n sv)))" if "accept_fd < MAXFDS" for n
    using accept_done_ops [OF assms(1,2) that, of n] by simp
qed

text \<open>A set-up for the witnesses: every call succeeds and there are four loops.\<close>

lemma demo_setup:
  "\<exists>l sv. main_setup (\<lambda>_ _ _ _. True) (\<lambda>_. True) (0, 0) 0 5 1 (Some 3) True True True 0 0 (\<lambda>i. Some (i + 20)) default_options
      = Some (Inr (l, sv))"
proof -
  obtain l0 current where l0: "new_event_loop (\<lambda>_ _ _ _. True) (\<lambda>_. True) (0, 0) 0 5 0 1 None (0 :: nat) = Inr (l0, current)"
      "loop_thread l0 = 1"
    using demo_new demo_state(2) by blast
  obtain p0 where p0: "new_loop_pool 0 4 = Inr p0" "lp_num_threads p0 = 4" by (simp add: new_loop_pool_def)
  obtain sv0 where sv0: "new_server 0 (Some 3) True True True 0 0 0 4 80 = Inr sv0" "srv_pool sv0 = p0"
      "ch_fd (accept_channel sv0) = 3"
    using p0(1) by (simp add: new_server_def set_socket_bind_listen_def set_socket_nonblock_def new_channel_def
      new_channel_fd_def set_fd_def)
  obtain p where p: "loop_pool_create True (\<lambda>i. Some (i + 20)) p0 = Some (Inr p)"
    using create_threads_ok by (fastforce simp: loop_pool_create_def)
  have "\<exists>l sv. server_start (\<lambda>_ _ _ _. True) (\<lambda>_. True) (0, 0) 1 True (\<lambda>i. Some (i + 20)) l0 sv0 = Some (Inr (l, sv))"
    using p sv0(2,3)
    by (simp add: server_start_def loop_add_to_poller_def add_fd_in_epoll_def epoll_ctl_def MAX_FDS_def
      equal_and_update_last_events_def set_connect_handler_def set_read_handler_def set_events_def Let_def)
  then show ?thesis using l0 sv0(1) by (fastforce simp: main_setup_def default_options_def is_thread_in_loop_def)
qed

text \<open>
  C31. Accepting one connection never ends: once \<open>accept\<close> has returned a descriptor and it can be made
  non-blocking, \<open>handle_new_connection\<close> does not return, because the loop never accepts again; and for
  every number \<open>n\<close> it has, after \<open>n\<close> turns, made \<open>n\<close> connection objects for the one descriptor (below
  the limit of 100000). The event loop of the server never polls again.
\<close>

theorem accept_never_ends:
  assumes "main_setup ctl_ok alive now garbage event_fd tid socket_fd reuse_ok bind_ok listen_ok getfl setfl created opts
      = Some (Inr (l, sv))"
    and "0 < accept_fd" and "\<forall>k. nonblock k"
  shows "handle_new_connection nonblock accept_fd sv = None
    \<and> (\<forall>n. \<exists>k. handle_new_connection nonblock accept_fd sv = accept_loop nonblock accept_fd k (accept_done accept_fd n sv))
    \<and> (accept_fd < MAXFDS \<longrightarrow> (\<forall>n.
        n \<le> length (filter (\<lambda>x. case x of New_Connection l d \<Rightarrow> int d = accept_fd | _ \<Rightarrow> False)
          (srv_ops (accept_done accept_fd n sv)))))"
  using main_setup_ready [OF assms(1)] by (intro accept_never_ends_ready assms(2,3)) simp

theorem accept_never_ends_witness:
  "\<exists>l sv. main_setup (\<lambda>_ _ _ _. True) (\<lambda>_. True) (0, 0) 0 5 1 (Some 3) True True True 0 0 (\<lambda>i. Some (i + 20)) default_options
      = Some (Inr (l, sv))
    \<and> handle_new_connection (\<lambda>_. True) 7 sv = None"
proof -
  obtain l sv where
      "main_setup (\<lambda>_ _ _ _. True) (\<lambda>_. True) (0, 0) 0 5 1 (Some 3) True True True 0 0 (\<lambda>i. Some (i + 20)) default_options
        = Some (Inr (l, sv))" using demo_setup by blast
  then show ?thesis using accept_never_ends [of _ _ _ _ _ _ _ _ _ _ _ _ _ _ l sv 7 "\<lambda>_. True"] by force
qed

lemma option_loop_repeats:
  assumes "option_loop opt opts = Some r"
  shows "opt \<noteq> None \<longrightarrow> (\<exists>opts f. r = Inl f \<and> option_case (fst (the opt)) (snd (the opt)) opts = Inl f)"
proof (rule option_loop.raw_induct [OF _ assms], intro impI)
  fix f opt opts r
  assume IH: "\<And>opt opts r. f opt opts = Some r \<Longrightarrow>
      opt \<noteq> None \<longrightarrow> (\<exists>opts f. r = Inl f \<and> option_case (fst (the opt)) (snd (the opt)) opts = Inl f)"
    and body: "(case opt of
        None \<Rightarrow> Some (Inr opts)
      | Some (c, optarg) \<Rightarrow>
          (case option_case c optarg opts of Inl f \<Rightarrow> Some (Inl f) | Inr opts' \<Rightarrow> f opt opts')) = Some r"
    and opt: "opt \<noteq> None"
  obtain c optarg where o: "opt = Some (c, optarg)" using opt by (metis option.exhaust surj_pair)
  show "\<exists>opts f. r = Inl f \<and> option_case (fst (the opt)) (snd (the opt)) opts = Inl f"
  proof (cases "option_case c optarg opts")
    case (Inl e)
    then have "r = Inl e" using body o by simp
    then show ?thesis using Inl o by (intro exI [of _ opts] exI [of _ e]) simp
  next
    case (Inr opts')
    then have "f opt opts' = Some r" using body o by simp
    then show ?thesis using IH opt by blast
  qed
qed

text \<open>
  The program comes past its options only when it is given none: with any option, a valid one
  included, reading the options does not end normally (it fails, or runs for ever on the first option,
  which the loop never replaces); an option that is accepted makes it run for ever.
\<close>

theorem options_never_end:
  "main_program [] = Some (Inr default_options)
   \<and> (\<forall>opt rest opts. main_program (opt # rest) \<noteq> Some (Inr opts))
   \<and> (\<forall>c optarg rest. (\<forall>opts. \<exists>opts'. option_case c optarg opts = Inr opts') \<longrightarrow> main_program ((c, optarg) # rest) = None)"
proof (intro conjI allI impI)
  show "main_program [] = Some (Inr default_options)" by (simp add: main_program_def option_loop.simps)
  show "main_program (opt # rest) \<noteq> Some (Inr opts)" for opt rest opts
    using option_loop_repeats [of "Some opt" default_options "Inr opts"] by (auto simp: main_program_def)
next
  fix c optarg rest
  assume "\<forall>opts. \<exists>opts'. option_case c optarg opts = Inr opts'"
  then have ok: "option_case c optarg opts \<noteq> Inl f" for opts f by (metis Inl_Inr_False)
  then have "option_loop (Some (c, optarg)) default_options \<noteq> Some r" for r
    using option_loop_repeats [of "Some (c, optarg)" default_options r] by auto
  then show "main_program ((c, optarg) # rest) = None"
    by (cases "option_loop (Some (c, optarg)) default_options") (auto simp: main_program_def)
qed

theorem options_never_end_witness:
  "main_program [(CHR ''p'', ''8080''), (CHR ''t'', ''2'')] = None"
proof -
  have "atoi ''8080'' = Inr 8080" by code_simp
  then have "\<forall>opts. \<exists>opts'. option_case (CHR ''p'') ''8080'' opts = Inr opts'" by (simp add: option_case_def)
  then show ?thesis using options_never_end by blast
qed

end
