(* ===== verification/Packer.thy ===== *)
theory Packer
  imports Prelude
begin

unbundle bit_operations_syntax

text \<open>
  \<open>include/Nanolog/Packer.h\<close>: integers packed into as few bytes as they need, with a 4-bit code
  that says how many bytes and which sign. Memory is a list of bytes on a little-endian machine;
  the pointers that the functions advance are positions in it. The overloads for \<open>uint32_t\<close>,
  \<open>uint64_t\<close>, \<open>int32_t\<close> and \<open>int64_t\<close> are one contract, the locale \<open>codec\<close>, in which whole packages
  are packed and unpacked.
\<close>

type_synonym byte = "8 word"
type_synonym memory = "byte list"

section \<open>Packing\<close>

definition sizeof_word :: "'a::len word itself \<Rightarrow> nat" where
  "sizeof_word T = LENGTH('a) div 8"

definition value_bytes :: "'a::len word \<Rightarrow> memory" where
  "value_bytes v = map (\<lambda>i. ucast (drop_bit (8 * i) v)) [0..<LENGTH('a) div 8]"

definition num_bytes :: "nat \<Rightarrow> nat" where
  "num_bytes v =
     (if v < 2 ^ 8 then 1 else if v < 2 ^ 16 then 2 else if v < 2 ^ 24 then 3 else if v < 2 ^ 32 then 4
      else if v < 2 ^ 40 then 5 else if v < 2 ^ 48 then 6 else if v < 2 ^ 56 then 7 else 8)"

text \<open>
  \<open>pack\<close> for the unsigned types: the whole value is copied, the pointer advanced only behind the
  bytes that count. The result is the code, the memory and the position.
\<close>

definition pack_unsigned :: "memory \<Rightarrow> nat \<Rightarrow> 'a::len word \<Rightarrow> (nat \<times> memory \<times> nat) result" where
  "pack_unsigned mem pos v =
     (let n = num_bytes (unat v) in
      bind_result (mem_write mem pos (value_bytes v)) (\<lambda>mem'. Inr (n, mem', pos + n)))"

definition pack_int32 :: "memory \<Rightarrow> nat \<Rightarrow> 32 word \<Rightarrow> (nat \<times> memory \<times> nat) result" where
  "pack_int32 mem pos v =
     (if 0 \<le> sint v \<or> sint v \<le> - (2 ^ 24) then pack_unsigned mem pos v
      else bind_result (pack_unsigned mem pos (- v)) (\<lambda>(n, mem', pos'). Inr (8 + n, mem', pos')))"

definition pack_int64 :: "memory \<Rightarrow> nat \<Rightarrow> 64 word \<Rightarrow> (nat \<times> memory \<times> nat) result" where
  "pack_int64 mem pos v =
     (if 0 \<le> sint v \<or> sint v \<le> - (2 ^ 56) then pack_unsigned mem pos v
      else bind_result (pack_unsigned mem pos (- v)) (\<lambda>(n, mem', pos'). Inr (8 + n, mem', pos')))"

definition pack_long_long :: "memory \<Rightarrow> nat \<Rightarrow> 64 word \<Rightarrow> (nat \<times> memory \<times> nat) result" where
  "pack_long_long mem pos v =
     (if 0 \<le> sint v \<or> sint v \<le> - (2 ^ 56) then pack_unsigned mem pos v
      else bind_result (pack_unsigned mem pos (- v)) (\<lambda>(n, mem', pos'). Inr (8 + n, mem', pos')))"

definition pack_pointer :: "memory \<Rightarrow> nat \<Rightarrow> 64 word \<Rightarrow> (nat \<times> memory \<times> nat) result" where
  "pack_pointer mem pos p = pack_unsigned mem pos p"

text \<open>A floating point value is its bytes; they are copied as they are.\<close>

definition pack_float :: "memory \<Rightarrow> nat \<Rightarrow> memory \<Rightarrow> (nat \<times> memory \<times> nat) result" where
  "pack_float mem pos v =
     bind_result (mem_write mem pos v) (\<lambda>mem'. Inr (length v, mem', pos + length v))"

section \<open>Unpacking\<close>

definition mem_read :: "memory \<Rightarrow> nat \<Rightarrow> nat \<Rightarrow> memory result" where
  "mem_read mem pos n =
     (if pos + n \<le> length mem then Inr (take n (drop pos mem)) else Inl Undefined_Behaviour)"

text \<open>The bytes copied to the low end of the \<open>int64_t\<close> that was set to 0.\<close>

primrec from_bytes :: "memory \<Rightarrow> 64 word" where
  "from_bytes [] = 0"
| "from_bytes (b # bs) = ucast b OR push_bit 8 (from_bytes bs)"

text \<open>
  \<open>unpack\<close>. The local variable \<open>package\<close> has 8 bytes: copying more is undefined, and so is the
  negation of the smallest \<open>int64_t\<close>. The test for code 0 in the second branch is dead, as in the
  code.
\<close>

definition unpack :: "memory \<Rightarrow> nat \<Rightarrow> nat \<Rightarrow> ('a::len word \<times> nat) result" where
  "unpack mem pos pack_code =
     (if pack_code \<le> 8
      then bind_result (mem_read mem pos pack_code) (\<lambda>bs. Inr (ucast (from_bytes bs), pos + pack_code))
      else let n = (if pack_code = 0 then 16 else (pack_code - 8) mod 16) in
        if 8 < n then Inl Undefined_Behaviour
        else bind_result (mem_read mem pos n) (\<lambda>bs.
          if sint (from_bytes bs) = - (2 ^ 63) then Inl Undefined_Behaviour
          else Inr (ucast (- from_bytes bs), pos + n)))"

definition unpack_pointer :: "memory \<Rightarrow> nat \<Rightarrow> nat \<Rightarrow> (64 word \<times> nat) result" where
  "unpack_pointer mem pos pack_nibble = unpack mem pos pack_nibble"

text \<open>
  \<open>unpack\<close> for a floating point type of \<open>size_T\<close> bytes. Copying more than its size is undefined, and
  so is the use of a variable that was written only in part.
\<close>

definition unpack_float :: "nat \<Rightarrow> memory \<Rightarrow> nat \<Rightarrow> nat \<Rightarrow> (memory \<times> nat) result" where
  "unpack_float size_T mem pos pack_nibble =
     (if pack_nibble = 4
      then bind_result (mem_read mem pos 4) (\<lambda>bs. Inr (bs, pos + 4))
      else let n = (if pack_nibble = 0 then 16 else pack_nibble) in
        if n \<noteq> size_T then Inl Undefined_Behaviour
        else bind_result (mem_read mem pos n) (\<lambda>bs. Inr (bs, pos + n)))"

section \<open>The size of a package\<close>

text \<open>A byte of the nibble stream holds the codes of two values.\<close>

type_synonym two_nibbles = "nat \<times> nat"

definition nibble_size :: "32 word \<Rightarrow> nat \<Rightarrow> 32 word" where
  "nibble_size acc nibble =
     (let acc = (if nibble = 0 then acc + 16 else acc) in
      if nibble > 8 then acc - 8 else acc)"

fun size_loop :: "two_nibbles list \<Rightarrow> nat \<Rightarrow> nat \<Rightarrow> 32 word \<Rightarrow> 32 word result" where
  "size_loop nibbles i 0 acc = Inr acc"
| "size_loop nibbles i (Suc n) acc =
     (if i < length nibbles then
        (let (first, second) = nibbles ! i; acc = acc + of_nat (first + second) in
         size_loop nibbles (i + 1) n (nibble_size (nibble_size acc first) second))
      else Inl Undefined_Behaviour)"

definition get_size_of_package :: "two_nibbles list \<Rightarrow> nat \<Rightarrow> 32 word result" where
  "get_size_of_package nibbles num_nibbles =
     bind_result (size_loop nibbles 0 (num_nibbles div 2) 0) (\<lambda>acc.
       if num_nibbles mod 2 = 1 then
         (if num_nibbles div 2 < length nibbles then
            (let first = fst (nibbles ! (num_nibbles div 2)) in
             Inr (nibble_size (acc + of_nat first) first))
          else Inl Undefined_Behaviour)
       else Inr acc)"

section \<open>The nibbler\<close>

record nibbler =
  nibble_position :: nat
  is_first_nibble :: bool
  num_nibbles :: nat
  current_package :: nat
  end_of_package :: nat

text \<open>
  The positions are relative to the byte \<open>nibble_start\<close>: the packed data begins behind the nibbles.
\<close>

definition new_nibbler :: "two_nibbles list \<Rightarrow> nat \<Rightarrow> nibbler result" where
  "new_nibbler nibbles num =
     bind_result (get_size_of_package nibbles num) (\<lambda>acc.
       Inr \<lparr>nibble_position = 0, is_first_nibble = True, num_nibbles = num,
            current_package = (num + 1) div 2, end_of_package = (num + 1) div 2 + unat acc\<rparr>)"

text \<open>
  \<open>get_next\<close>. The statement meant to switch between the two nibbles of a byte is a comparison
  (\<open>is_first_nibble != is_first_nibble\<close>), which changes nothing.
\<close>

definition get_next ::
  "two_nibbles list \<Rightarrow> memory \<Rightarrow> nibbler \<Rightarrow> ('a::len word \<times> nibbler) result" where
  "get_next nibbles mem nb =
     (if \<not> current_package nb < end_of_package nb then Inl Assertion_Failed
      else if \<not> nibble_position nb < length nibbles then Inl Undefined_Behaviour
      else
        let nibble = (if is_first_nibble nb then fst (nibbles ! nibble_position nb)
                      else snd (nibbles ! nibble_position nb)) in
        bind_result (unpack mem (current_package nb) nibble) (\<lambda>(next, pos).
          let nb' = nb\<lparr>current_package := pos\<rparr> in
          Inr (next, if \<not> is_first_nibble nb' then nb'\<lparr>nibble_position := nibble_position nb' + 1\<rparr> else nb')))"

definition get_end_of_package :: "nibbler \<Rightarrow> nat" where
  "get_end_of_package nb = end_of_package nb"

section \<open>Bytes and words\<close>

lemma from_bytes_digits:
  "from_bytes (map (\<lambda>i. ucast (drop_bit (8 * i) w)) [0..<n]) = take_bit (8 * n) (w :: 64 word)"
proof (induction n arbitrary: w)
  case 0
  then show ?case by simp
next
  case (Suc n)
  have "map (\<lambda>i. ucast (drop_bit (8 * i) w) :: byte) [0..<Suc n]
      = ucast w # map (\<lambda>i. ucast (drop_bit (8 * i) (drop_bit 8 w))) [0..<n]"
    by (simp del: upt_Suc add: upt_conv_Cons map_Suc_upt [symmetric] comp_def add.commute)
  then have "from_bytes (map (\<lambda>i. ucast (drop_bit (8 * i) w)) [0..<Suc n])
      = ucast (ucast w :: byte) OR push_bit 8 (take_bit (8 * n) (drop_bit 8 w))"
    using Suc [of "drop_bit 8 w"] by (simp del: upt_Suc)
  also have "\<dots> = take_bit (8 * Suc n) w"
    by (rule bit_word_eqI) (auto simp: bit_simps)
  finally show ?case .
qed

lemma num_bytes_bounds: "1 \<le> num_bytes v" "num_bytes v \<le> 8"
  by (simp_all add: num_bytes_def)

lemma num_bytes_room: "v < 2 ^ 64 \<Longrightarrow> v < 2 ^ (8 * num_bytes v)"
  by (simp add: num_bytes_def)

lemma num_bytes_small: "v < 2 ^ 56 \<Longrightarrow> num_bytes v \<le> 7" "v < 2 ^ 32 \<Longrightarrow> num_bytes v \<le> 4"
  by (simp_all add: num_bytes_def)

lemma length_value_bytes [simp]: "length (value_bytes (v :: 'a::len word)) = LENGTH('a) div 8"
  by (simp add: value_bytes_def)

lemma take_value_bytes:
  assumes "LENGTH('a::len) \<le> 64" and "n \<le> LENGTH('a) div 8"
  shows "from_bytes (take n (value_bytes (v :: 'a word))) = take_bit (8 * n) (ucast v)"
proof -
  have "take n (value_bytes v) = map (\<lambda>i. ucast (drop_bit (8 * i) v)) [0..<n]"
    using assms(2) by (simp add: value_bytes_def take_map)
  also have "\<dots> = map (\<lambda>i. ucast (drop_bit (8 * i) (ucast v :: 64 word))) [0..<n]"
    using assms by (intro map_cong refl bit_word_eqI) (auto simp: bit_simps)
  finally show ?thesis by (simp add: from_bytes_digits)
qed

text \<open>What a successful \<open>pack\<close> of an unsigned value leaves in memory.\<close>

lemma pack_unsigned_read:
  fixes v :: "'a::len word"
  assumes "pack_unsigned mem pos v = Inr (n, mem', pos')" and "LENGTH('a) \<in> {32, 64}"
    and "take pos' mem'' = take pos' mem'" 
  shows "n = num_bytes (unat v) \<and> pos' = pos + n \<and> take pos mem' = take pos mem \<and> length mem' = length mem
    \<and> pos' \<le> length mem' \<and> (\<exists>bs. mem_read mem'' pos n = Inr bs \<and> from_bytes bs = ucast v)"
proof -
  have w: "mem_write mem pos (value_bytes v) = Inr mem'" "n = num_bytes (unat v)" "pos' = pos + n"
    using assms(1) by (auto simp: pack_unsigned_def bind_result_Inr Let_def)
  have bound: "unat v < 2 ^ LENGTH('a)" by (rule unsigned_less)
  have n: "n \<le> LENGTH('a) div 8"
    using assms(2) bound w(2) num_bytes_bounds(2) num_bytes_small(2) by fastforce
  have room: "pos + LENGTH('a) div 8 \<le> length mem" using w(1) by (auto simp: mem_write_def split: if_splits)
  have len: "length mem' = length mem" using w(1) by (rule mem_write_length)
  have pos': "pos' \<le> length mem'" using n room len w(3) by simp
  have "take pos' mem' = take pos mem @ take n (value_bytes v)"
    unfolding w(3) by (rule mem_write_prefix [OF w(1)]) (use n in simp)
  then have "take n (drop pos mem') = take n (value_bytes v)"
    using mem_write_take [OF w(1), of pos] by (simp add: w(3) take_add)
  moreover have "take n (drop pos mem'') = take n (drop pos mem')"
    using assms(3) w(3) by (metis add.commute drop_take take_drop)
  moreover have "pos' \<le> length mem''"
    using assms(3) pos' by (metis length_take min.absorb2 min.bounded_iff order_refl)
  moreover have "from_bytes (take n (value_bytes v)) = take_bit (8 * n) (ucast v)"
    by (rule take_value_bytes) (use assms(2) n in auto)
  moreover have "take_bit (8 * n) (ucast v :: 64 word) = ucast v"
  proof -
    have "unat v < 2 ^ (8 * n)"
    proof -
      have "(2::nat) ^ LENGTH('a) \<le> 2 ^ 64" using assms(2) by (intro power_increasing) auto
      then show ?thesis using num_bytes_room [of "unat v"] bound w(2) by (meson order.strict_trans2)
    qed
    then have "unat (ucast v :: 64 word) < 2 ^ (8 * n)"
      using assms(2) by (auto simp: unsigned_ucast_eq intro: le_less_trans [OF take_bit_nat_less_eq_self])
    then show ?thesis by (simp add: word_unat_eq_iff unsigned_take_bit_eq take_bit_nat_eq_self)
  qed
  ultimately show ?thesis
    using w len pos' mem_write_take [OF w(1)] by (simp add: mem_read_def)
qed

lemma pack_unsigned_ok:
  "pos + LENGTH('a) div 8 \<le> length mem \<Longrightarrow>
   \<exists>n mem'. pack_unsigned mem pos (v :: 'a::len word) = Inr (n, mem', pos + n)"
  by (simp add: pack_unsigned_def mem_write_def Let_def)

section \<open>The contract of a codec\<close>

text \<open>
  \<open>agrees\<close> is the memory up to a position: what later calls write behind it does not matter.
\<close>

locale codec =
  fixes pack_val :: "memory \<Rightarrow> nat \<Rightarrow> 'v \<Rightarrow> (nat \<times> memory \<times> nat) result"
    and unpack_val :: "memory \<Rightarrow> nat \<Rightarrow> nat \<Rightarrow> ('v \<times> nat) result"
    and width :: nat
  assumes pack_unpack: "pack_val mem pos v = Inr (code, mem', pos') \<Longrightarrow> take pos' mem'' = take pos' mem' \<Longrightarrow>
      unpack_val mem'' pos code = Inr (v, pos')"
    and pack_frame: "pack_val mem pos v = Inr (code, mem', pos') \<Longrightarrow>
      take pos mem' = take pos mem \<and> length mem' = length mem \<and> pos \<le> pos' \<and> pos' \<le> pos + width \<and> pos' \<le> length mem'"
    and pack_room: "pos + width \<le> length mem \<Longrightarrow> \<exists>r. pack_val mem pos v = Inr r"
begin

fun pack_all :: "memory \<Rightarrow> nat \<Rightarrow> 'v list \<Rightarrow> (nat list \<times> memory \<times> nat) result" where
  "pack_all mem pos [] = Inr ([], mem, pos)"
| "pack_all mem pos (v # vs) =
     bind_result (pack_val mem pos v) (\<lambda>(code, mem', pos').
       bind_result (pack_all mem' pos' vs) (\<lambda>(codes, mem'', pos''). Inr (code # codes, mem'', pos'')))"

fun unpack_all :: "memory \<Rightarrow> nat \<Rightarrow> nat list \<Rightarrow> ('v list \<times> nat) result" where
  "unpack_all mem pos [] = Inr ([], pos)"
| "unpack_all mem pos (code # codes) =
     bind_result (unpack_val mem pos code) (\<lambda>(v, pos').
       bind_result (unpack_all mem pos' codes) (\<lambda>(vs, pos''). Inr (v # vs, pos'')))"

lemma pack_all_frame:
  "pack_all mem pos vs = Inr (codes, mem', pos') \<Longrightarrow> pos \<le> length mem \<Longrightarrow>
   take pos mem' = take pos mem \<and> length mem' = length mem \<and> pos \<le> pos' \<and> pos' \<le> length mem'"
proof (induction vs arbitrary: mem pos codes)
  case (Cons v vs)
  then obtain code mem1 pos1 codes' where 1: "pack_val mem pos v = Inr (code, mem1, pos1)"
      "pack_all mem1 pos1 vs = Inr (codes', mem', pos')" by (auto simp: bind_result_Inr)
  note f = pack_frame [OF 1(1)]
  with Cons.IH [OF 1(2)] have "take pos1 mem' = take pos1 mem1" "length mem' = length mem1" "pos1 \<le> pos'"
      "pos' \<le> length mem'" by auto
  moreover from this f have "take pos mem' = take pos mem" by (metis min.absorb1 take_take)
  ultimately show ?case using f by simp
qed auto

lemma pack_all_unpack_all:
  assumes "pack_all mem pos vs = Inr (codes, mem', pos')" and "pos \<le> length mem"
  shows "unpack_all mem' pos codes = Inr (vs, pos')"
  using assms
proof (induction vs arbitrary: mem pos codes)
  case (Cons v vs)
  then obtain code mem1 pos1 codes' where 1: "pack_val mem pos v = Inr (code, mem1, pos1)"
      "pack_all mem1 pos1 vs = Inr (codes', mem', pos')" "codes = code # codes'"
    by (auto simp: bind_result_Inr)
  have "pos1 \<le> length mem1" using pack_frame [OF 1(1)] by simp
  then show ?case
    using pack_unpack [OF 1(1)] pack_all_frame [OF 1(2)] Cons.IH [OF 1(2)] 1(3) by simp
qed auto

lemma pack_all_room:
  "pos + width * length vs \<le> length mem \<Longrightarrow> \<exists>r. pack_all mem pos vs = Inr r"
proof (induction vs arbitrary: mem pos)
  case (Cons v vs)
  then obtain code mem1 pos1 where 1: "pack_val mem pos v = Inr (code, mem1, pos1)"
    using pack_room [of pos mem v] by fastforce
  have "pos1 + width * length vs \<le> length mem1"
    using pack_frame [OF 1] Cons.prems by (simp add: algebra_simps)
  then show ?case using Cons.IH 1 by fastforce
qed simp

lemma round_trip:
  assumes "pos + width * length vs \<le> length mem"
  shows "\<exists>codes mem' pos'. pack_all mem pos vs = Inr (codes, mem', pos') \<and> unpack_all mem' pos codes = Inr (vs, pos')"
proof -
  obtain codes mem' pos' where p: "pack_all mem pos vs = Inr (codes, mem', pos')"
    using pack_all_room [OF assms] by (metis prod_cases3)
  have "pos \<le> length mem" using assms by simp
  then show ?thesis using pack_all_unpack_all [OF p] p by blast
qed

end

section \<open>The codecs\<close>

lemma pack_unsigned_unpack:
  fixes v :: "'a::len word"
  assumes "pack_unsigned mem pos v = Inr (n, mem', pos')" and "LENGTH('a) \<in> {32, 64}"
    and "take pos' mem'' = take pos' mem'"
  shows "unpack mem'' pos n = Inr (v, pos')"
proof -
  note r = pack_unsigned_read [OF assms]
  then obtain bs where "mem_read mem'' pos n = Inr bs" "from_bytes bs = ucast v" "n \<le> 8" "pos' = pos + n"
    using num_bytes_bounds(2) by auto
  moreover have "ucast (ucast v :: 64 word) = v"
    using assms(2) by (intro bit_word_eqI) (auto simp: bit_simps)
  ultimately show ?thesis by (simp add: unpack_def)
qed

lemma pack_unsigned_frame:
  fixes v :: "'a::len word"
  assumes "pack_unsigned mem pos v = Inr (n, mem', pos')" and "LENGTH('a) \<in> {32, 64}"
  shows "take pos mem' = take pos mem \<and> length mem' = length mem \<and> pos \<le> pos' \<and> pos' \<le> pos + LENGTH('a) div 8
    \<and> pos' \<le> length mem'"
proof -
  have "unat v < 2 ^ LENGTH('a)" by (rule unsigned_less)
  then have "num_bytes (unat v) \<le> LENGTH('a) div 8"
    using assms(2) num_bytes_bounds(2) num_bytes_small(2) by fastforce
  then show ?thesis using pack_unsigned_read [OF assms refl] by auto
qed

text \<open>The negated value, read as a negative one.\<close>

lemma unpack_negative:
  fixes v :: "'a::len word"
  assumes "mem_read mem pos n = Inr bs" and "from_bytes bs = ucast (- v)" and "LENGTH('a) \<in> {32, 64}"
    and "1 \<le> n" and "n \<le> 7" and "unat (- v) < 2 ^ 56"
  shows "unpack mem pos (8 + n) = Inr (v, pos + n)"
proof -
  have "ucast (- (ucast (- v) :: 64 word)) = v"
  proof -
    have "ucast (- x) = - (ucast x :: 'a word)" for x :: "64 word"
    proof -
      have "LENGTH('a) \<le> 64" using assms(3) by auto
      then have "take_bit LENGTH('a) (take_bit 64 (- uint x)) = take_bit LENGTH('a) (- uint x)" by (simp add: min_def)
      then have eq: "(word_of_int (take_bit 64 (- uint x)) :: 'a word) = word_of_int (- uint x)"
        by (simp only: word_of_int_eq_iff)
      have neg: "uint (- x) = take_bit 64 (- uint x)" by (simp add: uint_word_ariths take_bit_eq_mod)
      show ?thesis by (simp only: ucast_eq neg eq of_int_minus)
    qed
    moreover have "ucast (ucast (- v) :: 64 word) = - v"
      using assms(3) by (intro bit_word_eqI) (auto simp: bit_simps)
    ultimately show ?thesis by simp
  qed
  moreover have "sint (ucast (- v) :: 64 word) \<noteq> - (2 ^ 63)"
  proof -
    have "unat (ucast (- v) :: 64 word) < 2 ^ 56"
      using assms(6) by (auto simp: unsigned_ucast_eq intro: le_less_trans [OF take_bit_nat_less_eq_self])
    then have "int (unat (ucast (- v) :: 64 word)) < int (2 ^ 56)" by (simp only: of_nat_less_iff)
    then have "uint (ucast (- v) :: 64 word) < 2 ^ 56" by (simp only: uint_nat of_nat_power of_nat_numeral)
    moreover have nonneg: "0 \<le> uint (ucast (- v) :: 64 word)" by (rule unsigned_greater_eq)
    ultimately have "sint (ucast (- v) :: 64 word) = uint (ucast (- v) :: 64 word)"
      unfolding sint_uint using order.trans [OF _ nonneg, of "- (2 ^ 63)"]
      by (intro signed_take_bit_int_eq_self) simp_all
    moreover have "- (2 ^ 63) < (0::int)" by simp
    ultimately show ?thesis using nonneg by (metis not_less)
  qed
  ultimately show ?thesis using assms(1,2,4,5) by (simp add: unpack_def)
qed

interpretation uint32: codec pack_unsigned "unpack :: memory \<Rightarrow> nat \<Rightarrow> nat \<Rightarrow> (32 word \<times> nat) result" 4
proof unfold_locales
  fix v :: "32 word"
  show "pack_unsigned mem pos v = Inr (code, mem', pos') \<Longrightarrow> take pos' mem'' = take pos' mem' \<Longrightarrow>
    unpack mem'' pos code = Inr (v, pos')" for mem pos code mem' mem'' pos'
    by (rule pack_unsigned_unpack) simp_all
  show "take pos mem' = take pos mem \<and> length mem' = length mem \<and> pos \<le> pos' \<and> pos' \<le> pos + 4 \<and> pos' \<le> length mem'"
    if "pack_unsigned mem pos v = Inr (code, mem', pos')" for mem pos code mem' pos'
    using pack_unsigned_frame [OF that] by simp
  show "\<exists>r. pack_unsigned mem pos v = Inr r" if "pos + 4 \<le> length mem" for mem pos
    using pack_unsigned_ok [of pos mem v] that by auto
qed

interpretation uint64: codec pack_unsigned "unpack :: memory \<Rightarrow> nat \<Rightarrow> nat \<Rightarrow> (64 word \<times> nat) result" 8
proof unfold_locales
  fix v :: "64 word"
  show "pack_unsigned mem pos v = Inr (code, mem', pos') \<Longrightarrow> take pos' mem'' = take pos' mem' \<Longrightarrow>
    unpack mem'' pos code = Inr (v, pos')" for mem pos code mem' mem'' pos'
    by (rule pack_unsigned_unpack) simp_all
  show "take pos mem' = take pos mem \<and> length mem' = length mem \<and> pos \<le> pos' \<and> pos' \<le> pos + 8 \<and> pos' \<le> length mem'"
    if "pack_unsigned mem pos v = Inr (code, mem', pos')" for mem pos code mem' pos'
    using pack_unsigned_frame [OF that] by simp
  show "\<exists>r. pack_unsigned mem pos v = Inr r" if "pos + 8 \<le> length mem" for mem pos
    using pack_unsigned_ok [of pos mem v] that by auto
qed

text \<open>The magnitude of a negative value that is packed as one.\<close>

lemma unat_magnitude:
  fixes v :: "'a::len word"
  assumes "sint v < 0" and "- (2 ^ k) < sint v" and "k \<le> LENGTH('a)"
  shows "unat (- v) < 2 ^ k"
proof -
  have "- v = of_int (- sint v)" by simp
  then have "uint (- v) = take_bit LENGTH('a) (- sint v)" by (simp only: uint_word_of_int take_bit_eq_mod)
  also have "\<dots> = - sint v"
  proof -
    have "(2::int) ^ k \<le> 2 ^ LENGTH('a)" using assms(3) by (intro power_increasing) simp_all
    moreover have "- sint v < 2 ^ k" using assms(2) by linarith
    ultimately have "- sint v < 2 ^ LENGTH('a)" by (rule less_le_trans [rotated])
    then show ?thesis using assms(1) by (intro take_bit_int_eq_self) simp_all
  qed
  finally have "int (unat (- v)) < 2 ^ k" using assms(2) by simp
  then show ?thesis by (metis of_nat_less_iff of_nat_numeral of_nat_power)
qed

lemma negative_read:
  fixes v :: "'a::len word"
  assumes "pack_unsigned mem pos (- v) = Inr (n, mem', pos')" and "LENGTH('a) \<in> {32, 64}"
    and "take pos' mem'' = take pos' mem'" and "unat (- v) < 2 ^ 56"
  shows "unpack mem'' pos (8 + n) = Inr (v, pos')"
proof -
  note r = pack_unsigned_read [OF assms(1-3)]
  then obtain bs where "mem_read mem'' pos n = Inr bs" "from_bytes bs = ucast (- v)" "n \<le> 7" "1 \<le> n" "pos' = pos + n"
    using num_bytes_bounds(1) num_bytes_small(1) [OF assms(4)] by auto
  then show ?thesis using unpack_negative assms(2,4) by blast
qed

lemma pack_int32_unpack:
  assumes "pack_int32 mem pos v = Inr (code, mem', pos')" and "take pos' mem'' = take pos' mem'"
  shows "unpack mem'' pos code = Inr (v, pos')"
proof (cases "0 \<le> sint v \<or> sint v \<le> - (2 ^ 24)")
  case True
  then show ?thesis using assms pack_unsigned_unpack [of mem pos v] by (simp add: pack_int32_def)
next
  case False
  then obtain n where n: "pack_unsigned mem pos (- v) = Inr (n, mem', pos')" "code = 8 + n"
    using assms(1) by (auto simp: pack_int32_def bind_result_Inr)
  have "unat (- v) < 2 ^ 24" by (rule unat_magnitude) (use False in simp_all)
  then show ?thesis using negative_read [OF n(1) _ assms(2)] n(2) by simp
qed

lemma pack_int64_unpack:
  assumes "pack_int64 mem pos v = Inr (code, mem', pos')" and "take pos' mem'' = take pos' mem'"
  shows "unpack mem'' pos code = Inr (v, pos')"
proof (cases "0 \<le> sint v \<or> sint v \<le> - (2 ^ 56)")
  case True
  then show ?thesis using assms pack_unsigned_unpack [of mem pos v] by (simp add: pack_int64_def)
next
  case False
  then obtain n where n: "pack_unsigned mem pos (- v) = Inr (n, mem', pos')" "code = 8 + n"
    using assms(1) by (auto simp: pack_int64_def bind_result_Inr)
  have "unat (- v) < 2 ^ 56" by (rule unat_magnitude) (use False in simp_all)
  then show ?thesis using negative_read [OF n(1) _ assms(2)] n(2) by simp
qed

lemma pack_int32_frame:
  "pack_int32 mem pos v = Inr (code, mem', pos') \<Longrightarrow>
   take pos mem' = take pos mem \<and> length mem' = length mem \<and> pos \<le> pos' \<and> pos' \<le> pos + 4 \<and> pos' \<le> length mem'"
  using pack_unsigned_frame [of mem pos v] pack_unsigned_frame [of mem pos "- v"]
  by (auto simp: pack_int32_def bind_result_Inr split: if_splits)

lemma pack_int64_frame:
  "pack_int64 mem pos v = Inr (code, mem', pos') \<Longrightarrow>
   take pos mem' = take pos mem \<and> length mem' = length mem \<and> pos \<le> pos' \<and> pos' \<le> pos + 8 \<and> pos' \<le> length mem'"
  using pack_unsigned_frame [of mem pos v] pack_unsigned_frame [of mem pos "- v"]
  by (auto simp: pack_int64_def bind_result_Inr split: if_splits)

interpretation int32: codec pack_int32 "unpack :: memory \<Rightarrow> nat \<Rightarrow> nat \<Rightarrow> (32 word \<times> nat) result" 4
proof unfold_locales
  show "\<exists>r. pack_int32 mem pos v = Inr r" if "pos + 4 \<le> length mem" for mem pos v
    using pack_unsigned_ok [of pos mem v] pack_unsigned_ok [of pos mem "- v"] that
    by (auto simp: pack_int32_def bind_result_Inr)
qed (use pack_int32_unpack pack_int32_frame in blast)+

interpretation int64: codec pack_int64 "unpack :: memory \<Rightarrow> nat \<Rightarrow> nat \<Rightarrow> (64 word \<times> nat) result" 8
proof unfold_locales
  show "\<exists>r. pack_int64 mem pos v = Inr r" if "pos + 8 \<le> length mem" for mem pos v
    using pack_unsigned_ok [of pos mem v] pack_unsigned_ok [of pos mem "- v"] that
    by (auto simp: pack_int64_def bind_result_Inr)
qed (use pack_int64_unpack pack_int64_frame in blast)+

text \<open>Packing and unpacking a list of \<open>int64_t\<close> values with one pointer.\<close>

fun pack_values :: "memory \<Rightarrow> nat \<Rightarrow> 64 word list \<Rightarrow> (nat list \<times> memory \<times> nat) result" where
  "pack_values mem pos [] = Inr ([], mem, pos)"
| "pack_values mem pos (v # vs) =
     bind_result (pack_int64 mem pos v) (\<lambda>(code, mem', pos').
       bind_result (pack_values mem' pos' vs) (\<lambda>(codes, mem'', pos''). Inr (code # codes, mem'', pos'')))"

fun unpack_values :: "memory \<Rightarrow> nat \<Rightarrow> nat list \<Rightarrow> (64 word list \<times> nat) result" where
  "unpack_values mem pos [] = Inr ([], pos)"
| "unpack_values mem pos (code # codes) =
     bind_result (unpack mem pos code) (\<lambda>(v, pos').
       bind_result (unpack_values mem pos' codes) (\<lambda>(vs, pos''). Inr (v # vs, pos'')))"

lemma pack_values_codec: "pack_values mem pos vs = int64.pack_all mem pos vs"
  by (induction vs arbitrary: mem pos) simp_all

lemma unpack_values_codec: "unpack_values mem pos codes = int64.unpack_all mem pos codes"
  by (induction codes arbitrary: pos) simp_all

lemma pack_long_long_eq: "pack_long_long = pack_int64"
  by (intro ext) (simp add: pack_long_long_def pack_int64_def)

text \<open>
  C11. Packing is lossless: a list of signed 64-bit values packed one behind the other into memory
  with 8 bytes of room for each is read back exactly with the codes that \<open>pack\<close> returned, although
  every \<open>pack\<close> but the last is partly overwritten by the next.
\<close>

theorem pack_round_trip:
  assumes "pos + 8 * length vs \<le> length mem"
  shows "\<exists>codes mem' pos'. pack_values mem pos vs = Inr (codes, mem', pos')
    \<and> unpack_values mem' pos codes = Inr (vs, pos')"
  unfolding pack_values_codec unpack_values_codec using assms by (rule int64.round_trip)

theorem pack_round_trip_witness:
  "\<exists>codes mem' pos'. pack_values (replicate 24 0) 0 [300, - 5, - (2 ^ 60)] = Inr (codes, mem', pos')
    \<and> unpack_values mem' 0 codes = Inr ([300, - 5, - (2 ^ 60)], pos')"
  by (rule pack_round_trip) simp

text \<open>
  The same for the 32-bit overloads: a value packed by the unsigned or the signed overload
  comes back from \<open>unpack\<close>, whatever is written behind its package, and the package is no longer
  than the type.
\<close>

theorem pack32_round_trip:
  assumes "pos + 4 \<le> length mem" and "pack \<in> {pack_unsigned, pack_int32}"
  shows "\<exists>code mem' pos'. pack mem pos v = Inr (code, mem', pos') \<and> pos' \<le> pos + 4
      \<and> (\<forall>mem''. take pos' mem'' = take pos' mem' \<longrightarrow> unpack mem'' pos code = Inr (v, pos'))"
proof (cases "pack = pack_int32")
  case True
  obtain code mem' pos' where "pack_int32 mem pos v = Inr (code, mem', pos')"
    using int32.pack_room [OF assms(1)] by (metis prod_cases3)
  then show ?thesis using int32.pack_unpack int32.pack_frame True by blast
next
  case False
  obtain code mem' pos' where "pack_unsigned mem pos v = Inr (code, mem', pos')"
    using uint32.pack_room [OF assms(1)] by (metis prod_cases3)
  then show ?thesis using uint32.pack_unpack uint32.pack_frame False assms(2) by blast
qed

theorem pack32_round_trip_witness:
  "\<exists>code mem' pos'. pack_int32 (replicate 8 0) 2 (- 7) = Inr (code, mem', pos') \<and> pos' \<le> 2 + 4
      \<and> (\<forall>mem''. take pos' mem'' = take pos' mem' \<longrightarrow> unpack mem'' 2 code = Inr (- 7 :: 32 word, pos'))"
  by (rule pack32_round_trip) simp_all

section \<open>The size of a package and the walk through it\<close>

text \<open>
  What the comment at the head of the file says a code stands for: 0 for a 16-byte value, up to 8
  for so many bytes, above for a negative value.
\<close>

definition code_size :: "nat \<Rightarrow> nat" where
  "code_size c = (if c = 0 then 16 else if 8 < c then c - 8 else c)"

definition codes_of :: "two_nibbles list \<Rightarrow> nat list" where
  "codes_of nibbles = concat (map (\<lambda>(first, second). [first, second]) nibbles)"

lemma codes_of_Nil [simp]: "codes_of [] = []"
  by (simp add: codes_of_def)

lemma codes_of_Cons [simp]: "codes_of ((a, b) # ns) = a # b # codes_of ns"
  by (simp add: codes_of_def)

lemma length_codes_of [simp]: "length (codes_of ns) = 2 * length ns"
  by (induction ns) (auto simp: codes_of_def)

lemma codes_of_take: "take (2 * n) (codes_of ns) = codes_of (take n ns)"
proof (induction ns arbitrary: n)
  case (Cons x ns)
  then show ?case by (cases n; cases x) simp_all
qed (simp add: codes_of_def)

lemma codes_of_snoc: "codes_of (ns @ [(a, b)]) = codes_of ns @ [a, b]"
  by (simp add: codes_of_def)

lemma nibble_size_code:
  "nibble_size (acc + of_nat c) c = acc + of_nat (code_size c)"
  by (auto simp: nibble_size_def code_size_def Let_def)

lemma nibble_size_add: "nibble_size (acc + w) c = nibble_size acc c + w"
  by (simp add: nibble_size_def Let_def)

lemma size_loop_step:
  "nibble_size (nibble_size (acc + of_nat (a + b)) a) b = acc + of_nat (code_size a + code_size b)"
proof -
  have "nibble_size (acc + of_nat (a + b)) a = (acc + of_nat (code_size a)) + of_nat b"
    using nibble_size_code [of acc a] nibble_size_add [of "acc + of_nat a" "of_nat b" a]
    by (simp add: add.assoc)
  then show ?thesis by (simp only: nibble_size_code) simp
qed

lemma size_loop_sum:
  "i + n \<le> length nibbles \<Longrightarrow>
   size_loop nibbles i n acc = Inr (acc + of_nat (sum_list (map code_size (codes_of (take n (drop i nibbles))))))"
proof (induction n arbitrary: i acc)
  case 0
  then show ?case by (simp add: codes_of_def)
next
  case (Suc n)
  obtain a b where ab: "nibbles ! i = (a, b)" by (cases "nibbles ! i")
  have "i < length nibbles" using Suc.prems by simp
  then have "take (Suc n) (drop i nibbles) = (a, b) # take n (drop (i + 1) nibbles)"
    by (simp add: ab Cons_nth_drop_Suc [symmetric])
  moreover have "nibble_size (nibble_size (acc + of_nat (a + b)) a) b = acc + of_nat (code_size a + code_size b)"
    by (rule size_loop_step)
  ultimately show ?case
    using Suc.IH [of "i + 1"] Suc.prems by (simp add: ab add.assoc)
qed

text \<open>
  C39. \<open>get_size_of_package\<close>, which adds the codes up and corrects the sum for zero and negative
  codes, computes the total of the sizes its codes stand for, modulo \<open>2 ^ 32\<close>, for an even and an odd
  number of codes.
\<close>

theorem get_size_of_package_sum:
  assumes "num \<le> 2 * length nibbles"
  shows "get_size_of_package nibbles num = Inr (of_nat (sum_list (map code_size (take num (codes_of nibbles)))))"
proof (cases "even num")
  case True
  then have "num = 2 * (num div 2)" by simp
  then have "take num (codes_of nibbles) = codes_of (take (num div 2) nibbles)" using codes_of_take by metis
  then show ?thesis
    using True assms by (simp add: get_size_of_package_def size_loop_sum)
next
  case False
  define k where "k = num div 2"
  have num: "num = 2 * k + 1" using False by (simp add: k_def)
  then have k: "k < length nibbles" using assms by simp
  obtain a b where ab: "nibbles ! k = (a, b)" by (cases "nibbles ! k")
  have "take num (codes_of nibbles) = take num (take (2 * Suc k) (codes_of nibbles))" by (simp add: num)
  also have "\<dots> = take num (codes_of (take k nibbles) @ [a, b])"
    using k by (simp only: codes_of_take take_Suc_conv_app_nth ab codes_of_snoc)
  also have "\<dots> = codes_of (take k nibbles) @ [a]" using k by (simp add: num)
  finally show ?thesis
    using k odd_iff_mod_2_eq_one [THEN iffD1, OF False] by (simp add: get_size_of_package_def k_def [symmetric] size_loop_sum ab nibble_size_code)
qed

theorem get_size_of_package_sum_witness:
  "get_size_of_package [(2, 9), (0, 7)] 3 = Inr (of_nat (sum_list (map code_size (take 3 (codes_of [(2, 9), (0, 7)])))))"
  by (rule get_size_of_package_sum) simp

text \<open>Successive calls of \<open>get_next\<close> for the same type.\<close>

primrec get_many ::
  "two_nibbles list \<Rightarrow> memory \<Rightarrow> nat \<Rightarrow> nibbler \<Rightarrow> ('a::len word list \<times> nibbler) result" where
  "get_many nibbles mem 0 nb = Inr ([], nb)"
| "get_many nibbles mem (Suc n) nb =
     bind_result (get_next nibbles mem nb) (\<lambda>(v, nb').
       bind_result (get_many nibbles mem n nb') (\<lambda>(vs, nb''). Inr (v # vs, nb'')))"

lemma get_next_first:
  assumes "get_next nibbles mem nb = Inr (v, nb')" and "is_first_nibble nb"
  shows "\<exists>pos. unpack mem (current_package nb) (fst (nibbles ! nibble_position nb)) = Inr (v, pos)
    \<and> nb' = nb\<lparr>current_package := pos\<rparr>"
  using assms by (auto simp: get_next_def bind_result_Inr Let_def split: if_splits)

lemma get_many_first:
  "get_many nibbles mem n nb = Inr (vs, nb') \<Longrightarrow> is_first_nibble nb \<Longrightarrow>
   length vs = n \<and> is_first_nibble nb' \<and> nibble_position nb' = nibble_position nb
   \<and> unpack_values mem (current_package nb) (replicate n (fst (nibbles ! nibble_position nb)))
     = Inr (vs, current_package nb')"
proof (induction n arbitrary: nb vs)
  case (Suc n)
  then obtain v nb1 vs1 where 1: "get_next nibbles mem nb = Inr (v, nb1)"
      "get_many nibbles mem n nb1 = Inr (vs1, nb')" "vs = v # vs1"
    by (auto simp: bind_result_Inr)
  obtain pos where p: "unpack mem (current_package nb) (fst (nibbles ! nibble_position nb)) = Inr (v, pos)"
      "nb1 = nb\<lparr>current_package := pos\<rparr>"
    using get_next_first [OF 1(1) Suc.prems(2)] by blast
  show ?case using Suc.IH [OF 1(2)] Suc.prems(2) p 1(3) by simp
qed simp

text \<open>
  The walk through a package never leaves the first code: the statement meant to switch to the
  second nibble has no effect, so every value is unpacked with the code of the first one, whatever
  the later codes are.
\<close>

theorem nibbler_repeats_first_code:
  assumes "new_nibbler nibbles num = Inr nb" and "get_many nibbles mem n nb = Inr (vs, nb')"
  shows "nibble_position nb' = 0 \<and> is_first_nibble nb' \<and> length vs = n
    \<and> unpack_values mem ((num + 1) div 2) (replicate n (fst (nibbles ! 0))) = Inr (vs, current_package nb')"
proof -
  have "is_first_nibble nb" "nibble_position nb = 0" "current_package nb = (num + 1) div 2"
    using assms(1) by (auto simp: new_nibbler_def bind_result_Inr)
  then show ?thesis using get_many_first [OF assms(2)] by auto
qed

theorem nibbler_repeats_first_code_witness:
  "\<exists>nb' :: nibbler. nibble_position nb' = 0 \<and> is_first_nibble nb' \<and> length [5, 1 :: 64 word] = 2
    \<and> unpack_values [0x21, 5, 1, 1] ((2 + 1) div 2) (replicate 2 (fst ([(1, 2 :: nat)] ! 0)))
      = Inr ([5, 1], current_package nb')"
proof -
  let ?nb = "\<lparr>nibble_position = 0, is_first_nibble = True, num_nibbles = 2, current_package = 1, end_of_package = 4\<rparr>"
  have new: "new_nibbler [(1, 2)] 2 = Inr ?nb" by code_simp
  have gets: "get_many [(1, 2)] [0x21, 5, 1, 1] 2 ?nb = Inr ([5, 1 :: 64 word], ?nb\<lparr>current_package := 3\<rparr>)"
    by code_simp
  show ?thesis by (intro exI) (rule nibbler_repeats_first_code [OF new gets])
qed

end
