(* ===== verification/Nanolog_Util.thy ===== *)
theory Nanolog_Util
  imports Cpp_String
begin

text \<open>
  \<open>include/Nanolog/NanologUtil.cpp\<close>: formatting into a buffer that grows until the text fits, and the
  hexadecimal dump. The text that \<open>vsnprintf\<close> would write with enough room (its directives applied to
  the arguments) is an argument. The wrappers of machine instructions and of the scheduler are in
  \<open>Nanolog_Cpu\<close>.
\<close>

section \<open>Formatting\<close>

text \<open>
  The loop of \<open>vformat\<close>: \<open>vsnprintf\<close> returns the length of the whole text and writes as much as fits
  before the null; the string is read back from the buffer up to its first null.
\<close>

definition vsnprintf :: "nat \<Rightarrow> string \<Rightarrow> nat \<times> string" where
  "vsnprintf buffer_size whole = (length whole, take (buffer_size - 1) whole @ [CHR 0x00])"

definition c_string :: "string \<Rightarrow> string" where
  "c_string mem = takeWhile (\<lambda>c. c \<noteq> CHR 0x00) mem"

function vformat_loop :: "nat \<Rightarrow> string \<Rightarrow> string" where
  "vformat_loop buffer_size whole =
     (case vsnprintf buffer_size whole of (r, buffer) \<Rightarrow>
        if r < buffer_size then c_string buffer else vformat_loop (buffer_size + 1) whole)"
  by pat_completeness auto

termination
  by (relation "measure (\<lambda>(buffer_size, whole). length whole + 1 - buffer_size)") (auto simp: vsnprintf_def)

declare vformat_loop.simps [simp del]

definition vformat :: "string \<Rightarrow> string" where
  "vformat whole = vformat_loop 1024 whole"

definition format_text :: "string \<Rightarrow> string" where
  "format_text whole = vformat whole"

lemma vformat_loop_text:
  "vformat_loop n whole = c_string whole"
proof (induction n whole rule: vformat_loop.induct)
  case (1 n whole)
  show ?case
  proof (cases "length whole < n")
    case True
    then have "take (n - 1) whole = whole" by simp
    then show ?thesis using True
      by (subst vformat_loop.simps) (auto simp: vsnprintf_def c_string_def takeWhile_append takeWhile_eq_all_conv [THEN iffD2])
  next
    case False
    then show ?thesis using 1 by (subst vformat_loop.simps) (simp add: vsnprintf_def)
  qed
qed

text \<open>
  Formatting ends and never cuts a text: whatever its length, the result is the text that the format
  stands for, up to its first null.
\<close>

theorem vformat_whole_text:
  "vformat whole = takeWhile (\<lambda>c. c \<noteq> CHR 0x00) whole"
  by (simp add: vformat_def vformat_loop_text c_string_def)

section \<open>The hexadecimal dump\<close>

definition hex_digit :: "nat \<Rightarrow> char" where
  "hex_digit d = ''0123456789abcdef'' ! (d mod 16)"

text \<open>\<open>%02x\<close> and \<open>%016lx\<close>.\<close>

definition hex2 :: "nat \<Rightarrow> string" where
  "hex2 v = [hex_digit (v div 16), hex_digit v]"

definition hex16 :: "nat \<Rightarrow> string" where
  "hex16 v = map (\<lambda>k. hex_digit (v div 16 ^ (15 - k))) [0..<16]"

definition isprint :: "nat \<Rightarrow> bool" where
  "isprint c \<longleftrightarrow> 32 \<le> c \<and> c < 127"

definition dump_hex :: "nat list \<Rightarrow> nat \<Rightarrow> nat \<Rightarrow> string" where
  "dump_hex buffer i j = (if i + j \<ge> length buffer then ''  '' else hex2 (buffer ! (i + j)))"

definition dump_ascii :: "nat list \<Rightarrow> nat \<Rightarrow> nat \<Rightarrow> char" where
  "dump_ascii buffer i j =
     (if i + j \<ge> length buffer then CHR 0x00
      else if isprint (buffer ! (i + j)) then char_of (buffer ! (i + j)) else CHR ''.'')"

text \<open>One line: the offset, 16 columns, and the characters up to the first null.\<close>

definition dump_line :: "nat list \<Rightarrow> nat \<Rightarrow> string" where
  "dump_line buffer i =
     hex16 i @ concat (map (\<lambda>j. CHR '' '' # dump_hex buffer i j) [0..<16])
     @ ''  |'' @ c_string (map (dump_ascii buffer i) [0..<16] @ [CHR 0x00]) @ ''|'' @ [CHR 0x0A]"

function hex_dump_from :: "nat list \<Rightarrow> nat \<Rightarrow> string" where
  "hex_dump_from buffer i =
     (if i < length buffer then format_text (dump_line buffer i) @ hex_dump_from buffer (i + 64) else [])"
  by pat_completeness auto

termination
  by (relation "measure (\<lambda>(buffer, i). length buffer - i)") auto

declare hex_dump_from.simps [simp del]

definition hex_dump :: "nat list \<Rightarrow> string" where
  "hex_dump buffer = hex_dump_from buffer 0"

text \<open>A line reads 16 bytes, and the next line starts 64 bytes further.\<close>

lemma dump_line_agree:
  assumes "length buffer = length buffer'" and "\<forall>j<16. i + j < length buffer \<longrightarrow> buffer ! (i + j) = buffer' ! (i + j)"
  shows "dump_line buffer i = dump_line buffer' i"
proof -
  have "dump_hex buffer i j = dump_hex buffer' i j" "dump_ascii buffer i j = dump_ascii buffer' i j" if "j < 16" for j
    using assms that by (auto simp: dump_hex_def dump_ascii_def)
  then have "map (\<lambda>j. CHR '' '' # dump_hex buffer i j) [0..<16] = map (\<lambda>j. CHR '' '' # dump_hex buffer' i j) [0..<16]"
      "map (dump_ascii buffer i) [0..<16] = map (dump_ascii buffer' i) [0..<16]"
    by (intro map_cong refl; simp)+
  then show ?thesis by (simp only: dump_line_def)
qed

lemma hex_dump_from_agree:
  assumes "length buffer = length buffer'"
    and "\<forall>k<length buffer. k mod 64 < 16 \<longrightarrow> buffer ! k = buffer' ! k"
  shows "i mod 64 = 0 \<Longrightarrow> hex_dump_from buffer i = hex_dump_from buffer' i"
proof (induction "length buffer - i" arbitrary: i rule: less_induct)
  case less
  show ?case
  proof (cases "i < length buffer")
    case True
    have "(i + j) mod 64 = j" if "j < 16" for j
      using less.prems that by (simp add: mod_add_left_eq [symmetric, of i])
    then have "dump_line buffer i = dump_line buffer' i"
      using assms by (intro dump_line_agree) auto
    moreover have "hex_dump_from buffer (i + 64) = hex_dump_from buffer' (i + 64)"
      using less.hyps [of "i + 64"] less.prems True by simp
    ultimately show ?thesis using True assms(1) by (subst (1 2) hex_dump_from.simps) simp
  next
    case False
    then show ?thesis using assms(1) by (subst (1 2) hex_dump_from.simps) simp
  qed
qed

text \<open>
  The dump shows a quarter of its input: it does not depend on the bytes whose offset modulo 64 is 16
  or more, because a line holds 16 bytes and the loop moves on by 64.
\<close>

theorem hex_dump_skips_bytes:
  assumes "length buffer = length buffer'"
    and "\<forall>k<length buffer. k mod 64 < 16 \<longrightarrow> buffer ! k = buffer' ! k"
  shows "hex_dump buffer = hex_dump buffer'"
  unfolding hex_dump_def by (rule hex_dump_from_agree [OF assms]) simp

theorem hex_dump_skips_bytes_witness:
  "hex_dump (replicate 16 65 @ [1, 2, 3]) = hex_dump (replicate 16 65 @ [7, 8, 9])"
  by (rule hex_dump_skips_bytes) (simp_all add: nth_append less_Suc_eq_le)

end
