(* ===== verification/Mutex.thy ===== *)
theory Mutex
  imports Prelude
begin

text \<open>
  \<open>include/MutexLock.h\<close> and \<open>include/Condition.cpp\<close> over what POSIX promises of a default mutex and of
  a condition variable. Threads are numbered. A call that blocks has no result (\<open>None\<close>); unlocking a
  mutex one does not hold and destroying a mutex that is held are undefined.
\<close>

section \<open>MutexLock\<close>

record mutex =
  m_owner :: "nat option"
  m_destroyed :: bool

definition new_mutex :: mutex where
  "new_mutex = \<lparr>m_owner = None, m_destroyed = False\<rparr>"

definition mutex_lock :: "nat \<Rightarrow> mutex \<Rightarrow> mutex outcome" where
  "mutex_lock t m =
     (if m_destroyed m then Some (Inl Undefined_Behaviour)
      else case m_owner m of None \<Rightarrow> Some (Inr (m\<lparr>m_owner := Some t\<rparr>)) | Some u \<Rightarrow> None)"

definition mutex_unlock :: "nat \<Rightarrow> mutex \<Rightarrow> mutex result" where
  "mutex_unlock t m =
     (if m_destroyed m \<or> m_owner m \<noteq> Some t then Inl Undefined_Behaviour else Inr (m\<lparr>m_owner := None\<rparr>))"

definition pthread_mutex_destroy :: "mutex \<Rightarrow> mutex result" where
  "pthread_mutex_destroy m =
     (if m_destroyed m \<or> m_owner m \<noteq> None then Inl Undefined_Behaviour else Inr (m\<lparr>m_destroyed := True\<rparr>))"

definition destroy_mutex :: "nat \<Rightarrow> mutex \<Rightarrow> mutex outcome" where
  "destroy_mutex t m = bind_outcome (mutex_lock t m) (\<lambda>m. Some (pthread_mutex_destroy m))"

text \<open>A block under a \<open>MutexLockGuard\<close>: locked by the constructor, unlocked by the destructor.\<close>

definition guarded :: "nat \<Rightarrow> ('s \<Rightarrow> 's result) \<Rightarrow> mutex \<times> 's \<Rightarrow> (mutex \<times> 's) outcome" where
  "guarded t body ms =
     bind_outcome (mutex_lock t (fst ms)) (\<lambda>m.
       Some (bind_result (body (snd ms)) (\<lambda>s. bind_result (mutex_unlock t m) (\<lambda>m. Inr (m, s)))))"

lemma mutex_lock_Inr:
  "mutex_lock t m = Some (Inr m') \<longleftrightarrow> \<not> m_destroyed m \<and> m_owner m = None \<and> m' = m\<lparr>m_owner := Some t\<rparr>"
  by (auto simp: mutex_lock_def split: option.splits)

lemma mutex_unlock_Inr:
  "mutex_unlock t m = Inr m' \<longleftrightarrow> \<not> m_destroyed m \<and> m_owner m = Some t \<and> m' = m\<lparr>m_owner := None\<rparr>"
  by (auto simp: mutex_unlock_def)

lemma guarded_Inr:
  "guarded t body (m, s) = Some (Inr (m', s')) \<longleftrightarrow>
     \<not> m_destroyed m \<and> m_owner m = None \<and> body s = Inr s' \<and> m' = m"
  by (cases m) (auto simp: guarded_def bind_outcome_Some_Inr bind_result_Inr mutex_lock_Inr mutex_unlock_Inr)

text \<open>
  The destructor of \<open>MutexLock\<close> locks the mutex it then destroys: it never ends as POSIX allows.
\<close>

lemma destroy_mutex_never:
  "destroy_mutex t m = None \<or> destroy_mutex t m = Some (Inl Undefined_Behaviour)"
  by (auto simp: destroy_mutex_def mutex_lock_def pthread_mutex_destroy_def split: option.splits)

section \<open>Condition\<close>

text \<open>
  The threads that sleep on the variable, and those that have been woken and have not come back from
  the call yet because they need the mutex first.
\<close>

record condition =
  c_sleeping :: "nat list"
  c_woken :: "nat list"

definition new_condition :: condition where
  "new_condition = \<lparr>c_sleeping = [], c_woken = []\<rparr>"

text \<open>\<open>wait\<close> gives the mutex up and goes to sleep in one step.\<close>

definition cond_wait :: "nat \<Rightarrow> mutex \<times> condition \<Rightarrow> (mutex \<times> condition) result" where
  "cond_wait t mc =
     bind_result (mutex_unlock t (fst mc)) (\<lambda>m. Inr (m, (snd mc)\<lparr>c_sleeping := c_sleeping (snd mc) @ [t]\<rparr>))"

definition wake_thread :: "nat \<Rightarrow> condition \<Rightarrow> condition" where
  "wake_thread t c = c\<lparr>c_sleeping := remove1 t (c_sleeping c), c_woken := c_woken c @ [t]\<rparr>"

text \<open>\<open>notify\<close> wakes one sleeper, which POSIX leaves open (\<open>t\<close>), and nobody when nobody sleeps.\<close>

definition cond_notify :: "nat \<Rightarrow> condition \<Rightarrow> condition" where
  "cond_notify t c = (if t \<in> set (c_sleeping c) then wake_thread t c else c)"

definition cond_notify_all :: "condition \<Rightarrow> condition" where
  "cond_notify_all c = c\<lparr>c_sleeping := [], c_woken := c_woken c @ c_sleeping c\<rparr>"

text \<open>A woken thread that has got the mutex back comes out of \<open>wait\<close>.\<close>

definition cond_return :: "nat \<Rightarrow> mutex \<times> condition \<Rightarrow> (mutex \<times> condition) outcome" where
  "cond_return t mc =
     (if t \<notin> set (c_woken (snd mc)) then None
      else bind_outcome (mutex_lock t (fst mc)) (\<lambda>m.
        Some (Inr (m, (snd mc)\<lparr>c_woken := remove1 t (c_woken (snd mc))\<rparr>))))"

text \<open>
  \<open>wait_for_seconds\<close>: the deadline it computes from the clock, and its answer from what
  \<open>pthread_cond_timedwait\<close> returns; that is \<open>ETIMEDOUT\<close> when the deadline has passed and no wake-up
  came before.
\<close>

definition ETIMEDOUT :: int where
  "ETIMEDOUT = 110"

definition deadline :: "int \<times> int \<Rightarrow> int \<Rightarrow> int \<times> int" where
  "deadline now seconds = (fst now + seconds, snd now)"

definition timed_wait :: "int \<times> int \<Rightarrow> int \<times> int \<Rightarrow> bool \<Rightarrow> int option" where
  "timed_wait abs_time now woken =
     (if woken then Some 0
      else if fst abs_time < fst now \<or> (fst abs_time = fst now \<and> snd abs_time \<le> snd now) then Some ETIMEDOUT
      else None)"

definition wait_for_seconds :: "int \<times> int \<Rightarrow> int \<Rightarrow> int \<times> int \<Rightarrow> bool \<Rightarrow> bool option" where
  "wait_for_seconds start seconds now woken =
     map_option (\<lambda>rc. ETIMEDOUT = rc) (timed_wait (deadline start seconds) now woken)"

lemma wait_for_seconds_timeout:
  "wait_for_seconds (s, ns) k (s', ns) woken =
     (if woken then Some False else if k \<le> s' - s then Some True else None)"
  by (auto simp: wait_for_seconds_def timed_wait_def deadline_def ETIMEDOUT_def)

lemma cond_wait_Inr:
  "cond_wait t (m, c) = Inr (m', c') \<longleftrightarrow>
     \<not> m_destroyed m \<and> m_owner m = Some t \<and> m' = m\<lparr>m_owner := None\<rparr>
     \<and> c' = c\<lparr>c_sleeping := c_sleeping c @ [t]\<rparr>"
  by (auto simp: cond_wait_def bind_result_Inr mutex_unlock_Inr)

lemma cond_return_Inr:
  "cond_return t (m, c) = Some (Inr (m', c')) \<longleftrightarrow>
     t \<in> set (c_woken c) \<and> \<not> m_destroyed m \<and> m_owner m = None \<and> m' = m\<lparr>m_owner := Some t\<rparr>
     \<and> c' = c\<lparr>c_woken := remove1 t (c_woken c)\<rparr>"
  by (auto simp: cond_return_def bind_outcome_Some_Inr mutex_lock_Inr)

end
