(* ===== verification/Latch_Code.thy ===== *)
theory Latch_Code
  imports Mutex Thread_Sync
begin

text \<open>
  \<open>CountDownLatch.cpp\<close> statement by statement over \<open>MutexLock\<close> and \<open>Condition\<close>: any number of threads
  call \<open>wait\<close> and \<open>count_down\<close>, and a step is one statement of one thread. The latch of \<open>Thread_Sync\<close>,
  where a whole block under the mutex is one step, is what this system implements.
\<close>

section \<open>The code\<close>

text \<open>
  Where a thread is: outside, before the guard of \<open>wait\<close>, at its test (the flag says that it has slept
  before), before and in the wait on the condition, before the unlocking; and the same for \<open>count_down\<close>.
\<close>

datatype latch_pc =
    Outside
  | Wait_Lock
  | Wait_Test bool
  | Wait_Sleep bool
  | Sleeping
  | Wait_Unlock
  | Down_Lock
  | Down_Decrement
  | Down_Test
  | Down_Notify
  | Down_Unlock

text \<open>\<open>lc_woken\<close> and \<open>lc_passed\<close> are histories: who has slept and not yet tested again, who has passed.\<close>

record latch_code =
  lc_mutex :: mutex
  lc_cond :: condition
  lc_count :: int
  lc_pc :: "nat \<Rightarrow> latch_pc"
  lc_woken :: "nat list"
  lc_passed :: "nat list"

definition new_latch_code :: "int \<Rightarrow> latch_code" where
  "new_latch_code n =
     \<lparr>lc_mutex = new_mutex, lc_cond = new_condition, lc_count = n, lc_pc = (\<lambda>_. Outside), lc_woken = [], lc_passed = []\<rparr>"

definition goes_to :: "nat \<Rightarrow> latch_pc \<Rightarrow> latch_code \<Rightarrow> latch_code" where
  "goes_to t pc s = s\<lparr>lc_pc := (lc_pc s)(t := pc)\<rparr>"

inductive latch_code_step :: "latch_code \<Rightarrow> latch_code \<Rightarrow> bool" where
  call_wait: "lc_pc s t = Outside \<Longrightarrow> latch_code_step s (goes_to t Wait_Lock s)"
| wait_lock: "lc_pc s t = Wait_Lock \<Longrightarrow> mutex_lock t (lc_mutex s) = Some (Inr m) \<Longrightarrow>
    latch_code_step s (goes_to t (Wait_Test False) (s\<lparr>lc_mutex := m\<rparr>))"
| wait_more: "lc_pc s t = Wait_Test again \<Longrightarrow> lc_count s > 0 \<Longrightarrow> latch_code_step s (goes_to t (Wait_Sleep again) s)"
| wait_enough: "lc_pc s t = Wait_Test again \<Longrightarrow> \<not> lc_count s > 0 \<Longrightarrow>
    latch_code_step s (goes_to t Wait_Unlock (s\<lparr>lc_passed := lc_passed s @ [t], lc_woken := remove1 t (lc_woken s)\<rparr>))"
| sleep: "lc_pc s t = Wait_Sleep again \<Longrightarrow> cond_wait t (lc_mutex s, lc_cond s) = Inr (m, c) \<Longrightarrow>
    latch_code_step s (goes_to t Sleeping (s\<lparr>lc_mutex := m, lc_cond := c, lc_woken := remove1 t (lc_woken s)\<rparr>))"
| wake_up: "t \<in> set (c_sleeping (lc_cond s)) \<Longrightarrow>
    latch_code_step s (s\<lparr>lc_cond := wake_thread t (lc_cond s), lc_woken := lc_woken s @ [t]\<rparr>)"
| come_back: "lc_pc s t = Sleeping \<Longrightarrow> cond_return t (lc_mutex s, lc_cond s) = Some (Inr (m, c)) \<Longrightarrow>
    latch_code_step s (goes_to t (Wait_Test True) (s\<lparr>lc_mutex := m, lc_cond := c\<rparr>))"
| wait_unlock: "lc_pc s t = Wait_Unlock \<Longrightarrow> mutex_unlock t (lc_mutex s) = Inr m \<Longrightarrow>
    latch_code_step s (goes_to t Outside (s\<lparr>lc_mutex := m\<rparr>))"
| call_down: "lc_pc s t = Outside \<Longrightarrow> latch_code_step s (goes_to t Down_Lock s)"
| down_lock: "lc_pc s t = Down_Lock \<Longrightarrow> mutex_lock t (lc_mutex s) = Some (Inr m) \<Longrightarrow>
    latch_code_step s (goes_to t Down_Decrement (s\<lparr>lc_mutex := m\<rparr>))"
| down_decrement: "lc_pc s t = Down_Decrement \<Longrightarrow>
    latch_code_step s (goes_to t Down_Test (s\<lparr>lc_count := lc_count s - 1\<rparr>))"
| down_last: "lc_pc s t = Down_Test \<Longrightarrow> lc_count s = 0 \<Longrightarrow> latch_code_step s (goes_to t Down_Notify s)"
| down_more: "lc_pc s t = Down_Test \<Longrightarrow> lc_count s \<noteq> 0 \<Longrightarrow> latch_code_step s (goes_to t Down_Unlock s)"
| down_notify: "lc_pc s t = Down_Notify \<Longrightarrow>
    latch_code_step s (goes_to t Down_Unlock (s\<lparr>lc_cond := cond_notify_all (lc_cond s),
      lc_woken := lc_woken s @ c_sleeping (lc_cond s)\<rparr>))"
| down_unlock: "lc_pc s t = Down_Unlock \<Longrightarrow> mutex_unlock t (lc_mutex s) = Inr m \<Longrightarrow>
    latch_code_step s (goes_to t Outside (s\<lparr>lc_mutex := m\<rparr>))"

inductive_cases latch_code_stepE: "latch_code_step s t"

section \<open>Exclusion\<close>

fun in_section :: "latch_pc \<Rightarrow> bool" where
  "in_section (Wait_Test again) = True"
| "in_section (Wait_Sleep again) = True"
| "in_section Wait_Unlock = True"
| "in_section Down_Decrement = True"
| "in_section Down_Test = True"
| "in_section Down_Notify = True"
| "in_section Down_Unlock = True"
| "in_section _ = False"

text \<open>
  The mutex is held by exactly the thread that is inside a block, the sleepers are asleep, what a
  thread has tested still holds, and a thread that has slept is in the history until it tests again.
\<close>

definition latch_code_inv :: "latch_code \<Rightarrow> bool" where
  "latch_code_inv s \<longleftrightarrow>
     \<not> m_destroyed (lc_mutex s)
     \<and> (\<forall>t. in_section (lc_pc s t) \<longleftrightarrow> m_owner (lc_mutex s) = Some t)
     \<and> (\<forall>t. t \<in> set (c_sleeping (lc_cond s)) \<or> t \<in> set (c_woken (lc_cond s)) \<longleftrightarrow> lc_pc s t = Sleeping)
     \<and> distinct (c_sleeping (lc_cond s) @ c_woken (lc_cond s)) \<and> distinct (lc_woken s)
     \<and> (\<forall>t. t \<in> set (lc_woken s) \<longleftrightarrow> lc_pc s t \<in> {Wait_Test True, Wait_Sleep True} \<or> t \<in> set (c_woken (lc_cond s)))
     \<and> (\<forall>t again. lc_pc s t = Wait_Sleep again \<longrightarrow> lc_count s > 0)
     \<and> (\<forall>t. lc_pc s t = Down_Notify \<longrightarrow> lc_count s = 0)"

lemma new_latch_code_inv: "latch_code_inv (new_latch_code n)"
  by (simp add: latch_code_inv_def new_latch_code_def new_mutex_def new_condition_def)

lemma only_owner:
  "latch_code_inv s \<Longrightarrow> in_section (lc_pc s t) \<Longrightarrow> in_section (lc_pc s u) \<Longrightarrow> t = u"
  by (auto simp: latch_code_inv_def)

lemma goes_to_simps [simp]:
  "lc_mutex (goes_to t pc s) = lc_mutex s" "lc_cond (goes_to t pc s) = lc_cond s"
  "lc_count (goes_to t pc s) = lc_count s" "lc_woken (goes_to t pc s) = lc_woken s"
  "lc_passed (goes_to t pc s) = lc_passed s" "lc_pc (goes_to t pc s) = (lc_pc s)(t := pc)"
  by (simp_all add: goes_to_def)

lemmas latch_ops = mutex_lock_Inr mutex_unlock_Inr cond_wait_Inr cond_return_Inr wake_thread_def cond_notify_all_def

text \<open>The invariant at one thread.\<close>

lemma latch_code_at:
  assumes "latch_code_inv s"
  shows "in_section (lc_pc s t) \<longleftrightarrow> m_owner (lc_mutex s) = Some t"
    and "t \<in> set (c_sleeping (lc_cond s)) \<or> t \<in> set (c_woken (lc_cond s)) \<longleftrightarrow> lc_pc s t = Sleeping"
    and "t \<in> set (lc_woken s) \<longleftrightarrow> lc_pc s t \<in> {Wait_Test True, Wait_Sleep True} \<or> t \<in> set (c_woken (lc_cond s))"
  using assms by (auto simp: latch_code_inv_def)

lemma latch_notify_inv:
  assumes inv: "latch_code_inv s" and pc: "lc_pc s t = Down_Notify"
  shows "latch_code_inv (goes_to t Down_Unlock (s\<lparr>lc_cond := cond_notify_all (lc_cond s),
      lc_woken := lc_woken s @ c_sleeping (lc_cond s)\<rparr>))"
proof -
  let ?new = "set (c_sleeping (lc_cond s))"
  have disj: "?new \<inter> set (c_woken (lc_cond s)) = {}" using inv by (simp add: latch_code_inv_def)
  have "lc_pc s u = Sleeping \<and> u \<notin> set (lc_woken s)" if "u \<in> ?new" for u
    using that disj latch_code_at(2,3) [OF inv, of u] by auto
  then have "distinct (lc_woken s @ c_sleeping (lc_cond s))" "t \<notin> ?new"
    using inv pc by (auto simp: latch_code_inv_def)
  then have dist: "distinct (c_sleeping (lc_cond s) @ c_woken (lc_cond s))" "distinct (lc_woken s @ c_sleeping (lc_cond s))"
    using inv by (auto simp: latch_code_inv_def)
  have none: "lc_pc s u \<noteq> Wait_Sleep again" "u \<noteq> t \<longrightarrow> lc_pc s u \<noteq> Down_Notify" for u again
    using only_owner [OF inv, of t u] pc by auto
  show ?thesis unfolding latch_code_inv_def
  proof (intro conjI allI, goal_cases)
    case 1 then show ?case using inv by (simp add: latch_code_inv_def)
  next
    case (2 u) then show ?case using latch_code_at(1) [OF inv, of u] pc by auto
  next
    case (3 u) then show ?case using latch_code_at(2) [OF inv, of u] pc by (auto simp: latch_ops)
  next
    case 4 then show ?case using dist(1) by (auto simp: latch_ops)
  next
    case 5 then show ?case using dist(2) by simp
  next
    case (6 u) then show ?case using latch_code_at(3) [OF inv, of u] pc by (auto simp: latch_ops)
  next
    case (7 u again) then show ?case using none(1) by (auto simp: latch_ops)
  next
    case (8 u) then show ?case using none(2) pc by (auto simp: latch_ops)
  qed
qed

lemma latch_at_pc:
  assumes "lc_pc s t = pc" and "latch_code_inv s"
  shows "(in_section pc \<longleftrightarrow> m_owner (lc_mutex s) = Some t)
    \<and> (t \<in> set (c_sleeping (lc_cond s)) \<or> t \<in> set (c_woken (lc_cond s)) \<longleftrightarrow> pc = Sleeping)
    \<and> (t \<in> set (lc_woken s) \<longleftrightarrow> pc \<in> {Wait_Test True, Wait_Sleep True} \<or> t \<in> set (c_woken (lc_cond s)))"
  using latch_code_at [OF assms(2), of t] assms(1) by simp

lemma latch_code_step_inv: "latch_code_inv s \<Longrightarrow> latch_code_step s s' \<Longrightarrow> latch_code_inv s'"
proof (erule latch_code_stepE, goal_cases)
  case (5 t again m c)
  have "t \<notin> set (c_sleeping (lc_cond s))" "t \<notin> set (c_woken (lc_cond s))"
    using latch_code_at(2) [OF 5(1), of t] 5(3) by auto
  with 5 show ?case by (auto simp: latch_code_inv_def latch_ops)
next
  case (6 t)
  then show ?case using latch_code_at [OF 6(1), of t] by (auto simp: latch_code_inv_def latch_ops)
next
  case (11 t)
  then show ?case using latch_code_at [OF 11(1), of t] by (auto simp: latch_code_inv_def latch_ops)
next
  case (14 t)
  then show ?case using latch_notify_inv by simp
qed (frule (1) latch_at_pc, auto simp: latch_code_inv_def latch_ops; fail)+

text \<open>What the coarse latch sees: a decrement counts once its block has tested and notified.\<close>

definition latch_of :: "latch_code \<Rightarrow> latch" where
  "latch_of s =
     \<lparr>latch_count = lc_count s + (case m_owner (lc_mutex s) of None \<Rightarrow> 0
          | Some t \<Rightarrow> if lc_pc s t \<in> {Down_Test, Down_Notify} then 1 else 0),
      latch_blocked = c_sleeping (lc_cond s), latch_woken = lc_woken s, latch_passed = lc_passed s\<rparr>"

section \<open>The code implements the latch\<close>

lemma latch_of_eqI:
  "latch_count l = latch_count (latch_of s) \<Longrightarrow> latch_blocked l = latch_blocked (latch_of s) \<Longrightarrow>
   latch_woken l = latch_woken (latch_of s) \<Longrightarrow> latch_passed l = latch_passed (latch_of s) \<Longrightarrow> l = latch_of s"
  by (cases l) (simp add: latch_of_def)

text \<open>A test under the mutex, whether it lets the thread pass or sends it to sleep, is one coarse step.\<close>

lemma tested_step:
  assumes "latch_code_inv s" and "lc_pc s t \<in> {Wait_Test again, Wait_Sleep again}"
  shows "latch_step (latch_of s) (latch_test t ((latch_of s)\<lparr>latch_woken := remove1 t (lc_woken s)\<rparr>))"
proof (cases again)
  case True
  then have "t \<in> set (latch_woken (latch_of s))"
    using latch_code_at(3) [OF assms(1), of t] assms(2) by (auto simp: latch_of_def)
  then show ?thesis using recheck [of t "latch_of s"] by (simp add: latch_of_def)
next
  case False
  then have "t \<notin> set (lc_woken s)"
    using latch_code_at(2,3) [OF assms(1), of t] assms(2) by auto
  then have "(latch_of s)\<lparr>latch_woken := remove1 t (lc_woken s)\<rparr> = latch_of s"
    by (simp add: remove1_idem latch_of_def)
  then show ?thesis using arrive [of "latch_of s" t] by simp
qed

lemma latch_of_goes:
  assumes "latch_code_inv s" and "pc \<notin> {Down_Test, Down_Notify}" and "lc_pc s t \<notin> {Down_Test, Down_Notify}"
  shows "latch_of (goes_to t pc s) = latch_of s"
  using assms by (auto simp: latch_of_def split: option.splits)

text \<open>Every step of the code is a step of the coarse latch or is not seen there.\<close>

lemma latch_code_seen:
  assumes inv: "latch_code_inv s" and "latch_code_step s s'"
  shows "latch_of s' = latch_of s \<or> latch_step (latch_of s) (latch_of s')"
  using assms(2)
proof cases
  case (wait_enough t again)
  have "latch_of s' = latch_test t ((latch_of s)\<lparr>latch_woken := remove1 t (lc_woken s)\<rparr>)"
    using wait_enough latch_code_at(1) [OF inv, of t] by (simp add: latch_of_def latch_test_def)
  then show ?thesis using tested_step [OF inv, of t again] wait_enough(2) by simp
next
  case (sleep t again m c)
  have "latch_of s' = latch_test t ((latch_of s)\<lparr>latch_woken := remove1 t (lc_woken s)\<rparr>)"
    using sleep latch_code_at(1) [OF inv, of t] inv
    by (auto simp: latch_of_def latch_test_def latch_ops latch_code_inv_def)
  then show ?thesis using tested_step [OF inv, of t again] sleep(2) by simp
next
  case (wake_up t)
  have "latch_of s' = (latch_of s)\<lparr>latch_blocked := remove1 t (latch_blocked (latch_of s)),
      latch_woken := latch_woken (latch_of s) @ [t]\<rparr>"
    using wake_up by (simp add: latch_of_def latch_ops split: option.split)
  then show ?thesis using spurious [of t "latch_of s"] wake_up by (simp add: latch_of_def)
next
  case (down_more t)
  have "latch_of s' = count_down (latch_of s)"
    using down_more latch_code_at(1) [OF inv, of t] by (simp add: latch_of_def count_down_def)
  then show ?thesis using down by metis
next
  case (down_notify t)
  have "lc_count s = 0" using inv down_notify(2) by (auto simp: latch_code_inv_def)
  then have "latch_of s' = count_down (latch_of s)"
    using down_notify latch_code_at(1) [OF inv, of t]
    by (simp add: latch_of_def count_down_def notify_all_def latch_ops)
  then show ?thesis using down by metis
qed (frule latch_at_pc [OF _ inv], auto simp: latch_of_def latch_ops split: option.splits; fail)+

lemma latch_code_follows:
  "latch_code_inv s \<Longrightarrow> latch_code_step s s' \<Longrightarrow> run latch_step (latch_of s) (latch_of s')"
  using latch_code_seen run_single by (fastforce intro: run_refl)

interpretation latch_sim: simulation "\<lambda>s. \<exists>n. s = new_latch_code n" latch_code_step latch_code_inv latch_step latch_of
proof unfold_locales
  show "\<exists>n. s = new_latch_code n \<Longrightarrow> latch_code_inv s" for s using new_latch_code_inv by blast
  show "latch_code_inv s \<Longrightarrow> latch_code_step s t \<Longrightarrow> latch_code_inv t" for s t by (rule latch_code_step_inv)
  show "latch_code_inv s \<Longrightarrow> latch_code_step s t \<Longrightarrow> run latch_step (latch_of s) (latch_of t)" for s t
    by (rule latch_code_follows)
qed

lemma latch_of_new: "latch_of (new_latch_code n) = new_latch n"
  by (simp add: latch_of_def new_latch_code_def new_latch_def new_mutex_def new_condition_def)

text \<open>
  C8. The statements of \<open>wait\<close> and \<open>count_down\<close> implement the latch: in every interleaving of the
  statements of any number of threads, with wake-ups for no reason, what is done under the mutex looks
  like one step of the latch whose blocks are atomic, and at most one thread is inside a block. So
  nobody comes out of \<open>wait\<close> before the count is used up.
\<close>

theorem latch_code_refines:
  assumes "run latch_code_step (new_latch_code n) s"
  shows "run latch_step (new_latch n) (latch_of s)
    \<and> (in_section (lc_pc s t) \<longrightarrow> in_section (lc_pc s u) \<longrightarrow> t = u)
    \<and> (lc_passed s \<noteq> [] \<longrightarrow> latch_count (latch_of s) \<le> 0)"
proof -
  note r = latch_sim.reach_follows [OF _ assms] latch_sim.reach_inv [OF _ assms]
  have f: "run latch_step (new_latch n) (latch_of s)" using r(1) by (auto simp: latch_of_new)
  have "latch_inv (latch_of s)" by (rule latch_sys.reach_inv [OF _ f]) blast
  moreover have "latch_passed (latch_of s) = lc_passed s" by (simp add: latch_of_def)
  ultimately show ?thesis using f r(2) only_owner [of s t u] by (auto simp: latch_inv_def)
qed

theorem latch_code_refines_witness:
  "\<exists>s. run latch_code_step (new_latch_code 0) s \<and> lc_passed s = [4] \<and> in_section (lc_pc s 4)
    \<and> run latch_step (new_latch 0) (latch_of s) \<and> latch_count (latch_of s) \<le> 0"
proof -
  let ?s0 = "new_latch_code 0 :: latch_code"
  let ?s1 = "goes_to 4 Wait_Lock ?s0"
  let ?s2 = "goes_to 4 (Wait_Test False) (?s1\<lparr>lc_mutex := (lc_mutex ?s1)\<lparr>m_owner := Some 4\<rparr>\<rparr>)"
  let ?s3 = "goes_to 4 Wait_Unlock (?s2\<lparr>lc_passed := lc_passed ?s2 @ [4], lc_woken := remove1 4 (lc_woken ?s2)\<rparr>)"
  have "latch_code_step ?s0 ?s1" by (rule call_wait) (simp add: new_latch_code_def)
  moreover have "latch_code_step ?s1 ?s2"
    by (rule wait_lock) (simp_all add: new_latch_code_def new_mutex_def mutex_lock_def goes_to_def)
  moreover have "latch_code_step ?s2 ?s3"
    by (rule wait_enough [where again = False]) (simp_all add: new_latch_code_def goes_to_def)
  ultimately have r: "run latch_code_step ?s0 ?s3" by (meson run_refl run_step)
  have "lc_passed ?s3 = [4]" "in_section (lc_pc ?s3 4)" by (simp_all add: new_latch_code_def goes_to_def)
  with r obtain s where s: "run latch_code_step (new_latch_code 0) s" "lc_passed s = [4]" "in_section (lc_pc s 4)"
    by (metis (no_types, lifting))
  from latch_code_refines [OF s(1), of 4 4] s show ?thesis by (intro exI [of _ s]) simp
qed

end
