(* ===== verification/Conn_Frame.thy ===== *)
theory Conn_Frame
  imports Http_Invariants
begin

text \<open>
  What the handlers of one connection leave alone: the slots of all other descriptors in the tables of
  the poller, and the timers that belong to other connections. The loop runs the handlers of many
  connections over one poller, and what is known about one of them survives the handlers of the others
  by these lemmas.
\<close>

section \<open>The frame\<close>

definition tables_frame :: "nat \<Rightarrow> epoll \<Rightarrow> epoll \<Rightarrow> bool" where
  "tables_frame n ep ep' \<longleftrightarrow>
     (\<forall>d. d \<noteq> n \<longrightarrow> fd_to_channel ep' d = fd_to_channel ep d \<and> fd_to_http ep' d = fd_to_http ep d)
     \<and> (fd_to_http ep' n = None \<or> fd_to_http ep' n = fd_to_http ep n)
     \<and> (fd_to_channel ep' n = None \<or> fd_to_channel ep' n = fd_to_channel ep n \<and> fd_to_http ep' n = fd_to_http ep n)"

definition owner_of :: "timer_queue \<Rightarrow> nat \<Rightarrow> nat option" where
  "owner_of tq t = http_data_ptr (timers tq t)"

text \<open>
  A timer that was queued stays queued and keeps its owner, unless its owner is \<open>h\<close> and gives it up;
  a timer that is new has a new number and is owned by \<open>h\<close> or by nobody.
\<close>

definition timers_frame :: "nat \<Rightarrow> timer_queue \<Rightarrow> timer_queue \<Rightarrow> bool" where
  "timers_frame h tq tq' \<longleftrightarrow>
     next_timer tq \<le> next_timer tq'
     \<and> set (timer_pqueue tq) \<subseteq> set (timer_pqueue tq')
     \<and> (\<forall>t \<in> set (timer_pqueue tq). owner_of tq' t = owner_of tq t \<or> owner_of tq t = Some h \<and> owner_of tq' t = None)
     \<and> (\<forall>t \<in> set (timer_pqueue tq') - set (timer_pqueue tq). next_timer tq \<le> t \<and> owner_of tq' t \<in> {Some h, None})"

definition handlers_of :: "channel_state \<Rightarrow> callback option list" where
  "handlers_of ch = [read_handler ch, write_handler ch, connect_handler ch, error_handler ch]"

lemma handlers_of_updates [simp]:
  "handlers_of (ch\<lparr>ch_events := ev\<rparr>) = handlers_of ch" "handlers_of (ch\<lparr>ch_last_events := ev\<rparr>) = handlers_of ch"
  "handlers_of (ch\<lparr>ch_revents := ev\<rparr>) = handlers_of ch" "handlers_of (set_events ev ch) = handlers_of ch"
  by (simp_all add: handlers_of_def set_events_def)

definition same_object :: "connection \<Rightarrow> connection \<Rightarrow> bool" where
  "same_object c c' \<longleftrightarrow>
     self c' = self c \<and> ch_fd (chan c') = ch_fd (chan c) \<and> holder (chan c') = holder (chan c)
     \<and> handlers_of (chan c') = handlers_of (chan c)"

definition conn_frame :: "connection \<Rightarrow> connection \<Rightarrow> bool" where
  "conn_frame c c' \<longleftrightarrow>
     same_object c c' \<and> tables_frame (ch_fd (chan c)) (poller c) (poller c')
     \<and> timers_frame (self c) (ep_timers (poller c)) (ep_timers (poller c'))"

lemma tables_frame_refl [simp]: "tables_frame n ep ep"
  by (simp add: tables_frame_def)

lemma tables_frame_trans: "tables_frame n a b \<Longrightarrow> tables_frame n b c \<Longrightarrow> tables_frame n a c"
  by (auto simp: tables_frame_def)

lemma tables_frame_http:
  "tables_frame n ep ep' \<Longrightarrow> fd_to_http ep' d = Some h \<Longrightarrow> fd_to_http ep d = Some h"
  by (cases "d = n") (auto simp: tables_frame_def)

lemma tables_frame_channel:
  "tables_frame n ep ep' \<Longrightarrow> fd_to_channel ep' d = Some k \<Longrightarrow>
   fd_to_channel ep d = Some k \<and> fd_to_http ep' d = fd_to_http ep d"
  by (cases "d = n") (auto simp: tables_frame_def)

lemma timers_frame_refl [simp]: "timers_frame h tq tq"
  by (simp add: timers_frame_def)

lemma timers_frame_old:
  "timers_frame h tq tq' \<Longrightarrow> t \<in> set (timer_pqueue tq) \<Longrightarrow>
   t \<in> set (timer_pqueue tq') \<and> (owner_of tq' t = owner_of tq t \<or> owner_of tq t = Some h \<and> owner_of tq' t = None)"
  by (auto simp: timers_frame_def)

lemma timers_frame_new:
  "timers_frame h tq tq' \<Longrightarrow> t \<in> set (timer_pqueue tq') \<Longrightarrow> t \<notin> set (timer_pqueue tq) \<Longrightarrow>
   next_timer tq \<le> t \<and> owner_of tq' t \<in> {Some h, None}"
  by (auto simp: timers_frame_def)

lemma timers_frame_trans:
  assumes ab: "timers_frame h a b" and bc: "timers_frame h b c"
  shows "timers_frame h a c"
proof -
  have new: "next_timer a \<le> t \<and> owner_of c t \<in> {Some h, None}"
    if t: "t \<in> set (timer_pqueue c)" "t \<notin> set (timer_pqueue a)" for t
  proof -
    have "next_timer a \<le> next_timer b" using ab by (simp add: timers_frame_def)
    then show ?thesis
      using timers_frame_new [OF bc t(1)] timers_frame_new [OF ab _ t(2)] timers_frame_old [OF bc, of t]
      by (cases "t \<in> set (timer_pqueue b)") auto
  qed
  have old: "owner_of c t = owner_of a t \<or> owner_of a t = Some h \<and> owner_of c t = None"
    if "t \<in> set (timer_pqueue a)" for t
    using timers_frame_old [OF ab that] timers_frame_old [OF bc, of t] by auto
  show ?thesis using ab bc new old by (auto simp: timers_frame_def)
qed

lemma same_object_refl [simp]: "same_object c c"
  by (simp add: same_object_def)

lemma conn_frame_refl [simp]: "conn_frame c c"
  by (simp add: conn_frame_def)

lemma conn_frame_trans: "conn_frame a b \<Longrightarrow> conn_frame b c \<Longrightarrow> conn_frame a c"
  by (auto simp: conn_frame_def same_object_def intro: tables_frame_trans timers_frame_trans)

section \<open>The link between a connection and its timer\<close>

text \<open>
  The timer a connection is linked to has been allocated, and while it is queued nobody else owns it,
  so that clearing it takes nothing from another connection.
\<close>

definition linked :: "connection \<Rightarrow> bool" where
  "linked c \<longleftrightarrow>
     tq_ok (ep_timers (poller c)) \<and> holder (chan c) = Some (self c)
     \<and> (\<forall>t. timer (http c) = Some t \<longrightarrow> t < next_timer (ep_timers (poller c))
          \<and> (t \<in> set (timer_pqueue (ep_timers (poller c))) \<longrightarrow> owner_of (ep_timers (poller c)) t \<in> {Some (self c), None}))"

definition keeps_frame :: "connection \<Rightarrow> connection \<Rightarrow> bool" where
  "keeps_frame c c' \<longleftrightarrow> (linked c \<longrightarrow> linked c' \<and> conn_frame c c')"

lemma keeps_frame_refl [simp]: "keeps_frame c c"
  by (simp add: keeps_frame_def)

lemma keeps_frame_trans: "keeps_frame a b \<Longrightarrow> keeps_frame b c \<Longrightarrow> keeps_frame a c"
  by (auto simp: keeps_frame_def intro: conn_frame_trans)

lemma keeps_frame_quiet:
  "same_object c c' \<Longrightarrow> poller c' = poller c \<Longrightarrow> timer (http c') = timer (http c) \<Longrightarrow> keeps_frame c c'"
  by (simp add: keeps_frame_def conn_frame_def linked_def same_object_def)

lemma with_events_frame [simp]: "keeps_frame c (with_events ev d) = keeps_frame c d"
  by (simp add: keeps_frame_def conn_frame_def linked_def same_object_def with_events_def set_events_def)

lemma seperate_timer_frame: "keeps_frame c (seperate_timer c)"
proof (cases "timer_locked c")
  case None
  then show ?thesis by (simp add: seperate_timer_def)
next
  case (Some t)
  let ?tq = "ep_timers (poller c)"
  have t: "timer (http c) = Some t" "t \<in> set (timer_pqueue ?tq)"
    using Some by (auto simp: timer_locked_def split: option.splits if_splits)
  have ok: "tq_ok (?tq\<lparr>timers := (timers ?tq)(t := clear_request (timers ?tq t))\<rparr>)" if "tq_ok ?tq"
    using that pq_ordered_cong [of "timer_pqueue ?tq" "timer_key (timers ?tq)"
        "timer_key ((timers ?tq)(t := clear_request (timers ?tq t)))"]
    by (auto simp: tq_ok_def timer_key_def get_expired_time_def clear_request_def set_deleted_def)
  show ?thesis using Some t ok
    by (auto simp: seperate_timer_def keeps_frame_def linked_def conn_frame_def same_object_def tables_frame_def
        timers_frame_def owner_of_def clear_request_def set_deleted_def Let_def)
qed

lemma handle_close_frame:
  assumes "handle_close os c = Some (Inr c')"
  shows "keeps_frame c c'"
  using assms
  by (auto simp: handle_close_def remove_from_poller_def delete_fd_in_epoll_def epoll_ctl_def bind_result_Inr
      keeps_frame_def linked_def conn_frame_def same_object_def tables_frame_def Let_def split: if_splits)

text \<open>A timer that is queued anew and linked.\<close>

lemma add_timer_frame:
  assumes "tq_ok tq" and "add_timer now h timeout tq = (t, tq')"
  shows "tq_ok tq' \<and> timers_frame h tq tq' \<and> t < next_timer tq' \<and> owner_of tq' t = Some h"
proof -
  note ok = add_timer_ok [OF assms]
  have num: "t = next_timer tq" "next_timer tq' = Suc (next_timer tq)"
    using assms(2) by (auto simp: add_timer_def Let_def)
  have "set (timer_pqueue tq') = insert t (set (timer_pqueue tq))"
    using ok by (metis set_mset_add_mset_insert set_mset_mset)
  then show ?thesis using ok num by (auto simp: timers_frame_def owner_of_def new_timer_def)
qed

lemma modify_tables:
  assumes "modify_fd_in_epoll ctl alive now ch timeout ep = Inr (link, ch', ep')"
  shows "tables_frame (ch_fd ch) ep ep' \<and> ch_fd ch' = ch_fd ch \<and> handlers_of ch' = handlers_of ch"
  using assms
  by (auto simp: modify_fd_in_epoll_def equal_and_update_last_events_def epoll_ctl_def epoll_add_timer_def
      tables_frame_def Let_def split: if_splits prod.splits option.splits)

lemma update_poller_frame:
  assumes "update_poller os timeout c = Some (Inr c')"
  shows "keeps_frame c c'"
proof -
  obtain link ch ep where m: "modify_fd_in_epoll (os_ctl os) (\<lambda>h. True) (os_now os) (chan c) timeout (poller c)
      = Inr (link, ch, ep)" and c': "c' = after_ctl (link, ch, ep) c"
    using assms by (auto simp: update_poller_def bind_result_Inr)
  note mt = modify_timers [OF m] and tab = modify_tables [OF m]
  show ?thesis
  proof (cases "timeout > 0")
    case False
    then show ?thesis using mt tab c'
      by (auto simp: keeps_frame_def linked_def conn_frame_def same_object_def after_ctl_def)
  next
    case True
    obtain t tq where add: "add_timer (os_now os) (self c) timeout (ep_timers (poller c)) = (t, tq)" by fastforce
    have "linked c' \<and> conn_frame c c'" if l: "linked c"
    proof -
      have "link = Some (self c, t)" "ep_timers ep = tq"
        using True mt add l by (auto simp: epoll_add_timer_def get_holder_def linked_def)
      then show ?thesis using add_timer_frame [OF _ add] l mt tab c'
        by (auto simp: linked_def conn_frame_def same_object_def after_ctl_def link_timer_def)
    qed
    then show ?thesis by (simp add: keeps_frame_def)
  qed
qed

lemma handle_connect_frame:
  assumes "handle_connect os c = Some (Inr c')"
  shows "keeps_frame c c'"
proof -
  have sep: "keeps_frame c d" if "keeps_frame (seperate_timer c) d" for d
    using keeps_frame_trans [OF seperate_timer_frame that] .
  have upd: "keeps_frame d c'" if "update_poller os t (with_events ev d) = Some (Inr c')" for t ev d
    using keeps_frame_trans [OF _ update_poller_frame [OF that]] by simp
  have shut: "keeps_frame d (shutdown_channel d)" for d
    by (rule keeps_frame_quiet) (simp_all add: same_object_def shutdown_channel_def)
  have closed: "keeps_frame (seperate_timer c) c'"
    if "handle_close os (shutdown_channel (seperate_timer c)) = Some (Inr d)"
      "update_poller os t (with_events ev d) = Some (Inr c')" for d t ev
    using keeps_frame_trans [OF shut keeps_frame_trans [OF handle_close_frame [OF that(1)] upd [OF that(2)]]] .
  show ?thesis
    by (rule sep)
      (use assms in \<open>auto simp: handle_connect_def Let_def bind_outcome_Some_Inr split: if_splits
        dest: handle_close_frame intro: closed upd\<close>)
qed

lemma reset_frame: "keeps_frame c (reset c)"
  unfolding reset_def
  by (rule keeps_frame_trans [OF _ seperate_timer_frame], rule keeps_frame_quiet)
    (simp_all add: same_object_def with_http_def)

lemma handle_write_frame: "handle_write c = Some (Inr c') \<Longrightarrow> keeps_frame c c'"
  by (rule keeps_frame_quiet)
    (auto simp: handle_write_def same_object_def Let_def with_events_def set_events_def with_http_def
      split: if_splits option.splits sum.splits)

lemma handle_read_frame:
  assumes "handle_read os c = Some (Inr c')"
  shows "keeps_frame c c'"
proof -
  obtain b w where b: "handle_read_body os c = Some (Inr b)" and w: "w = b \<or> handle_write b = Some (Inr w)"
      and c': "c' = (if \<not> is_error (http w) \<and> process_state (http w) = STATE_FINISH then reset w
               else if \<not> is_error (http w) \<and> connection_state (http w) \<noteq> H_DISCONNECTED
               then with_events (ch_events (chan w) OR EPOLLIN) w else w)"
    using handle_read_split [OF assms] by metis
  have "same_place c b" using handle_read_body_phase [OF b] by blast
  then have "keeps_frame c b" by (intro keeps_frame_quiet) (simp_all add: same_place_def same_object_def)
  moreover have "keeps_frame b w" using w handle_write_frame by auto
  moreover have "keeps_frame w c'" using c' reset_frame by simp
  ultimately show ?thesis using keeps_frame_trans by blast
qed

lemma http_callback_frame: "http_callback os cb c = Some (Inr c') \<Longrightarrow> keeps_frame c c'"
  by (cases cb) (auto intro: handle_read_frame handle_write_frame handle_connect_frame)

text \<open>The whole dispatch of a connection's events stays inside its frame.\<close>

lemma http_handle_events_frame:
  assumes "http_handle_events os c = Some (Inr c')"
  shows "keeps_frame c c'"
  by (rule handle_events_preserves [OF assms [unfolded http_handle_events_def]])
    (use http_callback_frame in \<open>auto intro: keeps_frame_trans keeps_frame_quiet simp: same_object_def set_events_def\<close>)

lemma http_handle_events_inv:
  assumes "http_handle_events os c = Some (Inr c')" and "conn_inv c"
  shows "conn_inv c'"
proof -
  have "conn_inv c \<longrightarrow> conn_inv c'"
    by (rule handle_events_preserves [OF assms(1) [unfolded http_handle_events_def]])
      (use conn_step_inv [OF conn_callback] in \<open>auto simp: conn_inv_def single_timer_def set_events_def\<close>)
  then show ?thesis using assms(2) by simp
qed

section \<open>Registering a connection\<close>

text \<open>\<open>new_event\<close> changes the slots of its descriptor and nothing else.\<close>

lemma new_event_frame:
  assumes "new_event os c = Some (Inr c')" and "linked c"
  shows "linked c' \<and> same_object c c' \<and> timers_frame (self c) (ep_timers (poller c)) (ep_timers (poller c'))
    \<and> (\<forall>d. d \<noteq> ch_fd (chan c) \<longrightarrow> fd_to_channel (poller c') d = fd_to_channel (poller c) d
         \<and> fd_to_http (poller c') d = fd_to_http (poller c) d)
    \<and> fd_to_http (poller c') (ch_fd (chan c)) = Some (self c)
    \<and> fd_to_channel (poller c') (ch_fd (chan c)) \<in> {None, Some (channel (http c))}
    \<and> timer (http c') = Some (next_timer (ep_timers (poller c)))
    \<and> set (timer_pqueue (ep_timers (poller c')))
      = insert (next_timer (ep_timers (poller c))) (set (timer_pqueue (ep_timers (poller c))))"
proof -
  let ?c = "with_events DEFAULT_EVENT c"
  obtain t tq where add: "add_timer (os_now os) (self c) DEFAULT_EXPIRED_TIME (ep_timers (poller c)) = (t, tq)" by fastforce
  have h: "get_holder (\<lambda>h. True) (chan ?c) = Some (self c)"
    using assms(2) by (simp add: get_holder_def linked_def with_events_def set_events_def)
  obtain link ch ep where a: "add_fd_in_epoll (os_ctl os) (\<lambda>h. True) (os_now os) (channel (http ?c)) (chan ?c)
      DEFAULT_EXPIRED_TIME (poller ?c) = Inr (link, ch, ep)" and c': "c' = after_ctl (link, ch, ep) ?c"
    using assms(1) by (auto simp: new_event_def add_to_poller_def bind_result_Inr)
  have e: "link = Some (self c, t)" "ep_timers ep = tq" "ch_fd ch = ch_fd (chan c)" "holder ch = holder (chan c)"
      "handlers_of ch = handlers_of (chan c)" "fd_to_http ep = (fd_to_http (poller c))(ch_fd (chan c) := Some (self c))"
      "\<forall>d. d \<noteq> ch_fd (chan c) \<longrightarrow> fd_to_channel ep d = fd_to_channel (poller c) d"
      "fd_to_channel ep (ch_fd (chan c)) \<in> {None, Some (channel (http c))}"
    using a add h
    by (auto simp: add_fd_in_epoll_def epoll_add_timer_def epoll_ctl_def equal_and_update_last_events_def
        DEFAULT_EXPIRED_TIME_def with_events_def set_events_def Let_def split: if_splits)
  have tq: "tq_ok (ep_timers (poller c))" using assms(2) by (simp add: linked_def)
  note f = add_timer_frame [OF tq add] and ok = add_timer_ok [OF tq add]
  have "t = next_timer (ep_timers (poller c))" using add by (auto simp: add_timer_def Let_def)
  moreover have "set (timer_pqueue tq) = insert t (set (timer_pqueue (ep_timers (poller c))))"
    using ok by (metis set_mset_add_mset_insert set_mset_mset)
  ultimately show ?thesis using f e c' assms(2)
    by (auto simp: linked_def same_object_def after_ctl_def link_timer_def with_http_def with_events_def set_events_def)
qed

section \<open>The others\<close>

text \<open>Another connection over the same poller keeps its invariant when the frame of \<open>h\<close> is kept.\<close>

lemma linked_other:
  assumes "linked c" and "tq_ok (ep_timers ep')" and "timers_frame h (ep_timers (poller c)) (ep_timers ep')" and "self c \<noteq> h"
  shows "linked (c\<lparr>poller := ep'\<rparr>)"
proof -
  let ?tq' = "ep_timers ep'"
  have "t < next_timer ?tq' \<and> (t \<in> set (timer_pqueue ?tq') \<longrightarrow> owner_of ?tq' t \<in> {Some (self c), None})"
    if "timer (http c) = Some t" for t
  proof -
    have t: "t < next_timer (ep_timers (poller c))"
        "t \<in> set (timer_pqueue (ep_timers (poller c))) \<longrightarrow> owner_of (ep_timers (poller c)) t \<in> {Some (self c), None}"
      using assms(1) that by (auto simp: linked_def)
    have old: "t \<in> set (timer_pqueue (ep_timers (poller c)))" if "t \<in> set (timer_pqueue ?tq')"
      using timers_frame_new [OF assms(3) that] t(1) by fastforce
    have "owner_of ?tq' t \<in> {Some (self c), None}" if "t \<in> set (timer_pqueue ?tq')"
      using timers_frame_old [OF assms(3) old [OF that]] t(2) old [OF that] by auto
    moreover have "t < next_timer ?tq'" using t(1) assms(3) by (auto simp: timers_frame_def)
    ultimately show ?thesis by blast
  qed
  then show ?thesis using assms(1,2) by (simp add: linked_def)
qed

lemma owners_other:
  assumes "timers_frame h tq tq'" and "k \<noteq> h" and "t \<in> set (timer_pqueue tq')" and "owner_of tq' t = Some k"
  shows "t \<in> set (timer_pqueue tq) \<and> owner_of tq t = Some k"
proof -
  have t: "t \<in> set (timer_pqueue tq)" using timers_frame_new [OF assms(1,3)] assms(2,4) by auto
  show ?thesis using timers_frame_old [OF assms(1) t] assms(2,4) t by auto
qed

end
