(* ===== verification/Loop_Turn.thy ===== *)
theory Loop_Turn
  imports Conn_Frame Event_Loop
begin

text \<open>
  A turn of \<open>EventLoop::loop\<close> with the connections of the loop: the poll, the events of the ready
  channels through \<open>Channel::handle_events\<close> to the handlers of \<open>HttpData\<close>, the functors other threads
  have queued, and the sweep of the timers, which closes connections. The state is the loop and its
  connection objects by number.
\<close>

section \<open>The state\<close>

text \<open>
  The channel of a connection has the connection's number, the wake-up channel has \<open>WAKEUP\<close>. The one
  poller is that of the loop; a handler is run on the connection with this poller in place
  (\<open>conn_of\<close>) and what it leaves is put back (\<open>put_conn\<close>).
\<close>

record loop_world =
  lw_loop :: event_loop
  lw_conns :: "nat \<Rightarrow> connection"

definition WAKEUP :: nat where
  "WAKEUP = 0"

definition the_poller :: "loop_world \<Rightarrow> epoll" where
  "the_poller w = event_loop.poller (lw_loop w)"

definition conn_of :: "nat \<Rightarrow> loop_world \<Rightarrow> connection" where
  "conn_of h w = (lw_conns w h)\<lparr>connection.poller := the_poller w\<rparr>"

definition put_conn :: "nat \<Rightarrow> connection \<Rightarrow> loop_world \<Rightarrow> loop_world" where
  "put_conn h c w =
     w\<lparr>lw_loop := (lw_loop w)\<lparr>event_loop.poller := connection.poller c\<rparr>, lw_conns := (lw_conns w)(h := c)\<rparr>"

definition on_conn ::
  "nat \<Rightarrow> (connection \<Rightarrow> connection outcome) \<Rightarrow> loop_world \<Rightarrow> loop_world outcome" where
  "on_conn h f w = bind_outcome (f (conn_of h w)) (\<lambda>c. Some (Inr (put_conn h c w)))"

text \<open>The channels as \<open>poll\<close> reads and marks them.\<close>

definition channels_of :: "loop_world \<Rightarrow> nat \<Rightarrow> channel_state" where
  "channels_of w n = (if n = WAKEUP then wakeup_channel (lw_loop w) else chan (lw_conns w n))"

definition put_channels :: "(nat \<Rightarrow> channel_state) \<Rightarrow> loop_world \<Rightarrow> loop_world" where
  "put_channels chs w =
     w\<lparr>lw_loop := (lw_loop w)\<lparr>wakeup_channel := chs WAKEUP\<rparr>,
       lw_conns := (\<lambda>h. if h = WAKEUP then lw_conns w h else (lw_conns w h)\<lparr>chan := chs h\<rparr>)\<rparr>"

section \<open>The turn\<close>

text \<open>
  The vector of ready channels keeps the channels, not the connections: the handlers are bound to the
  bare \<open>this\<close> pointer, so running one on an object that is gone is undefined.
\<close>

definition handle_channel :: "os \<Rightarrow> nat \<Rightarrow> loop_world \<Rightarrow> loop_world outcome" where
  "handle_channel os n w =
     (if n = WAKEUP
      then bind_outcome (wakeup_handle_events (os_ctl os) (\<lambda>_. True) (os_now os) (lw_loop w))
             (\<lambda>l. Some (Inr (w\<lparr>lw_loop := l\<rparr>)))
      else if \<not> owned (conn_of n w) then Some (Inl Undefined_Behaviour)
      else on_conn n (http_handle_events os) w)"

fun handle_channels :: "os \<Rightarrow> nat list \<Rightarrow> loop_world \<Rightarrow> loop_world outcome" where
  "handle_channels os [] w = Some (Inr w)"
| "handle_channels os (n # ns) w = bind_outcome (handle_channel os n w) (handle_channels os ns)"

text \<open>
  Every functor of the program is \<open>new_event\<close> bound to a connection it keeps alive; the number of the
  functor is the connection's.
\<close>

fun call_new_event :: "os \<Rightarrow> loop_functor \<Rightarrow> loop_world \<Rightarrow> loop_world outcome" where
  "call_new_event os (Functor h cs) w =
     on_conn h (new_event os) (w\<lparr>lw_loop := call_functor (loop_thread (lw_loop w)) (Functor h cs) (lw_loop w)\<rparr>)"

fun call_new_events :: "os \<Rightarrow> loop_functor list \<Rightarrow> loop_world \<Rightarrow> loop_world outcome" where
  "call_new_events os [] w = Some (Inr w)"
| "call_new_events os (f # fs) w = bind_outcome (call_new_event os f w) (call_new_events os fs)"

definition pending_new_events :: "os \<Rightarrow> loop_world \<Rightarrow> loop_world outcome" where
  "pending_new_events os w =
     (case swap_functors ((lw_loop w)\<lparr>calling_pending_functors := True\<rparr>) of (fs, l) \<Rightarrow>
        bind_outcome (call_new_events os fs (w\<lparr>lw_loop := l\<rparr>))
          (\<lambda>w. Some (Inr (w\<lparr>lw_loop := (lw_loop w)\<lparr>calling_pending_functors := False\<rparr>\<rparr>))))"

text \<open>
  The sweep: the destructor of a popped timer calls \<open>handle_close\<close> on the connection it owns. That
  call leaves the timers alone, so the calls can follow the pops.
\<close>

fun close_all :: "os \<Rightarrow> nat list \<Rightarrow> loop_world \<Rightarrow> loop_world outcome" where
  "close_all os [] w = Some (Inr w)"
| "close_all os (h # hs) w = bind_outcome (on_conn h (handle_close os) w) (close_all os hs)"

definition sweep_timers :: "os \<Rightarrow> (nat \<Rightarrow> timeval) \<Rightarrow> loop_world \<Rightarrow> loop_world outcome" where
  "sweep_timers os clock w =
     (case handle_expired clock (the_poller w) of (closed, ep) \<Rightarrow>
        close_all os closed (w\<lparr>lw_loop := (lw_loop w)\<lparr>event_loop.poller := ep\<rparr>\<rparr>))"

definition set_handling :: "bool \<Rightarrow> loop_world \<Rightarrow> loop_world" where
  "set_handling b w = w\<lparr>lw_loop := (lw_loop w)\<lparr>event_handling := b\<rparr>\<rparr>"

definition loop_turn ::
  "os \<Rightarrow> (nat \<Rightarrow> timeval) \<Rightarrow> waits \<Rightarrow> loop_world \<Rightarrow> (loop_world \<times> waits) outcome" where
  "loop_turn os clock ws w =
     bind_outcome (poll (the_poller w) ws (channels_of w)) (\<lambda>(result, chs, ws').
       bind_outcome (handle_channels os result (set_handling True (put_channels chs w))) (\<lambda>w.
         bind_outcome (pending_new_events os (set_handling False w)) (\<lambda>w.
           bind_outcome (sweep_timers os clock w) (\<lambda>w. Some (Inr (w, ws'))))))"

section \<open>The invariant\<close>

abbreviation the_timers :: "loop_world \<Rightarrow> timer_queue" where
  "the_timers w \<equiv> ep_timers (the_poller w)"

text \<open>
  A descriptor with a channel belongs to a living connection with this descriptor; every connection is
  linked to the timer that owns it, and its channel has the handlers of the constructor; the connections whose \<open>new_event\<close> is waiting are not known yet.
\<close>

definition tables_ok :: "loop_world \<Rightarrow> bool" where
  "tables_ok w \<longleftrightarrow>
     (\<forall>d n. fd_to_channel (the_poller w) d = Some n \<longrightarrow> n \<noteq> WAKEUP \<longrightarrow> fd_to_http (the_poller w) d = Some n)
     \<and> (\<forall>d h. fd_to_http (the_poller w) d = Some h \<longrightarrow> h \<noteq> WAKEUP \<and> ch_fd (chan (lw_conns w h)) = d)"

definition bound :: "channel_state \<Rightarrow> bool" where
  "bound ch \<longleftrightarrow>
     handlers_of ch = [Some Http_Handle_Read, Some Http_Handle_Connect, Some Http_Handle_Connect, None]"

definition object_ok :: "connection \<Rightarrow> bool" where
  "object_ok c \<longleftrightarrow> linked c \<and> single_timer c \<and> ch_fd (chan c) < MAX_FDS \<and> bound (chan c)"

definition objects_ok :: "loop_world \<Rightarrow> bool" where
  "objects_ok w \<longleftrightarrow>
     tq_ok (the_timers w)
     \<and> (\<forall>h. h \<noteq> WAKEUP \<longrightarrow> self (lw_conns w h) = h \<and> object_ok (conn_of h w))
     \<and> (\<forall>t \<in> set (timer_pqueue (the_timers w)). owner_of (the_timers w) t \<noteq> Some WAKEUP)"

definition unknown :: "nat \<Rightarrow> loop_world \<Rightarrow> bool" where
  "unknown h w \<longleftrightarrow> (\<forall>d. fd_to_http (the_poller w) d \<noteq> Some h)
     \<and> (\<forall>t \<in> set (timer_pqueue (the_timers w)). owner_of (the_timers w) t \<noteq> Some h)"

definition functors_ok :: "loop_functor list \<Rightarrow> loop_world \<Rightarrow> bool" where
  "functors_ok fs w \<longleftrightarrow> distinct fs
     \<and> (\<forall>f \<in> set fs. \<exists>h. f = Functor h [] \<and> h \<noteq> WAKEUP \<and> channel (http (lw_conns w h)) = h \<and> unknown h w)"

definition world_ok :: "loop_functor list \<Rightarrow> loop_world \<Rightarrow> bool" where
  "world_ok fs w \<longleftrightarrow> tables_ok w \<and> objects_ok w \<and> functors_ok fs w"

definition world_inv :: "loop_world \<Rightarrow> bool" where
  "world_inv w \<longleftrightarrow> world_ok (pending_functors (lw_loop w)) w"

subsection \<open>One connection at a time\<close>

lemma conn_of_put [simp]:
  "conn_of h (put_conn n c w) = (if h = n then c else (conn_of h w)\<lparr>connection.poller := connection.poller c\<rparr>)"
  "the_poller (put_conn n c w) = connection.poller c" "lw_conns (put_conn n c w) = (lw_conns w)(n := c)"
  "pending_functors (lw_loop (put_conn n c w)) = pending_functors (lw_loop w)"
  by (simp_all add: conn_of_def put_conn_def the_poller_def)

lemma conn_of_simps [simp]:
  "self (conn_of h w) = self (lw_conns w h)" "chan (conn_of h w) = chan (lw_conns w h)"
  "http (conn_of h w) = http (lw_conns w h)" "connection.poller (conn_of h w) = the_poller w"
  by (simp_all add: conn_of_def)

lemma single_timer_owner:
  "single_timer c \<longleftrightarrow> (\<forall>t \<in> set (timer_pqueue (ep_timers (connection.poller c))).
     owner_of (ep_timers (connection.poller c)) t = Some (self c) \<longrightarrow> timer (http c) = Some t)"
  by (simp add: single_timer_def owner_of_def)

lemma objects_ok_put:
  assumes ok: "objects_ok w" and n: "n \<noteq> WAKEUP" and c: "object_ok c" "self c = n"
    and f: "timers_frame n (the_timers w) (ep_timers (connection.poller c))"
  shows "objects_ok (put_conn n c w)"
proof -
  have tq': "tq_ok (ep_timers (connection.poller c))" using c(1) by (simp add: object_ok_def linked_def)
  have other: "object_ok (conn_of h w\<lparr>connection.poller := connection.poller c\<rparr>)" if "h \<noteq> WAKEUP" "h \<noteq> n" for h
  proof -
    have h: "self (lw_conns w h) = h" "object_ok (conn_of h w)" using ok that(1) by (auto simp: objects_ok_def)
    then have "linked (conn_of h w\<lparr>connection.poller := connection.poller c\<rparr>)"
      using that(2) f tq' by (intro linked_other) (auto simp: object_ok_def)
    moreover have "single_timer (conn_of h w\<lparr>connection.poller := connection.poller c\<rparr>)"
      using h owners_other [OF f that(2)] by (auto simp: object_ok_def single_timer_owner)
    ultimately show ?thesis using h(2) by (simp add: object_ok_def)
  qed
  have "self (lw_conns (put_conn n c w) h) = h \<and> object_ok (conn_of h (put_conn n c w))" if "h \<noteq> WAKEUP" for h
    using other [OF that] that ok c by (auto simp: objects_ok_def)
  moreover have "owner_of (ep_timers (connection.poller c)) t \<noteq> Some WAKEUP"
    if "t \<in> set (timer_pqueue (ep_timers (connection.poller c)))" for t
    using owners_other [OF f _ that, of WAKEUP] ok n by (auto simp: objects_ok_def)
  ultimately show ?thesis using tq' by (simp add: objects_ok_def)
qed

lemma put_conn_ok:
  assumes "world_ok fs w" and n: "n \<noteq> WAKEUP" "Functor n [] \<notin> set fs"
    and c: "keeps_frame (conn_of n w) c" "single_timer c"
  shows "world_ok fs (put_conn n c w)"
proof -
  have ok: "tables_ok w" "objects_ok w" "functors_ok fs w" using assms(1) by (simp_all add: world_ok_def)
  have me: "self (lw_conns w n) = n" "object_ok (conn_of n w)" using ok(2) n by (auto simp: objects_ok_def)
  then have c': "linked c" "same_object (conn_of n w) c"
      "tables_frame (ch_fd (chan (lw_conns w n))) (the_poller w) (connection.poller c)"
      "timers_frame n (the_timers w) (ep_timers (connection.poller c))"
    using c(1) by (auto simp: keeps_frame_def conn_frame_def object_ok_def)
  have "ch_fd (chan (lw_conns (put_conn n c w) h)) = ch_fd (chan (lw_conns w h))" for h
    using c'(2) by (simp add: same_object_def)
  then have tab: "tables_ok (put_conn n c w)"
    using ok(1) tables_frame_http [OF c'(3)] tables_frame_channel [OF c'(3)] by (simp add: tables_ok_def) blast
  have "object_ok c" "self c = n" using c'(1,2) c(2) me by (simp_all add: object_ok_def same_object_def bound_def)
  then have obj: "objects_ok (put_conn n c w)" using objects_ok_put [OF ok(2) n(1) _ _ c'(4)] by simp
  have "unknown h (put_conn n c w)" if "unknown h w" "h \<noteq> n" for h
    using that tables_frame_http [OF c'(3)] owners_other [OF c'(4) that(2)]
    unfolding unknown_def conn_of_put by blast
  then have "functors_ok fs (put_conn n c w)"
    using ok(3) n(2) by (fastforce simp: functors_ok_def)
  with tab obj show ?thesis by (simp add: world_ok_def)
qed

subsection \<open>The wake-up channel\<close>

text \<open>Its handlers leave the timers and the connections alone; they may lose the channel of a descriptor.\<close>

definition loop_frame :: "event_loop \<Rightarrow> event_loop \<Rightarrow> bool" where
  "loop_frame l l' \<longleftrightarrow>
     fd_to_http (event_loop.poller l') = fd_to_http (event_loop.poller l)
     \<and> ep_timers (event_loop.poller l') = ep_timers (event_loop.poller l)
     \<and> (\<forall>d k. fd_to_channel (event_loop.poller l') d = Some k \<longrightarrow> fd_to_channel (event_loop.poller l) d = Some k)
     \<and> pending_functors l' = pending_functors l"

lemma loop_frame_trans: "loop_frame a b \<Longrightarrow> loop_frame b c \<Longrightarrow> loop_frame a c"
  by (simp add: loop_frame_def)

lemma wakeup_callback_frame:
  "wakeup_callback ctl_ok alive now cb l = Some (Inr l') \<Longrightarrow> loop_frame l l'"
  by (cases cb)
    (auto simp: wakeup_read_counts_nothing wakeup_handle_connect_def loop_update_poller_def bind_result_Inr
      modify_fd_in_epoll_def equal_and_update_last_events_def epoll_ctl_def loop_frame_def Let_def
      split: if_splits)

lemma wakeup_handle_events_frame:
  assumes "wakeup_handle_events ctl_ok alive now l = Some (Inr l')"
  shows "loop_frame l l'"
  by (rule handle_events_preserves [OF assms [unfolded wakeup_handle_events_def]])
    (use wakeup_callback_frame loop_frame_trans in \<open>auto simp: loop_frame_def\<close>)

lemma conn_of_cong:
  "ep_timers (the_poller w') = ep_timers (the_poller w) \<Longrightarrow> lw_conns w' h = lw_conns w h \<Longrightarrow>
   object_ok (conn_of h w') = object_ok (conn_of h w)"
  by (simp add: object_ok_def linked_def single_timer_def)

lemma loop_frame_ok:
  assumes "world_ok fs w" and "loop_frame (lw_loop w) l"
  shows "world_ok fs (w\<lparr>lw_loop := l\<rparr>)"
proof -
  let ?w = "w\<lparr>lw_loop := l\<rparr>"
  have f: "fd_to_http (the_poller ?w) = fd_to_http (the_poller w)" "the_timers ?w = the_timers w"
      "\<And>d k. fd_to_channel (the_poller ?w) d = Some k \<Longrightarrow> fd_to_channel (the_poller w) d = Some k"
    using assms(2) by (auto simp: loop_frame_def the_poller_def)
  have "object_ok (conn_of h ?w) = object_ok (conn_of h w)" for h using f(2) by (intro conn_of_cong) simp_all
  then have "objects_ok ?w" using assms(1) f(2) by (simp add: world_ok_def objects_ok_def)
  moreover have "tables_ok ?w" using assms(1) f(1,3) by (simp add: world_ok_def tables_ok_def)
  moreover have "functors_ok fs ?w" using assms(1) f(1,2) by (simp add: world_ok_def functors_ok_def unknown_def)
  ultimately show ?thesis by (simp add: world_ok_def)
qed

subsection \<open>The parts of a turn\<close>

lemma single_timer_conn_inv: "linked c \<Longrightarrow> single_timer c \<Longrightarrow> conn_inv c"
  by (simp add: linked_def conn_inv_def)

lemma owned_known:
  assumes "world_ok fs w" and "n \<noteq> WAKEUP" and "owned (conn_of n w)"
  shows "Functor n [] \<notin> set fs"
proof
  assume "Functor n [] \<in> set fs"
  then have "unknown n w" using assms(1) by (auto simp: world_ok_def functors_ok_def)
  moreover have "self (lw_conns w n) = n" using assms(1,2) by (simp add: world_ok_def objects_ok_def)
  ultimately show False using assms(3) by (auto simp: owned_def unknown_def owner_of_def list_ex_iff)
qed

lemma on_conn_Inr:
  "on_conn n f w = Some (Inr w') \<longleftrightarrow> (\<exists>c. f (conn_of n w) = Some (Inr c) \<and> w' = put_conn n c w)"
  by (auto simp: on_conn_def bind_outcome_Some_Inr)

lemma handle_channel_ok:
  assumes "world_ok fs w" and "handle_channel os n w = Some (Inr w')"
  shows "world_ok fs w' \<and> pending_functors (lw_loop w') = pending_functors (lw_loop w)"
proof (cases "n = WAKEUP")
  case True
  then obtain l where l: "wakeup_handle_events (os_ctl os) (\<lambda>_. True) (os_now os) (lw_loop w) = Some (Inr l)"
      "w' = w\<lparr>lw_loop := l\<rparr>"
    using assms(2) by (auto simp: handle_channel_def bind_outcome_Some_Inr)
  have f: "loop_frame (lw_loop w) l" by (rule wakeup_handle_events_frame [OF l(1)])
  from loop_frame_ok [OF assms(1) f] f show ?thesis using l(2) by (simp add: loop_frame_def)
next
  case False
  then obtain c where c: "owned (conn_of n w)" "http_handle_events os (conn_of n w) = Some (Inr c)" "w' = put_conn n c w"
    using assms(2) by (auto simp: handle_channel_def on_conn_Inr split: if_splits)
  have "object_ok (conn_of n w)" using assms(1) False by (simp add: world_ok_def objects_ok_def)
  then have "conn_inv c"
    using http_handle_events_inv [OF c(2)] by (simp add: object_ok_def single_timer_conn_inv)
  then have "single_timer c" by (simp add: conn_inv_def)
  then show ?thesis
    using put_conn_ok [OF assms(1) False owned_known [OF assms(1) False c(1)] http_handle_events_frame [OF c(2)]] c(3)
    by simp
qed

lemma handle_channels_ok:
  "world_ok fs w \<Longrightarrow> handle_channels os ns w = Some (Inr w') \<Longrightarrow>
   world_ok fs w' \<and> pending_functors (lw_loop w') = pending_functors (lw_loop w)"
  by (induction ns arbitrary: w) (fastforce simp: bind_outcome_Some_Inr dest: handle_channel_ok)+

lemma close_ok:
  assumes "world_ok fs w" and "h \<noteq> WAKEUP" and "Functor h [] \<notin> set fs"
  shows "\<exists>c. handle_close os (conn_of h w) = Some (Inr c) \<and> world_ok fs (put_conn h c w)
    \<and> connection_state (http c) = H_DISCONNECTED \<and> ep_timers (connection.poller c) = the_timers w
    \<and> chan c = chan (lw_conns w h) \<and> self c = h \<and> timer (http c) = timer (http (lw_conns w h))
    \<and> fd_to_http (connection.poller c) = (fd_to_http (the_poller w))(ch_fd (chan c) := None)
    \<and> fd_to_channel (connection.poller c) = (fd_to_channel (the_poller w))(ch_fd (chan c) := None)"
proof -
  have obj: "self (lw_conns w h) = h" "object_ok (conn_of h w)" using assms by (auto simp: world_ok_def objects_ok_def)
  then obtain c where c: "handle_close os (conn_of h w) = Some (Inr c)"
      "connection_state (http c) = H_DISCONNECTED" "ep_timers (connection.poller c) = the_timers w"
      "chan c = chan (lw_conns w h)" "self c = h" "timer (http c) = timer (http (lw_conns w h))"
      "fd_to_http (connection.poller c) = (fd_to_http (the_poller w))(ch_fd (chan c) := None)"
      "fd_to_channel (connection.poller c) = (fd_to_channel (the_poller w))(ch_fd (chan c) := None)"
    by (simp add: handle_close_def remove_from_poller_def delete_fd_in_epoll_def epoll_ctl_def object_ok_def
      with_http_def Let_def)
  have "conn_inv c" using obj(2) handle_close_inv [OF c(1)] by (simp add: object_ok_def single_timer_conn_inv)
  then have "world_ok fs (put_conn h c w)"
    using put_conn_ok [OF assms handle_close_frame [OF c(1)]] by (simp add: conn_inv_def)
  with c show ?thesis by blast
qed

lemma new_event_ok:
  assumes w: "world_ok (Functor h [] # fs) w" and run: "new_event os (conn_of h w) = Some (Inr c)"
  shows "world_ok fs (put_conn h c w)"
proof -
  have ok: "tables_ok w" "objects_ok w" "functors_ok (Functor h [] # fs) w" using w by (simp_all add: world_ok_def)
  then have h: "h \<noteq> WAKEUP" "unknown h w" "channel (http (lw_conns w h)) = h" by (auto simp: functors_ok_def)
  have me: "self (lw_conns w h) = h" "object_ok (conn_of h w)" using ok(2) h(1) by (auto simp: objects_ok_def)
  then have "linked (conn_of h w)" by (simp add: object_ok_def)
  note f = new_event_frame [OF run this, simplified, unfolded me(1) h(3)]
  let ?n = "ch_fd (chan (lw_conns w h))" and ?ep = "connection.poller c"
  have same: "self c = h" "ch_fd (chan c) = ?n" using f me by (simp_all add: same_object_def)
  have tf: "timers_frame h (the_timers w) (ep_timers ?ep)" using f by blast
  have http: "fd_to_http ?ep d = (if d = ?n then Some h else fd_to_http (the_poller w) d)" for d
    using f by simp
  have chn: "fd_to_channel ?ep d = Some k \<Longrightarrow> if d = ?n then k = h else fd_to_channel (the_poller w) d = Some k" for d k
    using f by auto
  have tab: "tables_ok (put_conn h c w)"
    unfolding tables_ok_def conn_of_put
  proof (intro conjI allI impI)
    show "fd_to_http ?ep d = Some k" if "fd_to_channel ?ep d = Some k" "k \<noteq> WAKEUP" for d k
      using chn [OF that(1)] http [of d] ok(1) that(2) by (auto simp: tables_ok_def split: if_splits)
    show "k \<noteq> WAKEUP" "ch_fd (chan (((lw_conns w)(h := c)) k)) = d" if "fd_to_http ?ep d = Some k" for d k
      using that http [of d] ok(1) h(1) same(2) by (auto simp: tables_ok_def split: if_splits)
  qed
  have "timer (http c) = Some t"
    if "t \<in> set (timer_pqueue (ep_timers ?ep))" "owner_of (ep_timers ?ep) t = Some h" for t
  proof (cases "t \<in> set (timer_pqueue (the_timers w))")
    case True
    then show ?thesis using timers_frame_old [OF tf True] that(2) h(2) by (auto simp: unknown_def)
  next
    case False
    then show ?thesis using f that(1) by auto
  qed
  then have "object_ok c"
    using f same me(2) by (auto simp: object_ok_def single_timer_owner same_object_def bound_def)
  then have obj: "objects_ok (put_conn h c w)" by (rule objects_ok_put [OF ok(2) h(1) _ same(1) tf])
  have "unknown k (put_conn h c w)" if "unknown k w" "k \<noteq> h" for k
    using that http owners_other [OF tf that(2)] unfolding unknown_def conn_of_put by (auto split: if_splits)
  then have "functors_ok fs (put_conn h c w)"
    using ok(3) by (fastforce simp: functors_ok_def)
  with tab obj show ?thesis by (simp add: world_ok_def)
qed

lemma call_new_event_ok:
  assumes w: "world_ok (f # fs) w" and run: "call_new_event os f w = Some (Inr w')"
  shows "world_ok fs w' \<and> pending_functors (lw_loop w') = pending_functors (lw_loop w)"
proof -
  obtain h where f: "f = Functor h []" using w by (auto simp: world_ok_def functors_ok_def)
  let ?l = "call_functor (loop_thread (lw_loop w)) f (lw_loop w)"
  let ?w = "w\<lparr>lw_loop := ?l\<rparr>"
  have "loop_frame (lw_loop w) ?l" using f by (simp add: loop_frame_def)
  then have ok: "world_ok (f # fs) ?w" by (rule loop_frame_ok [OF w])
  obtain c where c: "new_event os (conn_of h ?w) = Some (Inr c)" "w' = put_conn h c ?w"
    using run f by (auto simp: on_conn_Inr)
  show ?thesis using new_event_ok [OF ok [unfolded f] c(1) [unfolded f]] c(2) f by simp
qed

lemma call_new_events_ok:
  "world_ok fs w \<Longrightarrow> call_new_events os fs w = Some (Inr w') \<Longrightarrow>
   world_ok [] w' \<and> pending_functors (lw_loop w') = pending_functors (lw_loop w)"
  by (induction fs arbitrary: w) (fastforce simp: bind_outcome_Some_Inr dest: call_new_event_ok)+

lemma world_ok_cong:
  assumes "the_poller w' = the_poller w" and "lw_conns w' = lw_conns w"
  shows "world_ok fs w' = world_ok fs w"
proof -
  have "conn_of h w' = conn_of h w" for h using assms by (simp add: conn_of_def)
  then show ?thesis
    using assms by (simp add: world_ok_def tables_ok_def objects_ok_def functors_ok_def unknown_def)
qed

lemma world_ok_loop:
  "world_ok fs w \<Longrightarrow> event_loop.poller l = the_poller w \<Longrightarrow> world_ok fs (w\<lparr>lw_loop := l\<rparr>)"
  by (subst world_ok_cong [of _ w]) (simp_all add: the_poller_def)

lemma pending_new_events_ok:
  assumes "world_inv w" and "pending_new_events os w = Some (Inr w')"
  shows "world_inv w' \<and> pending_functors (lw_loop w') = []"
proof -
  let ?l = "(lw_loop w)\<lparr>calling_pending_functors := True, pending_functors := []\<rparr>"
  obtain v where v: "call_new_events os (pending_functors (lw_loop w)) (w\<lparr>lw_loop := ?l\<rparr>) = Some (Inr v)"
      "w' = v\<lparr>lw_loop := (lw_loop v)\<lparr>calling_pending_functors := False\<rparr>\<rparr>"
    using assms(2) by (auto simp: pending_new_events_def swap_functors_def bind_outcome_Some_Inr)
  have "world_ok (pending_functors (lw_loop w)) (w\<lparr>lw_loop := ?l\<rparr>)"
    using assms(1) by (intro world_ok_loop) (simp_all add: world_inv_def the_poller_def)
  from call_new_events_ok [OF this v(1)]
  have "world_ok [] v" "pending_functors (lw_loop v) = []" by simp_all
  then show ?thesis using v(2) world_ok_loop [of "[]" v] by (simp add: world_inv_def the_poller_def)
qed

subsection \<open>The sweep\<close>

text \<open>What closing connections changes: slots of the tables are emptied, and states end in disconnected.\<close>

definition shrinks :: "loop_world \<Rightarrow> loop_world \<Rightarrow> bool" where
  "shrinks w w' \<longleftrightarrow>
     the_timers w' = the_timers w \<and> pending_functors (lw_loop w') = pending_functors (lw_loop w)
     \<and> (\<forall>d. fd_to_http (the_poller w') d = None \<or> fd_to_http (the_poller w') d = fd_to_http (the_poller w) d)
     \<and> (\<forall>d. fd_to_channel (the_poller w') d = None \<or> fd_to_channel (the_poller w') d = fd_to_channel (the_poller w) d)
     \<and> (\<forall>h. chan (lw_conns w' h) = chan (lw_conns w h) \<and> self (lw_conns w' h) = self (lw_conns w h)
          \<and> timer (http (lw_conns w' h)) = timer (http (lw_conns w h))
          \<and> (connection_state (http (lw_conns w h)) = H_DISCONNECTED \<longrightarrow> connection_state (http (lw_conns w' h)) = H_DISCONNECTED))"

lemma shrinks_refl: "shrinks w w"
  by (simp add: shrinks_def)

lemma shrinks_trans: "shrinks a b \<Longrightarrow> shrinks b c \<Longrightarrow> shrinks a c"
  unfolding shrinks_def by (intro conjI allI; metis)

definition closed_in :: "nat \<Rightarrow> loop_world \<Rightarrow> bool" where
  "closed_in h w \<longleftrightarrow>
     connection_state (http (lw_conns w h)) = H_DISCONNECTED
     \<and> fd_to_http (the_poller w) (ch_fd (chan (lw_conns w h))) = None
     \<and> fd_to_channel (the_poller w) (ch_fd (chan (lw_conns w h))) = None"

lemma closed_in_shrinks: "closed_in h w \<Longrightarrow> shrinks w w' \<Longrightarrow> closed_in h w'"
  unfolding closed_in_def shrinks_def by metis

lemma close_shrinks:
  assumes "world_ok fs w" and "h \<noteq> WAKEUP" and "Functor h [] \<notin> set fs"
  shows "\<exists>w'. on_conn h (handle_close os) w = Some (Inr w') \<and> world_ok fs w' \<and> shrinks w w' \<and> closed_in h w'"
proof -
  obtain c where c: "handle_close os (conn_of h w) = Some (Inr c)" "world_ok fs (put_conn h c w)"
    "connection_state (http c) = H_DISCONNECTED" "ep_timers (connection.poller c) = the_timers w"
    "chan c = chan (lw_conns w h)" "self c = h" "timer (http c) = timer (http (lw_conns w h))"
    "fd_to_http (connection.poller c) = (fd_to_http (the_poller w))(ch_fd (chan c) := None)"
    "fd_to_channel (connection.poller c) = (fd_to_channel (the_poller w))(ch_fd (chan c) := None)"
    using close_ok [OF assms] by blast
  have "self (lw_conns w h) = h" using assms(1,2) by (simp add: world_ok_def objects_ok_def)
  then have "shrinks w (put_conn h c w)" using c(3-9) by (simp add: shrinks_def)
  moreover have "closed_in h (put_conn h c w)" using c(3,8,9) by (simp add: closed_in_def)
  ultimately show ?thesis using c(1,2) by (auto simp: on_conn_Inr)
qed

lemma close_all_shrinks:
  "world_ok fs w \<Longrightarrow> \<forall>h \<in> set hs. h \<noteq> WAKEUP \<and> Functor h [] \<notin> set fs \<Longrightarrow>
   \<exists>w'. close_all os hs w = Some (Inr w') \<and> world_ok fs w' \<and> shrinks w w' \<and> (\<forall>h \<in> set hs. closed_in h w')"
proof (induction hs arbitrary: w)
  case Nil
  then show ?case by (simp add: shrinks_refl)
next
  case (Cons h hs)
  then obtain v where v: "on_conn h (handle_close os) w = Some (Inr v)" "world_ok fs v" "shrinks w v" "closed_in h v"
    using close_shrinks [of fs w h os] by auto
  from Cons.IH [OF v(2)] Cons.prems(2) obtain w' where
    w': "close_all os hs v = Some (Inr w')" "world_ok fs w'" "shrinks v w'" "\<forall>h \<in> set hs. closed_in h w'" by auto
  show ?case using v w' shrinks_trans [OF v(3) w'(3)] closed_in_shrinks [OF v(4) w'(3)] by auto
qed

text \<open>Popping the timers.\<close>

lemma destroy_timer_mem: "h \<in> set (destroy_timer n) \<longleftrightarrow> http_data_ptr n = Some h"
  by (auto simp: destroy_timer_def split: option.split)

lemma expired_ok:
  assumes w: "world_ok fs w" and e: "handle_expired clock (the_poller w) = (closed, ep)"
  shows "world_ok fs (w\<lparr>lw_loop := (lw_loop w)\<lparr>event_loop.poller := ep\<rparr>\<rparr>)
    \<and> (\<forall>h \<in> set closed. h \<noteq> WAKEUP \<and> Functor h [] \<notin> set fs)
    \<and> (\<forall>t \<in> set (timer_pqueue (the_timers w)). t \<notin> set (timer_pqueue (ep_timers ep)) \<longrightarrow>
         (\<forall>h. owner_of (the_timers w) t = Some h \<longrightarrow> h \<in> set closed))
    \<and> (\<forall>t \<in> set (timer_pqueue (ep_timers ep)). t \<in> set (timer_pqueue (the_timers w))
         \<and> timers (ep_timers ep) t = timers (the_timers w) t
         \<and> (\<exists>i. int_to_size (clock_ms (clock i)) < expired_time (timers (the_timers w) t)))"
    (is "world_ok fs ?w \<and> _ \<and> _ \<and> _")
proof -
  have ok: "tables_ok w" "objects_ok w" "functors_ok fs w" using w by (simp_all add: world_ok_def)
  obtain tq where tq: "handle_expired_event clock (the_timers w) = (closed, tq)" "ep = (the_poller w)\<lparr>ep_timers := tq\<rparr>"
    using e by (auto simp: handle_expired_def split: prod.splits)
  have "tq_ok (the_timers w)" using ok(2) by (simp add: objects_ok_def)
  from handle_expired_event_post [OF this tq(1)] obtain xs where xs:
    "timer_pqueue (the_timers w) = xs @ timer_pqueue tq" "closed = concat (map (destroy_timer \<circ> timers (the_timers w)) xs)"
    "\<forall>t \<in> set (timer_pqueue tq). timers tq t = timers (the_timers w) t
         \<and> int_to_size (clock_ms (clock (length xs))) < expired_time (timers (the_timers w) t)" "tq_ok tq" by blast
  have mem: "h \<in> set closed \<longleftrightarrow> (\<exists>t \<in> set xs. owner_of (the_timers w) t = Some h)" for h
    using destroy_timer_mem by (simp add: xs(2) owner_of_def)
  have cl: "h \<noteq> WAKEUP \<and> Functor h [] \<notin> set fs" if "h \<in> set closed" for h
    using that mem ok(2,3) xs(1) by (fastforce simp: objects_ok_def functors_ok_def unknown_def)
  have next_same: "next_timer tq = next_timer (the_timers w)"
    using tq(1) by (auto simp: handle_expired_event_def split: prod.splits)
  have sub: "t \<in> set (timer_pqueue (the_timers w)) \<and> owner_of tq t = owner_of (the_timers w) t"
    if "t \<in> set (timer_pqueue tq)" for t using that xs(1,3) by (simp add: owner_of_def)
  have "world_ok fs v" if v: "the_poller v = (the_poller w)\<lparr>ep_timers := tq\<rparr>" "lw_conns v = lw_conns w" for v
  proof -
    have "object_ok (conn_of h v)" if "object_ok (conn_of h w)" for h
      using that sub xs(4) next_same
      by (auto simp: object_ok_def linked_def single_timer_owner v conn_of_def)
    then have "objects_ok v" using ok(2) xs(4) sub by (simp add: objects_ok_def v)
    moreover have "fd_to_http (the_poller v) = fd_to_http (the_poller w)"
        "fd_to_channel (the_poller v) = fd_to_channel (the_poller w)" using v by simp_all
    then have "tables_ok v" using ok(1) unfolding tables_ok_def v(2) by metis
    moreover have "functors_ok fs v" using ok(3) sub unfolding functors_ok_def unknown_def v by fastforce
    ultimately show ?thesis by (simp add: world_ok_def)
  qed
  then have "world_ok fs ?w" using tq(2) by (simp add: the_poller_def)
  moreover have "h \<in> set closed" if "t \<in> set (timer_pqueue (the_timers w))" "t \<notin> set (timer_pqueue (ep_timers ep))"
      "owner_of (the_timers w) t = Some h" for t h
    using that mem xs(1) tq(2) by auto
  ultimately show ?thesis using cl xs(1,3) tq(2) by auto
qed

lemma sweep_timers_ok:
  assumes "world_ok fs w"
  shows "\<exists>w'. sweep_timers os clock w = Some (Inr w') \<and> world_ok fs w'
    \<and> pending_functors (lw_loop w') = pending_functors (lw_loop w)"
proof -
  obtain closed ep where e: "handle_expired clock (the_poller w) = (closed, ep)" by fastforce
  note x = expired_ok [OF assms e]
  obtain w' where "close_all os closed (w\<lparr>lw_loop := (lw_loop w)\<lparr>event_loop.poller := ep\<rparr>\<rparr>) = Some (Inr w')"
      "world_ok fs w'" "shrinks (w\<lparr>lw_loop := (lw_loop w)\<lparr>event_loop.poller := ep\<rparr>\<rparr>) w'"
    using close_all_shrinks [OF conjunct1 [OF x] conjunct1 [OF conjunct2 [OF x]], of os] by blast
  then show ?thesis using e by (simp add: sweep_timers_def shrinks_def)
qed

end
