(* ===== verification/Loop_World.thy ===== *)
theory Loop_World
  imports Loop_Turn
begin

text \<open>
  Runs of a loop with its connections: turns of the loop, connections the accepting thread hands over,
  and input on the sockets. Events reach only connections that are alive, and the sweep closes every
  connection whose timer has passed.
\<close>

section \<open>Runs\<close>

text \<open>The object the server makes for an accepted descriptor, with the coming results on its socket.\<close>

definition accepted_connection :: "nat \<Rightarrow> nat \<Rightarrow> 32 word \<Rightarrow> reads \<Rightarrow> writes \<Rightarrow> connection" where
  "accepted_connection h d garbage es ws =
     \<lparr>self = h, http = new_http_data 0 h d,
      chan = set_holder h (bind_handlers (new_channel_fd garbage d)), connection.poller = new_epoll,
      to_read = es, to_write = ws, sent = [], sock_ops = []\<rparr>"

text \<open>\<open>new_event\<close> of the connection is queued in the loop; the calling thread is \<open>tid\<close>.\<close>

definition hand_over :: "int \<Rightarrow> nat \<Rightarrow> connection \<Rightarrow> loop_world \<Rightarrow> loop_world" where
  "hand_over tid h c w =
     w\<lparr>lw_loop := queue_in_loop tid (Functor h []) (lw_loop w), lw_conns := (lw_conns w)(h := c)\<rparr>"

text \<open>One call of \<open>epoll_wait\<close> reports a descriptor at most once.\<close>

definition reports_once :: "waits \<Rightarrow> bool" where
  "reports_once ws \<longleftrightarrow> list_all (\<lambda>e. distinct (map fst (wait_events e))) ws"

inductive world_step :: "loop_world \<Rightarrow> loop_world \<Rightarrow> bool" where
  turn: "loop_turn os clock ws w = Some (Inr (w', ws')) \<Longrightarrow> reports_once ws \<Longrightarrow> world_step w w'"
| arrives: "h \<noteq> WAKEUP \<Longrightarrow> unknown h w \<Longrightarrow> Functor h [] \<notin> set (pending_functors (lw_loop w)) \<Longrightarrow> d < MAX_FDS \<Longrightarrow>
    world_step w (hand_over tid h (accepted_connection h d garbage es ws) w)"
| input: "world_step w (w\<lparr>lw_conns := (lw_conns w)(h := (lw_conns w h)\<lparr>to_read := es, to_write := ws\<rparr>)\<rparr>)"

text \<open>A loop its constructor has made, without connections: the numbers stand for objects to come.\<close>

definition fresh_world :: "loop_world \<Rightarrow> bool" where
  "fresh_world w \<longleftrightarrow>
     (\<exists>ctl_ok alive now garbage event_fd tid current this current'.
        new_event_loop ctl_ok alive now garbage event_fd WAKEUP tid current (this :: nat) = Inr (lw_loop w, current'))
     \<and> lw_conns w = (\<lambda>h. accepted_connection h 0 0 [] [])"

section \<open>The poll\<close>

definition same_slot :: "channel_state \<Rightarrow> channel_state \<Rightarrow> bool" where
  "same_slot ch ch' \<longleftrightarrow> ch_fd ch' = ch_fd ch \<and> holder ch' = holder ch \<and> handlers_of ch' = handlers_of ch"

lemma get_events_request_slots:
  "get_events_request ep evs chs = Inr (ns, chs') \<Longrightarrow> same_slot (chs n) (chs' n)"
  by (induction ep evs chs arbitrary: ns rule: get_events_request.induct)
    (fastforce simp: bind_result_Inr same_slot_def set_events_def [of 0] set_revents_def split: if_splits option.splits)+

text \<open>The channels come from distinct descriptors, through the table.\<close>

lemma get_events_request_from:
  "get_events_request ep evs chs = Inr (ns, chs') \<Longrightarrow> distinct (map fst evs) \<Longrightarrow>
   \<exists>ds. map (fd_to_channel ep) ds = map Some ns \<and> distinct ds \<and> set ds \<subseteq> fst ` set evs"
proof (induction ep evs chs arbitrary: ns rule: get_events_request.induct)
  case (1 ep chs)
  then show ?case by (intro exI [of _ "[]"]) simp
next
  case (2 ep d ev evs chs)
  then have d: "\<not> MAX_FDS \<le> d" by (auto split: if_splits)
  show ?case
  proof (cases "fd_to_channel ep d")
    case None
    then show ?thesis using 2 d by fastforce
  next
    case (Some c)
    then obtain ms where ms: "get_events_request ep evs (chs(c := set_events 0 (set_revents ev (chs c)))) = Inr (ms, chs')"
        "ns = c # ms" using 2(3) d by (auto simp: bind_result_Inr)
    from 2(2) [OF d Some ms(1)] 2(4) obtain ds where
      "map (fd_to_channel ep) ds = map Some ms" "distinct ds" "set ds \<subseteq> fst ` set evs" by auto
    then show ?thesis using Some ms(2) 2(4) by (intro exI [of _ "d # ds"]) auto
  qed
qed

lemma poll_from:
  "poll ep ws chs = Some (Inr (ns, chs', ws')) \<Longrightarrow> reports_once ws \<Longrightarrow>
   (\<exists>ds. map (fd_to_channel ep) ds = map Some ns \<and> distinct ds) \<and> (\<forall>n. same_slot (chs n) (chs' n))"
proof (induction ep ws chs rule: poll.induct)
  case (2 ep e ws chs)
  show ?case
  proof (cases "get_events_request ep (wait_events e) chs")
    case (Inl f)
    then show ?thesis using 2(2) by (simp add: wait_events_def)
  next
    case (Inr r)
    obtain ms chs1 where r: "r = (ms, chs1)" by fastforce
    note slots = get_events_request_slots [OF Inr [unfolded r]]
    show ?thesis
    proof (cases "ms = []")
      case True
      then have "poll ep ws chs1 = Some (Inr (ns, chs', ws'))"
        using 2(2) Inr r by (simp add: wait_events_def)
      then show ?thesis using 2(1) 2(3) Inr r True slots by (fastforce simp: reports_once_def same_slot_def wait_events_def)
    next
      case False
      then have "ns = ms" "chs' = chs1" using 2(2) Inr r by (simp_all add: wait_events_def)
      then show ?thesis using get_events_request_from [OF Inr [unfolded r]] 2(3) slots by (auto simp: reports_once_def)
    qed
  qed
qed simp

lemma put_channels_ok:
  assumes w: "world_ok fs w" and chs: "\<And>n. same_slot (channels_of w n) (chs n)"
  shows "world_ok fs (put_channels chs w)"
proof -
  let ?v = "put_channels chs w"
  have pol: "the_poller ?v = the_poller w" by (simp add: put_channels_def the_poller_def)
  have obj: "self (lw_conns ?v h) = self (lw_conns w h)" "http (lw_conns ?v h) = http (lw_conns w h)"
      "same_slot (chan (lw_conns w h)) (chan (lw_conns ?v h))" for h
    using chs [of h] by (auto simp: put_channels_def channels_of_def same_slot_def)
  then have d: "ch_fd (chan (lw_conns ?v h)) = ch_fd (chan (lw_conns w h))"
      "holder (chan (lw_conns ?v h)) = holder (chan (lw_conns w h))"
      "bound (chan (lw_conns ?v h)) = bound (chan (lw_conns w h))" for h by (simp_all add: same_slot_def bound_def)
  have "object_ok (conn_of h ?v) = object_ok (conn_of h w)" for h
    using pol obj(1,2) d by (simp add: object_ok_def linked_def single_timer_def)
  then have "objects_ok ?v" using w obj(1) by (simp add: world_ok_def objects_ok_def pol)
  moreover have "tables_ok ?v" using w unfolding world_ok_def tables_ok_def pol d by blast
  moreover have "functors_ok fs ?v"
    using w unfolding world_ok_def functors_ok_def unknown_def pol obj(2) by blast
  ultimately show ?thesis by (simp add: world_ok_def)
qed

section \<open>The invariant is kept\<close>

lemma turn_inv:
  assumes inv: "world_inv w" and run: "loop_turn os clock ws w = Some (Inr (w', ws'))" and ws: "reports_once ws"
  shows "world_inv w'"
proof -
  obtain ns chs r a b where p: "poll (the_poller w) ws (channels_of w) = Some (Inr (ns, chs, r))"
      and a: "handle_channels os ns (set_handling True (put_channels chs w)) = Some (Inr a)"
      and b: "pending_new_events os (set_handling False a) = Some (Inr b)"
      and c: "sweep_timers os clock b = Some (Inr w')"
    using run by (auto simp: loop_turn_def bind_outcome_Some_Inr)
  let ?fs = "pending_functors (lw_loop w)"
  have pend: "pending_functors (lw_loop (set_handling True (put_channels chs w))) = ?fs"
    by (simp add: set_handling_def put_channels_def)
  have "world_ok ?fs (put_channels chs w)"
    using inv poll_from [OF p ws] by (intro put_channels_ok) (auto simp: world_inv_def)
  then have "world_ok ?fs (set_handling True (put_channels chs w))"
    unfolding set_handling_def by (rule world_ok_loop) (simp add: the_poller_def)
  note ha = handle_channels_ok [OF this a]
  then have "world_ok ?fs (set_handling False a)"
    unfolding set_handling_def by (intro world_ok_loop) (simp_all add: the_poller_def)
  then have "world_inv (set_handling False a)" using ha pend by (simp add: world_inv_def set_handling_def)
  note pb = pending_new_events_ok [OF this b]
  then show ?thesis using sweep_timers_ok [of "pending_functors (lw_loop b)" b os clock] c by (auto simp: world_inv_def)
qed

lemma accepted_simps [simp]:
  "self (accepted_connection h d g es ws) = h" "channel (http (accepted_connection h d g es ws)) = h"
  "timer (http (accepted_connection h d g es ws)) = None" "ch_fd (chan (accepted_connection h d g es ws)) = d"
  "holder (chan (accepted_connection h d g es ws)) = Some h" "bound (chan (accepted_connection h d g es ws))"
  by (simp_all add: accepted_connection_def new_http_data_def set_holder_def bind_handlers_def set_read_handler_def
    set_write_handler_def set_connect_handler_def new_channel_fd_def bound_def handlers_of_def)

lemma queue_in_loop_simps:
  "event_loop.poller (queue_in_loop tid f l) = event_loop.poller l"
  "pending_functors (queue_in_loop tid f l) = pending_functors l @ [f]"
  by (simp_all add: queue_in_loop_def wake_if_needed_def push_functor_def wakeup_counter)

lemma arrives_inv:
  assumes inv: "world_inv w" and h: "h \<noteq> WAKEUP" "unknown h w" "Functor h [] \<notin> set (pending_functors (lw_loop w))" "d < MAX_FDS"
  shows "world_inv (hand_over tid h (accepted_connection h d g es ws) w)"
proof -
  let ?c = "accepted_connection h d g es ws" and ?v = "hand_over tid h (accepted_connection h d g es ws) w"
  have ok: "tables_ok w" "objects_ok w" "functors_ok (pending_functors (lw_loop w)) w"
    using inv by (simp_all add: world_inv_def world_ok_def)
  have v: "the_poller ?v = the_poller w" "lw_conns ?v = (lw_conns w)(h := ?c)"
      "pending_functors (lw_loop ?v) = pending_functors (lw_loop w) @ [Functor h []]"
    by (simp_all add: hand_over_def the_poller_def queue_in_loop_simps)
  have tq: "tq_ok (the_timers w)" using ok(2) by (simp add: objects_ok_def)
  have "object_ok (conn_of h ?v)"
    using tq h(2,4) v by (simp add: object_ok_def linked_def single_timer_owner unknown_def)
  moreover have "object_ok (conn_of k ?v) = object_ok (conn_of k w)" if "k \<noteq> h" for k
    using that v by (intro conn_of_cong) simp_all
  ultimately have "self (lw_conns ?v k) = k \<and> object_ok (conn_of k ?v)" if "k \<noteq> WAKEUP" for k
    using ok(2) that by (cases "k = h") (auto simp: v objects_ok_def)
  then have "objects_ok ?v" using ok(2) by (simp add: objects_ok_def v)
  moreover have "fd_to_http (the_poller w) k \<noteq> Some h" for k using h(2) by (simp add: unknown_def)
  then have "tables_ok ?v" using ok(1) unfolding tables_ok_def v by (metis fun_upd_other)
  moreover have unk: "unknown k ?v = unknown k w" for k by (simp add: unknown_def v)
  have "\<exists>k. f = Functor k [] \<and> k \<noteq> WAKEUP \<and> channel (http (lw_conns ?v k)) = k \<and> unknown k ?v"
    if "f \<in> set (pending_functors (lw_loop w) @ [Functor h []])" for f
  proof (cases "f = Functor h []")
    case True
    then show ?thesis using h(1,2) unk by (auto simp: v(2))
  next
    case False
    then have "f \<in> set (pending_functors (lw_loop w))" using that by simp
    then obtain k where "f = Functor k []" "k \<noteq> WAKEUP" "channel (http (lw_conns w k)) = k" "unknown k w"
      using ok(3) unfolding functors_ok_def by blast
    then show ?thesis using False unk by (auto simp: v(2))
  qed
  then have "functors_ok (pending_functors (lw_loop ?v)) ?v"
    using ok(3) h(3) unfolding functors_ok_def v(3) by simp
  ultimately show ?thesis by (simp add: world_inv_def world_ok_def)
qed

lemma input_inv:
  assumes "world_inv w"
  shows "world_inv (w\<lparr>lw_conns := (lw_conns w)(h := (lw_conns w h)\<lparr>to_read := es, to_write := ws\<rparr>)\<rparr>)" (is "world_inv ?v")
proof -
  have v: "the_poller ?v = the_poller w" "chan (lw_conns ?v k) = chan (lw_conns w k)"
      "http (lw_conns ?v k) = http (lw_conns w k)" "self (lw_conns ?v k) = self (lw_conns w k)"
      "pending_functors (lw_loop ?v) = pending_functors (lw_loop w)" for k
    by (simp_all add: the_poller_def)
  have "object_ok (conn_of k ?v) = object_ok (conn_of k w)" for k
    using v by (simp add: object_ok_def linked_def single_timer_def)
  then show ?thesis
    using assms unfolding world_inv_def world_ok_def tables_ok_def objects_ok_def functors_ok_def unknown_def v
    by (elim conjE) (intro conjI; assumption?; simp)
qed

lemma world_step_inv: "world_inv w \<Longrightarrow> world_step w w' \<Longrightarrow> world_inv w'"
  by (erule world_step.cases) (auto intro: turn_inv arrives_inv input_inv)

lemma add_fd_plain:
  "add_fd_in_epoll ctl_ok alive now c ch 0 ep = Inr (link, ch', ep') \<Longrightarrow>
   fd_to_http ep' = fd_to_http ep \<and> ep_timers ep' = ep_timers ep
   \<and> (\<forall>d k. fd_to_channel ep' d = Some k \<longrightarrow> k = c \<or> fd_to_channel ep d = Some k)"
  by (auto simp: add_fd_in_epoll_def equal_and_update_last_events_def epoll_ctl_def Let_def split: if_splits)

lemma new_loop_poller:
  assumes "new_event_loop ctl_ok alive now garbage event_fd c tid current this = Inr (l, current')"
  shows "pending_functors l = [] \<and> fd_to_http (event_loop.poller l) = (\<lambda>_. None)
    \<and> ep_timers (event_loop.poller l) = ep_timers new_epoll
    \<and> (\<forall>d k. fd_to_channel (event_loop.poller l) d = Some k \<longrightarrow> k = c)"
proof -
  obtain x link ch ep where "add_fd_in_epoll ctl_ok alive now c x 0 new_epoll = Inr (link, ch, ep)"
      "event_loop.poller l = ep" "pending_functors l = []"
    using assms by (auto simp: new_event_loop_def bind_result_Inr Let_def)
  then show ?thesis using add_fd_plain [of ctl_ok alive now c x new_epoll link ch ep] by (auto simp: new_epoll_def)
qed

lemma fresh_world_inv:
  assumes "fresh_world w"
  shows "world_inv w"
proof -
  obtain ctl_ok alive now garbage event_fd tid current and this :: nat and current' where
      new: "new_event_loop ctl_ok alive now garbage event_fd WAKEUP tid current this = Inr (lw_loop w, current')"
    using assms by (auto simp: fresh_world_def)
  have l: "pending_functors (lw_loop w) = []" "fd_to_http (the_poller w) = (\<lambda>_. None)"
      "the_timers w = ep_timers new_epoll" "\<And>k n. fd_to_channel (the_poller w) k = Some n \<Longrightarrow> n = WAKEUP"
    using new_loop_poller [OF new] by (auto simp: the_poller_def)
  have c: "lw_conns w h = accepted_connection h 0 0 [] []" for h using assms by (simp add: fresh_world_def)
  have "object_ok (conn_of h w)" for h
    using l(3) by (simp add: object_ok_def linked_def single_timer_def c new_epoll_def tq_ok_def pq_ordered_def MAX_FDS_def)
  then have "objects_ok w" using l(3) by (simp add: objects_ok_def c new_epoll_def tq_ok_def pq_ordered_def)
  moreover have "tables_ok w" using l(2,4) by (auto simp: tables_ok_def)
  moreover have "functors_ok [] w" by (simp add: functors_ok_def)
  ultimately show ?thesis using l(1) by (simp add: world_inv_def world_ok_def)
qed

interpretation world_sys: invariant_system fresh_world world_step world_inv
  by unfold_locales (auto intro: fresh_world_inv world_step_inv)

section \<open>A loop for the witnesses\<close>

text \<open>One connection is handed over and a turn registers it: connection 3 on descriptor 7.\<close>

definition demo_world :: loop_world where
  "demo_world = \<lparr>lw_loop = demo_loop, lw_conns = (\<lambda>h. accepted_connection h 0 0 [] [])\<rparr>"

definition demo_handed :: loop_world where
  "demo_handed = hand_over 2 3 (accepted_connection 3 7 0 [] []) demo_world"

lemma demo_fresh_world: "fresh_world demo_world"
  unfolding fresh_world_def using demo_new by (fastforce simp: demo_world_def WAKEUP_def)

lemma demo_loop_parts:
  "event_loop.poller demo_loop = \<lparr>ctl_log = [(EPOLL_CTL_ADD, 5, EPOLLIN OR EPOLLET, True)],
     fd_to_channel = (\<lambda>_. None)(5 := Some 0), fd_to_http = (\<lambda>_. None), ep_timers = ep_timers new_epoll\<rparr>"
  "pending_functors demo_loop = []" "wake_ok demo_loop"
  using new_loop_wake_ok [OF demo_new]
  by (simp_all add: demo_loop_def new_event_loop_def create_event_fd_def add_fd_in_epoll_def epoll_ctl_def MAX_FDS_def
    equal_and_update_last_events_def set_connect_handler_def set_read_handler_def set_events_def new_channel_fd_def
    new_epoll_def Let_def)

lemma demo_handed_step: "world_step demo_world demo_handed"
  unfolding demo_handed_def
  by (rule arrives) (simp_all add: WAKEUP_def unknown_def demo_world_def the_poller_def demo_loop_parts new_epoll_def MAX_FDS_def)

lemma wakeup_channel_turn:
  assumes "wake_ok (lw_loop w)" and "ch_revents (wakeup_channel (lw_loop w)) = EPOLLIN"
  shows "handle_channels os [WAKEUP] w = Some (Inr (w\<lparr>lw_loop := (lw_loop w)\<lparr>eventfd := 0,
    wakeup_channel := set_events (EPOLLIN OR EPOLLET) (wakeup_channel (lw_loop w))\<rparr>\<rparr>))"
  using wakeup_dispatch [OF assms] by (simp add: handle_channel_def)

lemma demo_registers:
  assumes "chan c = set_holder h (bind_handlers (new_channel_fd 0 d))" and "d < MAX_FDS"
    and "ep_timers (connection.poller c) = ep_timers new_epoll"
  shows "\<exists>c'. new_event demo_os c = Some (Inr c') \<and> timer_pqueue (ep_timers (connection.poller c')) = [0]
    \<and> timers (ep_timers (connection.poller c')) 0 = new_timer (1, 0) (Some h) 2000
    \<and> fd_to_channel (connection.poller c') d = Some (channel (http c)) \<and> idle c' = idle c"
  using assms
  by (simp add: new_event_def add_to_poller_def add_fd_in_epoll_def epoll_add_timer_def get_holder_def add_timer_def
    equal_and_update_last_events_def epoll_ctl_def after_ctl_def link_timer_def with_http_def with_events_def set_events_def
    set_holder_def bind_handlers_def set_read_handler_def set_write_handler_def set_connect_handler_def new_channel_fd_def
    DEFAULT_EXPIRED_TIME_def demo_os_def new_epoll_def pq_push_def idle_def Let_def)

lemma demo_sweep:
  assumes "timer_pqueue (the_timers w) = [0]" and "timers (the_timers w) 0 = new_timer (1, 0) (Some h) 2000"
  shows "\<exists>w'. sweep_timers os (\<lambda>_. (1, 0)) w = Some (Inr w') \<and> the_timers w' = the_timers w
    \<and> fd_to_channel (the_poller w') = fd_to_channel (the_poller w) \<and> lw_conns w' = lw_conns w"
proof -
  have "handle_expired_event (\<lambda>_. (1, 0)) (the_timers w) = ([], the_timers w)"
    using assms by (cases "the_timers w")
      (simp add: handle_expired_event_def is_deleted_def is_valid_def new_timer_def clock_ms_def int_to_size_def fun_upd_idem)
  then have e: "handle_expired (\<lambda>_. (1, 0)) (the_poller w) = ([], the_poller w)" by (simp add: handle_expired_def)
  then show ?thesis by (simp add: sweep_timers_def the_poller_def)
qed

lemma demo_turn_works:
  "\<exists>w ws'. loop_turn demo_os (\<lambda>_. (1, 0)) [Ret [(5, EPOLLIN)]] demo_handed = Some (Inr (w, ws'))
     \<and> timer_pqueue (the_timers w) = [0] \<and> timers (the_timers w) 0 = new_timer (1, 0) (Some 3) 2000
     \<and> fd_to_channel (the_poller w) 7 = Some 3 \<and> idle (lw_conns w 3)"
proof -
  let ?chs = "(channels_of demo_handed)(0 := set_events 0 (set_revents EPOLLIN (channels_of demo_handed 0)))"
  let ?v = "set_handling True (put_channels ?chs demo_handed)"
  have p: "poll (the_poller demo_handed) [Ret [(5, EPOLLIN)]] (channels_of demo_handed) = Some (Inr ([WAKEUP], ?chs, []))"
    by (simp add: demo_handed_def hand_over_def demo_world_def the_poller_def queue_in_loop_simps demo_loop_parts MAX_FDS_def
      WAKEUP_def)
  have wch: "wakeup_channel (lw_loop ?v) = set_events 0 (set_revents EPOLLIN (wakeup_channel demo_loop))"
    by (simp add: set_handling_def put_channels_def channels_of_def WAKEUP_def demo_handed_def hand_over_def demo_world_def
      queue_in_loop_def wake_if_needed_def push_functor_def wakeup_counter)
  have "wake_ok (lw_loop ?v)" "ch_revents (wakeup_channel (lw_loop ?v)) = EPOLLIN"
    using demo_loop_parts(3) wch by (simp_all add: wake_ok_def set_events_def set_revents_def)
  from wakeup_channel_turn [OF this] obtain x where
      x: "handle_channels demo_os [WAKEUP] ?v = Some (Inr x)" "lw_conns x = lw_conns ?v" "the_poller x = the_poller ?v"
         "pending_functors (lw_loop x) = pending_functors (lw_loop ?v)"
    by (simp add: the_poller_def)
  have v: "the_poller ?v = the_poller demo_world" "pending_functors (lw_loop ?v) = [Functor 3 []]"
      "lw_conns ?v 3 = accepted_connection 3 7 0 [] []"
    by (simp_all add: set_handling_def put_channels_def channels_of_def WAKEUP_def demo_handed_def hand_over_def demo_world_def
      the_poller_def queue_in_loop_simps demo_loop_parts)
  let ?l = "(lw_loop x)\<lparr>event_handling := False, calling_pending_functors := True, pending_functors := [],
      calls_made := calls_made (lw_loop x) @ [3]\<rparr>"
  let ?y = "x\<lparr>lw_loop := ?l\<rparr>"
  have "the_poller ?y = the_poller demo_world" using x(3) v(1) by (simp add: the_poller_def)
  then have cy: "conn_of 3 ?y = (accepted_connection 3 7 0 [] [])\<lparr>connection.poller := the_poller demo_world\<rparr>"
    using x(2) v(3) by (simp add: conn_of_def)
  obtain c' where c': "new_event demo_os (conn_of 3 ?y) = Some (Inr c')" "timer_pqueue (ep_timers (connection.poller c')) = [0]"
      "timers (ep_timers (connection.poller c')) 0 = new_timer (1, 0) (Some 3) 2000"
      "fd_to_channel (connection.poller c') 7 = Some 3" "idle c'"
    using demo_registers [of "conn_of 3 ?y" 3 7] cy
    by (auto simp: accepted_connection_def new_http_data_def demo_world_def the_poller_def demo_loop_parts MAX_FDS_def
        idle_def)
  let ?z = "put_conn 3 c' ?y"
  let ?z' = "?z\<lparr>lw_loop := (lw_loop ?z)\<lparr>calling_pending_functors := False\<rparr>\<rparr>"
  have "pending_new_events demo_os (set_handling False x) = Some (Inr ?z')"
    using x(4) v(2) c'(1) by (simp add: pending_new_events_def swap_functors_def set_handling_def on_conn_def)
  moreover have "the_poller ?z' = connection.poller c'" by (simp add: the_poller_def put_conn_def)
  then obtain w where "sweep_timers demo_os (\<lambda>_. (1, 0)) ?z' = Some (Inr w)" "the_timers w = ep_timers (connection.poller c')"
      "fd_to_channel (the_poller w) = fd_to_channel (connection.poller c')" "lw_conns w = lw_conns ?z'"
    using demo_sweep [of ?z' 3 demo_os] c'(2,3) by auto
  ultimately show ?thesis using p x(1) c'(2-5) by (simp add: loop_turn_def)
qed

lemma demo_registered:
  obtains w where "run world_step demo_world w" "timer_pqueue (the_timers w) = [0]"
    "timers (the_timers w) 0 = new_timer (1, 0) (Some 3) 2000" "fd_to_channel (the_poller w) 7 = Some 3"
    "idle (lw_conns w 3)"
proof -
  obtain w ws' where w: "loop_turn demo_os (\<lambda>_. (1, 0)) [Ret [(5, EPOLLIN)]] demo_handed = Some (Inr (w, ws'))"
     "timer_pqueue (the_timers w) = [0]" "timers (the_timers w) 0 = new_timer (1, 0) (Some 3) 2000"
     "fd_to_channel (the_poller w) 7 = Some 3" "idle (lw_conns w 3)" using demo_turn_works by blast
  have "world_step demo_handed w" by (rule turn [OF w(1)]) (simp add: reports_once_def wait_events_def)
  with demo_handed_step have "run world_step demo_world w" by (meson run_refl run_step)
  with w that show ?thesis by blast
qed

section \<open>Events reach living connections\<close>

text \<open>One channel's events change the slot of its own descriptor at most.\<close>

lemma handle_channel_slot:
  assumes "world_ok fs w" and "handle_channel os n w = Some (Inr w')"
  shows "ch_fd (chan (lw_conns w' k)) = ch_fd (chan (lw_conns w k))"
    and "n \<noteq> WAKEUP \<longrightarrow> d \<noteq> ch_fd (chan (lw_conns w n)) \<Longrightarrow> fd_to_http (the_poller w') d = fd_to_http (the_poller w) d"
proof (atomize (full), cases "n = WAKEUP")
  case True
  then show "ch_fd (chan (lw_conns w' k)) = ch_fd (chan (lw_conns w k))
    \<and> ((n \<noteq> WAKEUP \<longrightarrow> d \<noteq> ch_fd (chan (lw_conns w n))) \<longrightarrow> fd_to_http (the_poller w') d = fd_to_http (the_poller w) d)"
    using assms(2) wakeup_handle_events_frame
    by (fastforce simp: handle_channel_def bind_outcome_Some_Inr loop_frame_def the_poller_def)
next
  case False
  then obtain c where c: "http_handle_events os (conn_of n w) = Some (Inr c)" "w' = put_conn n c w"
    using assms(2) by (auto simp: handle_channel_def on_conn_Inr split: if_splits)
  have "linked (conn_of n w)" using assms(1) False by (simp add: world_ok_def objects_ok_def object_ok_def)
  then have "conn_frame (conn_of n w) c" using http_handle_events_frame [OF c(1)] by (simp add: keeps_frame_def)
  then show "ch_fd (chan (lw_conns w' k)) = ch_fd (chan (lw_conns w k))
    \<and> ((n \<noteq> WAKEUP \<longrightarrow> d \<noteq> ch_fd (chan (lw_conns w n))) \<longrightarrow> fd_to_http (the_poller w') d = fd_to_http (the_poller w) d)"
    using c(2) False by (simp add: conn_frame_def same_object_def tables_frame_def)
qed

lemma handled_live:
  "world_ok fs w \<Longrightarrow> handle_channels os xs w = Some (Inr u) \<Longrightarrow>
   fd_to_http (the_poller w) (ch_fd (chan (lw_conns w n))) = Some n \<Longrightarrow>
   \<forall>m \<in> set xs. m \<noteq> WAKEUP \<longrightarrow> ch_fd (chan (lw_conns w m)) \<noteq> ch_fd (chan (lw_conns w n)) \<Longrightarrow>
   fd_to_http (the_poller u) (ch_fd (chan (lw_conns u n))) = Some n"
proof (induction xs arbitrary: w)
  case (Cons m xs)
  obtain v where v: "handle_channel os m w = Some (Inr v)" "handle_channels os xs v = Some (Inr u)"
    using Cons.prems(2) by (auto simp: bind_outcome_Some_Inr)
  note slot = handle_channel_slot [OF Cons.prems(1) v(1)]
  have "world_ok fs v" using handle_channel_ok [OF Cons.prems(1) v(1)] by blast
  moreover have "fd_to_http (the_poller v) (ch_fd (chan (lw_conns v n))) = Some n"
    using slot(2) [of "ch_fd (chan (lw_conns w n))"] Cons.prems(3,4) by (auto simp: slot(1))
  ultimately show ?case using Cons.IH [OF _ v(2)] Cons.prems(4) by (simp add: slot(1))
qed simp

lemma polled_apart:
  assumes "tables_ok w" and "map (fd_to_channel (the_poller w)) ds = map Some (xs @ n # ys)" and "distinct ds"
    and "n \<noteq> WAKEUP"
  shows "fd_to_http (the_poller w) (ch_fd (chan (lw_conns w n))) = Some n"
    and "\<forall>m \<in> set xs. m \<noteq> WAKEUP \<longrightarrow> ch_fd (chan (lw_conns w m)) \<noteq> ch_fd (chan (lw_conns w n))"
proof -
  obtain as d bs where ds: "ds = as @ d # bs" "map (fd_to_channel (the_poller w)) as = map Some xs"
      "fd_to_channel (the_poller w) d = Some n"
    using assms(2) by (auto simp: map_eq_append_conv map_eq_Cons_conv append_eq_map_conv Cons_eq_map_conv)
  have at: "fd_to_http (the_poller w) e = Some k \<and> ch_fd (chan (lw_conns w k)) = e"
    if "fd_to_channel (the_poller w) e = Some k" "k \<noteq> WAKEUP" for e k
    using that assms(1) unfolding tables_ok_def by metis
  then show "fd_to_http (the_poller w) (ch_fd (chan (lw_conns w n))) = Some n" using ds(3) assms(4) by metis
  have "\<exists>e \<in> set as. fd_to_channel (the_poller w) e = Some m" if "m \<in> set xs" for m
    using that ds(2) by (metis image_eqI image_iff list.set_map)
  then show "\<forall>m \<in> set xs. m \<noteq> WAKEUP \<longrightarrow> ch_fd (chan (lw_conns w m)) \<noteq> ch_fd (chan (lw_conns w n))"
    using at ds(1,3) assms(3,4) by fastforce
qed

lemma polled_owned:
  assumes ok: "world_ok fs w" and run: "handle_channels os xs w = Some (Inr u)"
    and ds: "map (fd_to_channel (the_poller w)) ds = map Some (xs @ n # ys)" "distinct ds" and n: "n \<noteq> WAKEUP"
  shows "owned (conn_of n u)"
proof -
  have "tables_ok w" using ok by (simp add: world_ok_def)
  from polled_apart [OF this ds n] have "fd_to_http (the_poller u) (ch_fd (chan (lw_conns u n))) = Some n"
    using handled_live [OF ok run] by blast
  moreover have "self (lw_conns u n) = n"
    using handle_channels_ok [OF ok run] n by (simp add: world_ok_def objects_ok_def)
  ultimately show ?thesis by (simp add: owned_def)
qed

text \<open>
  C4. An event is never dispatched to a connection that is gone, although the channels' handlers hold
  bare pointers: in every run of turns, arrivals and input, when the poll has returned a vector of
  channels, each connection in it is still owned when its turn comes, whatever the handlers before it
  have closed.
\<close>

theorem events_reach_live_connections:
  assumes "fresh_world v" and "run world_step v w" and "reports_once ws"
    and "poll (the_poller w) ws (channels_of w) = Some (Inr (xs @ n # ys, chs, ws'))"
    and "handle_channels os xs (put_channels chs w) = Some (Inr u)" and "n \<noteq> WAKEUP"
  shows "owned (conn_of n u) \<and> handle_channel os n u = on_conn n (http_handle_events os) u"
proof -
  let ?w = "put_channels chs w"
  have inv: "world_ok (pending_functors (lw_loop w)) w"
    using world_sys.reach_inv [OF assms(1,2)] by (simp add: world_inv_def)
  obtain ds where ds: "map (fd_to_channel (the_poller ?w)) ds = map Some (xs @ n # ys)" "distinct ds"
      and slots: "\<And>k. same_slot (channels_of w k) (chs k)"
    using poll_from [OF assms(4,3)] by (auto simp: put_channels_def the_poller_def)
  show ?thesis
    using polled_owned [OF put_channels_ok [OF inv slots] assms(5) ds assms(6)] assms(6)
    by (simp add: handle_channel_def)
qed

theorem events_reach_live_connections_witness:
  "\<exists>w chs. run world_step demo_world w
    \<and> poll (the_poller w) [Ret [(7, EPOLLIN)]] (channels_of w) = Some (Inr ([3], chs, []))
    \<and> owned (conn_of 3 (put_channels chs w))"
proof -
  obtain w where w: "run world_step demo_world w" "fd_to_channel (the_poller w) 7 = Some 3" using demo_registered by metis
  let ?chs = "(channels_of w)(3 := set_events 0 (set_revents EPOLLIN (channels_of w 3)))"
  have "reports_once [Ret [(7, EPOLLIN)]]" by (simp add: reports_once_def wait_events_def)
  moreover have p: "poll (the_poller w) [Ret [(7, EPOLLIN)]] (channels_of w) = Some (Inr ([] @ 3 # [], ?chs, []))"
    using w(2) by (simp add: MAX_FDS_def)
  ultimately have "owned (conn_of 3 (put_channels ?chs w))"
    using events_reach_live_connections [OF demo_fresh_world w(1) _ p, of demo_os] by (simp add: WAKEUP_def)
  with w(1) p show ?thesis by auto
qed

section \<open>The sweep closes idle connections\<close>

text \<open>
  C10. The sweep at the end of a turn does close what has expired, and it always returns: in every run,
  when a queued timer that owns connection \<open>h\<close> has passed at every reading of the clock, then after the
  sweep \<open>h\<close> is disconnected, its descriptor has neither a channel nor a connection in the tables, and
  nothing owns the object any more.
\<close>

theorem sweep_closes_idle_connection:
  assumes "fresh_world v" and "run world_step v w"
    and "t \<in> set (timer_pqueue (the_timers w))" and "owner_of (the_timers w) t = Some h"
    and "\<forall>i. expired_time (timers (the_timers w) t) \<le> int_to_size (clock_ms (clock i))"
  shows "\<exists>w'. sweep_timers os clock w = Some (Inr w') \<and> closed_in h w' \<and> \<not> owned (conn_of h w')"
proof -
  have ok: "world_ok (pending_functors (lw_loop w)) w"
    using world_sys.reach_inv [OF assms(1,2)] by (simp add: world_inv_def)
  obtain closed ep where e: "handle_expired clock (the_poller w) = (closed, ep)" by fastforce
  let ?v = "w\<lparr>lw_loop := (lw_loop w)\<lparr>event_loop.poller := ep\<rparr>\<rparr>"
  note x = expired_ok [OF ok e]
  have gone: "t \<notin> set (timer_pqueue (ep_timers ep))" using x assms(5) by (meson leD)
  then have "h \<in> set closed" using x assms(3,4) by blast
  moreover obtain w' where w': "close_all os closed ?v = Some (Inr w')" "shrinks ?v w'" "\<forall>k \<in> set closed. closed_in k w'"
    using close_all_shrinks [OF conjunct1 [OF x] conjunct1 [OF conjunct2 [OF x]], of os] by blast
  ultimately have cl: "closed_in h w'" by blast
  have "h \<noteq> WAKEUP" using ok assms(3,4) by (auto simp: world_ok_def objects_ok_def)
  then have h: "self (lw_conns w h) = h" "object_ok (conn_of h w)" using ok by (auto simp: world_ok_def objects_ok_def)
  have timers': "the_timers w' = ep_timers ep" and self': "self (lw_conns w' h) = h"
    using w'(2) h(1) by (simp_all add: shrinks_def the_poller_def)
  have "owner_of (ep_timers ep) u \<noteq> Some h" if u: "u \<in> set (timer_pqueue (ep_timers ep))" for u
  proof
    assume "owner_of (ep_timers ep) u = Some h"
    then have "u \<in> set (timer_pqueue (the_timers w))" "owner_of (the_timers w) u = Some h"
      using x u by (auto simp: owner_of_def)
    moreover have "timer (http (lw_conns w h)) = Some s"
      if "s \<in> set (timer_pqueue (the_timers w))" "owner_of (the_timers w) s = Some h" for s
      using that h by (simp add: object_ok_def single_timer_owner)
    ultimately have "Some u = Some t" using assms(3,4) by metis
    then have "u = t" by simp
    then show False using gone u by simp
  qed
  then have "\<not> owned (conn_of h w')"
    using cl self' timers' by (auto simp: owned_def closed_in_def owner_of_def list_ex_iff)
  then show ?thesis using cl w'(1) e by (auto simp: sweep_timers_def)
qed

theorem sweep_closes_idle_connection_witness:
  "\<exists>w w'. run world_step demo_world w \<and> owner_of (the_timers w) 0 = Some 3
    \<and> sweep_timers demo_os (\<lambda>_. (4, 0)) w = Some (Inr w') \<and> closed_in 3 w' \<and> \<not> owned (conn_of 3 w')"
proof -
  obtain w where w: "run world_step demo_world w" "timer_pqueue (the_timers w) = [0]"
      "timers (the_timers w) 0 = new_timer (1, 0) (Some 3) 2000" using demo_registered by metis
  have o: "owner_of (the_timers w) 0 = Some 3" using w(3) by (simp add: owner_of_def new_timer_def)
  have "\<forall>i::nat. expired_time (timers (the_timers w) 0) \<le> int_to_size (clock_ms ((\<lambda>_. (4, 0)) i))"
    using w(3) by (simp add: new_timer_def clock_ms_def int_to_size_def)
  from sweep_closes_idle_connection [OF demo_fresh_world w(1) _ o this, of demo_os] w(2)
  show ?thesis using w(1) o by auto
qed

end
