(* ===== verification/Server_Loops.thy ===== *)
theory Server_Loops
  imports Server Loop_World
begin

text \<open>
  The accepting loop of \<open>Server.cpp\<close> and the event loops together: the loop that never ends queues
  object after object for the one descriptor, in turn in every event loop, and an event loop that
  registers the descriptor twice loses its channel.
\<close>

section \<open>What the loops are given\<close>

text \<open>How many objects for descriptor \<open>d\<close> were queued in \<open>loop\<close>.\<close>

definition queued_for :: "nat \<Rightarrow> nat \<Rightarrow> server_op list \<Rightarrow> nat" where
  "queued_for loop d ops = length (filter (\<lambda>x. x = New_Connection (Some loop) d) ops)"

lemma queued_for_append: "queued_for loop d (xs @ ys) = queued_for loop d xs + queued_for loop d ys"
  by (simp add: queued_for_def)

lemma nodelay_queues_nothing: "queued_for loop d (map Sock xs) = 0"
  by (induction xs) (simp_all add: queued_for_def)

lemma queued_for_one: "queued_for loop d [New_Connection l d] = (if l = Some loop then 1 else 0)"
  by (simp add: queued_for_def)

text \<open>The objects of \<open>n\<close> turns are those of the loops whose turn it is.\<close>

lemma accept_done_queued:
  "pool_ready (srv_pool sv) \<Longrightarrow> 0 < sock \<Longrightarrow> sock < MAXFDS \<Longrightarrow>
   queued_for loop (nat sock) (srv_ops (accept_done sock n sv)) = queued_for loop (nat sock) (srv_ops sv)
     + length (filter (\<lambda>k. lp_loops (srv_pool sv) ! nat ((lp_next (srv_pool sv) + int k) mod lp_num_threads (srv_pool sv))
         = Some loop) [0..<n])"
proof (induction n arbitrary: sv)
  case (Suc n)
  let ?p = "srv_pool sv"
  let ?q = "?p\<lparr>lp_next := (lp_next ?p + 1) mod lp_num_threads ?p\<rparr>"
  let ?l = "lp_loops ?p ! nat (lp_next ?p)"
  let ?sv = "sv\<lparr>srv_pool := ?q, srv_ops := srv_ops sv @ map Sock (set_socket_nodelay (nat sock)) @ [New_Connection ?l (nat sock)]\<rparr>"
  note g = get_next_loop_ready [OF Suc.prems(1)]
  have e: "accept_done sock (Suc n) sv = accept_done sock n ?sv" using g Suc.prems(3) by simp
  have "(lp_next ?p + 1 + int k) mod lp_num_threads ?p = (lp_next ?q + int k) mod lp_num_threads ?q" for k
    by (simp add: mod_simps)
  then have shift: "lp_loops ?q ! nat ((lp_next ?q + int k) mod lp_num_threads ?q)
      = lp_loops ?p ! nat ((lp_next ?p + int (Suc k)) mod lp_num_threads ?p)" for k by (simp add: algebra_simps)
  define P where "P k \<longleftrightarrow> lp_loops ?p ! nat ((lp_next ?p + int k) mod lp_num_threads ?p) = Some loop" for k
  define Q where "Q k \<longleftrightarrow> lp_loops ?q ! nat ((lp_next ?q + int k) mod lp_num_threads ?q) = Some loop" for k
  have "Q = P \<circ> Suc" by (rule ext) (simp only: P_def Q_def shift comp_def)
  moreover have "P 0 \<longleftrightarrow> ?l = Some loop" using Suc.prems(1) by (simp add: P_def pool_ready_def)
  moreover have "filter P [0..<Suc n] = (if P 0 then [0] else []) @ map Suc (filter (P \<circ> Suc) [0..<n])"
    by (simp add: upt_conv_Cons filter_map flip: map_Suc_upt del: upt_Suc)
  ultimately have len: "length (filter P [0..<Suc n]) = (if ?l = Some loop then 1 else 0) + length (filter Q [0..<n])"
    by (simp only: length_append length_map if_distrib [of length] list.size One_nat_def add_0)
  have "queued_for loop (nat sock) (srv_ops ?sv) = queued_for loop (nat sock) (srv_ops sv) + (if ?l = Some loop then 1 else 0)"
    by (simp add: queued_for_append nodelay_queues_nothing queued_for_one)
  moreover have "queued_for loop (nat sock) (srv_ops (accept_done sock n ?sv))
      = queued_for loop (nat sock) (srv_ops ?sv) + length (filter Q [0..<n])"
    using Suc.IH [of ?sv] g Suc.prems unfolding Q_def [abs_def] by simp
  ultimately show ?case using e len unfolding P_def [abs_def] by simp
qed simp

lemma two_rounds_queue_two:
  assumes "pool_ready (srv_pool sv)" and "lp_next (srv_pool sv) = 0" and "0 < sock" and "sock < MAXFDS"
    and "2 * nat (lp_num_threads (srv_pool sv)) \<le> n" and "Some loop \<in> set (lp_loops (srv_pool sv))"
  shows "2 \<le> queued_for loop (nat sock) (srv_ops (accept_done sock n sv))"
proof -
  let ?p = "srv_pool sv" and ?N = "nat (lp_num_threads (srv_pool sv))"
  let ?P = "\<lambda>k. lp_loops ?p ! nat ((lp_next ?p + int k) mod lp_num_threads ?p) = Some loop"
  obtain j where j: "j < ?N" "lp_loops ?p ! j = Some loop"
    using assms(1,6) by (auto simp: pool_ready_def in_set_conv_nth)
  have "nat (int k mod lp_num_threads ?p) = k mod ?N" for k
    using assms(1) by (simp add: pool_ready_def nat_mod_distrib)
  then have P: "?P k = (lp_loops ?p ! (k mod ?N) = Some loop)" for k by (simp only: assms(2) add_0)
  obtain P where P_def: "P = ?P" by blast
  have "P j" "P (?N + j)" unfolding P_def P using j by simp_all
  then have "{j, ?N + j} \<subseteq> {k. k < n \<and> P k}" using j(1) assms(5) by auto
  then have "card {j, ?N + j} \<le> card {k. k < n \<and> P k}" by (intro card_mono) simp_all
  moreover have "{k. k < length [0..<n] \<and> P ([0..<n] ! k)} = {k. k < n \<and> P k}" by auto
  moreover have "card {j, ?N + j} = 2" using j(1) by simp
  ultimately have "2 \<le> length (filter P [0..<n])" unfolding length_filter_conv_card by simp
  then show ?thesis using accept_done_queued [OF assms(1,3,4), of loop n] unfolding P_def by simp
qed

section \<open>Registering a descriptor twice\<close>

text \<open>The kernel accepts a descriptor exactly when it does not hold it yet (otherwise \<open>EEXIST\<close>).\<close>

definition adds_once :: "ctl_kernel \<Rightarrow> bool" where
  "adds_once ctl \<longleftrightarrow> (\<forall>log d ev. ctl log EPOLL_CTL_ADD d ev \<longleftrightarrow> \<not> registered log d)"

lemma new_event_twice:
  assumes "adds_once (os_ctl os)" and "new_event os c = Some (Inr c')"
  shows "registered (ctl_log (connection.poller c')) (ch_fd (chan c))
    \<and> (registered (ctl_log (connection.poller c)) (ch_fd (chan c)) \<longrightarrow> fd_to_channel (connection.poller c') (ch_fd (chan c)) = None)"
  using assms
  by (auto simp: new_event_def add_to_poller_def bind_result_Inr add_fd_in_epoll_def epoll_add_timer_def epoll_ctl_def
    equal_and_update_last_events_def adds_once_def with_events_def set_events_def after_ctl_def with_http_def Let_def
    split: if_splits option.splits prod.splits)

definition deaf :: "nat \<Rightarrow> loop_world \<Rightarrow> bool" where
  "deaf d w \<longleftrightarrow> registered (ctl_log (the_poller w)) d \<and> fd_to_channel (the_poller w) d = None"

lemma call_new_event_twice:
  assumes "adds_once (os_ctl os)" and "call_new_event os (Functor h []) w = Some (Inr w')"
    and "ch_fd (chan (lw_conns w h)) = d"
  shows "registered (ctl_log (the_poller w')) d" "registered (ctl_log (the_poller w)) d \<Longrightarrow> deaf d w'"
    "k \<noteq> h \<Longrightarrow> lw_conns w' k = lw_conns w k"
proof -
  let ?v = "w\<lparr>lw_loop := call_functor (loop_thread (lw_loop w)) (Functor h []) (lw_loop w)\<rparr>"
  obtain c where c: "new_event os (conn_of h ?v) = Some (Inr c)" "w' = put_conn h c ?v"
    using assms(2) by (auto simp: on_conn_Inr)
  have "the_poller ?v = the_poller w" by (simp add: the_poller_def)
  with new_event_twice [OF assms(1) c(1)] assms(3) c(2)
  show "registered (ctl_log (the_poller w')) d" "registered (ctl_log (the_poller w)) d \<Longrightarrow> deaf d w'"
    "k \<noteq> h \<Longrightarrow> lw_conns w' k = lw_conns w k" by (simp_all add: deaf_def)
qed

lemma call_new_events_deaf:
  assumes "adds_once (os_ctl os)"
  shows "call_new_events os (map (\<lambda>h. Functor h []) hs) w = Some (Inr w') \<Longrightarrow> distinct hs \<Longrightarrow>
    \<forall>h \<in> set hs. ch_fd (chan (lw_conns w h)) = d \<Longrightarrow>
    registered (ctl_log (the_poller w)) d \<and> hs \<noteq> [] \<or> deaf d w \<Longrightarrow> deaf d w'"
proof (induction hs arbitrary: w)
  case (Cons h hs)
  obtain v where v: "call_new_event os (Functor h []) w = Some (Inr v)"
      "call_new_events os (map (\<lambda>h. Functor h []) hs) v = Some (Inr w')"
    using Cons.prems(1) by (auto simp: bind_outcome_Some_Inr)
  have d: "ch_fd (chan (lw_conns w h)) = d" using Cons.prems(3) by simp
  note t = call_new_event_twice [OF assms v(1) d]
  have "ch_fd (chan (lw_conns v k)) = d" if "k \<in> set hs" for k
  proof -
    have "k \<noteq> h" using that Cons.prems(2) by auto
    then show ?thesis using t(3) Cons.prems(3) that by simp
  qed
  moreover have "deaf d v" using t(2) Cons.prems(4) by (auto simp: deaf_def)
  ultimately show ?case using Cons.IH [OF v(2)] Cons.prems(2) by simp
qed simp

lemma pending_deaf:
  assumes "adds_once (os_ctl os)" and "pending_functors (lw_loop w) = map (\<lambda>h. Functor h []) hs"
    and "distinct hs" and "\<forall>h \<in> set hs. ch_fd (chan (lw_conns w h)) = d" and "2 \<le> length hs"
    and "pending_new_events os w = Some (Inr w')"
  shows "deaf d w'"
proof -
  obtain h k hs' where hs: "hs = h # k # hs'" using assms(5) by (cases hs; cases "tl hs") auto
  let ?w = "w\<lparr>lw_loop := (lw_loop w)\<lparr>calling_pending_functors := True, pending_functors := []\<rparr>\<rparr>"
  obtain u v where u: "call_new_event os (Functor h []) ?w = Some (Inr u)"
      "call_new_events os (map (\<lambda>h. Functor h []) (k # hs')) u = Some (Inr v)"
      "w' = v\<lparr>lw_loop := (lw_loop v)\<lparr>calling_pending_functors := False\<rparr>\<rparr>"
    using assms(2,6) hs
    by (auto simp: pending_new_events_def swap_functors_def bind_outcome_Some_Inr simp del: call_new_event.simps)
  have "ch_fd (chan (lw_conns ?w h)) = d" using assms(4) hs by simp
  note t = call_new_event_twice [OF assms(1) u(1) this]
  have "ch_fd (chan (lw_conns u j)) = d" if "j \<in> set (k # hs')" for j
  proof -
    have "j \<noteq> h" using that assms(3) hs by auto
    then show ?thesis using t(3) assms(4) hs that by auto
  qed
  then have "deaf d v"
    by (intro call_new_events_deaf [OF assms(1) u(2)]) (use assms(3) hs t(1) in auto)
  then show ?thesis using u(3) by (simp add: deaf_def the_poller_def)
qed

text \<open>
  C16. An accepted connection is never served: the loop that accepts it queues it again and again, and
  from its \<open>2 * num_threads\<close>-th turn on every event loop has at least two objects for the descriptor.
  When an event loop registers them, the kernel refuses the second, and \<open>add_fd_in_epoll\<close> takes the
  channel of the first out of the table: the kernel reports the descriptor, but the poll skips it.
\<close>

theorem accepted_descriptor_goes_deaf:
  assumes "main_setup ctl_ok alive now garbage event_fd tid socket_fd reuse_ok bind_ok listen_ok getfl setfl created opts
      = Some (Inr (l, sv))"
    and "0 < sock" and "sock < MAXFDS" and "2 * nat (opt_threads opts) \<le> n"
    and "Some loop \<in> set (lp_loops (srv_pool sv))"
    and "length hs = queued_for loop (nat sock) (srv_ops (accept_done sock n sv))" and "distinct hs"
    and "pending_functors (lw_loop w) = map (\<lambda>h. Functor h []) hs"
    and "\<forall>h \<in> set hs. ch_fd (chan (lw_conns w h)) = nat sock"
    and "adds_once (os_ctl os)" and "pending_new_events os w = Some (Inr w')"
  shows "2 \<le> length hs \<and> registered (ctl_log (the_poller w')) (nat sock)
    \<and> get_events_request (the_poller w') [(nat sock, ev)] chs = Inr ([], chs)"
proof -
  note ready = main_setup_ready [OF assms(1)]
  have two: "2 \<le> length hs"
    using two_rounds_queue_two [of sv sock n loop] ready assms(2-6) by simp
  then have "deaf (nat sock) w'" using pending_deaf [OF assms(10,8,7,9) _ assms(11)] by blast
  moreover have "nat sock < MAX_FDS" using assms(2,3) by (simp add: MAXFDS_def MAX_FDS_def nat_less_iff)
  ultimately show ?thesis using two by (simp add: deaf_def)
qed

lemma new_event_total:
  "ch_fd (chan c) < MAX_FDS \<Longrightarrow> \<exists>c'. new_event os c = Some (Inr c') \<and> ch_fd (chan c') = ch_fd (chan c)"
  by (auto simp: new_event_def add_to_poller_def add_fd_in_epoll_def equal_and_update_last_events_def with_events_def
    set_events_def after_ctl_def with_http_def Let_def split: prod.splits option.splits)

lemma call_new_events_total:
  "\<forall>k. ch_fd (chan (lw_conns w k)) < MAX_FDS \<Longrightarrow> \<exists>w'. call_new_events os (map (\<lambda>h. Functor h []) hs) w = Some (Inr w')"
proof (induction hs arbitrary: w)
  case (Cons h hs)
  let ?v = "w\<lparr>lw_loop := call_functor (loop_thread (lw_loop w)) (Functor h []) (lw_loop w)\<rparr>"
  obtain c where c: "new_event os (conn_of h ?v) = Some (Inr c)" "ch_fd (chan c) = ch_fd (chan (lw_conns w h))"
    using new_event_total [of "conn_of h ?v" os] Cons.prems by auto
  then have "\<forall>k. ch_fd (chan (lw_conns (put_conn h c ?v) k)) < MAX_FDS" using Cons.prems by simp
  from Cons.IH [OF this] c(1) show ?case by (simp add: on_conn_def)
qed simp

theorem accepted_descriptor_goes_deaf_witness:
  "\<exists>hs w w' loop sv. Some loop \<in> set (lp_loops (srv_pool sv)) \<and> 2 \<le> queued_for loop 7 (srv_ops (accept_done 7 8 sv))
    \<and> pending_functors (lw_loop w) = map (\<lambda>h. Functor h []) hs
    \<and> length hs = queued_for loop 7 (srv_ops (accept_done 7 8 sv))
    \<and> pending_new_events (demo_os\<lparr>os_ctl := (\<lambda>log op d ev. op = EPOLL_CTL_ADD \<and> \<not> registered log d)\<rparr>) w = Some (Inr w')
    \<and> registered (ctl_log (the_poller w')) 7
    \<and> get_events_request (the_poller w') [(7, EPOLLIN)] (channels_of w') = Inr ([], channels_of w')"
proof -
  let ?os = "demo_os\<lparr>os_ctl := (\<lambda>log op d ev. op = EPOLL_CTL_ADD \<and> \<not> registered log d)\<rparr>"
  obtain l sv where sv: "main_setup (\<lambda>_ _ _ _. True) (\<lambda>_. True) (0, 0) 0 5 1 (Some 3) True True True 0 0 (\<lambda>i. Some (i + 20))
      default_options = Some (Inr (l, sv))" using demo_setup by blast
  note ready = main_setup_ready [OF sv]
  have "lp_loops (srv_pool sv) \<noteq> []" "None \<notin> set (lp_loops (srv_pool sv))"
    using ready by (auto simp: pool_ready_def)
  then obtain loop where loop: "Some loop \<in> set (lp_loops (srv_pool sv))" by (metis list.set_sel(1) option.exhaust)
  have two: "2 \<le> queued_for loop (nat 7) (srv_ops (accept_done 7 8 sv))"
    using two_rounds_queue_two [of sv 7 8 loop] ready loop by (simp add: default_options_def MAXFDS_def)
  let ?n = "queued_for loop 7 (srv_ops (accept_done 7 8 sv))"
  let ?hs = "[10..<10 + ?n]"
  let ?w = "\<lparr>lw_loop = demo_loop\<lparr>pending_functors := map (\<lambda>h. Functor h []) ?hs\<rparr>,
    lw_conns = (\<lambda>h. accepted_connection h 7 0 [] [])\<rparr>"
  obtain v where "call_new_events ?os (map (\<lambda>h. Functor h []) ?hs)
      (?w\<lparr>lw_loop := (lw_loop ?w)\<lparr>calling_pending_functors := True, pending_functors := []\<rparr>\<rparr>) = Some (Inr v)"
    using call_new_events_total [of "?w\<lparr>lw_loop := (lw_loop ?w)\<lparr>calling_pending_functors := True, pending_functors := []\<rparr>\<rparr>"]
    by (auto simp: MAX_FDS_def)
  then obtain w' where w': "pending_new_events ?os ?w = Some (Inr w')"
    by (simp add: pending_new_events_def swap_functors_def)
  have "2 \<le> length ?hs \<and> registered (ctl_log (the_poller w')) (nat 7)
    \<and> get_events_request (the_poller w') [(nat 7, EPOLLIN)] (channels_of w') = Inr ([], channels_of w')"
    by (rule accepted_descriptor_goes_deaf [OF sv _ _ _ loop _ _ _ _ _ w', where n = 8 and hs = ?hs])
      (simp_all add: MAXFDS_def default_options_def adds_once_def)
  with two loop w' show ?thesis
    by (intro exI [of _ ?hs] exI [of _ ?w] exI [of _ w'] exI [of _ loop] exI [of _ sv]) simp
qed

end
