(* ===== verification/Http_Segments.thy ===== *)
theory Http_Segments
  imports Http_Lifecycle
begin

text \<open>
  Requests that arrive in pieces: what \<open>parse_URI\<close> makes of a request line whose end is still on the
  way, and what the client is answered.
\<close>

section \<open>Lines the parser accepts\<close>

definition version_at :: "string \<Rightarrow> nat \<Rightarrow> bool" where
  "version_at l i \<longleftrightarrow> take 3 (drop i l) \<in> {''1.0'', ''1.1''}"

lemma parse_version_success:
  assumes "length l < npos" and "parse_version l k h = Inr (PARSE_URI_SUCCESS, h')"
  shows "version_at l 0 \<or> (\<exists>q. k \<le> q \<and> q < length l \<and> l ! q = CHR ''/'' \<and> version_at l (q + 1))"
proof -
  let ?q = "find_char CHR ''/'' l k"
  have found: "take 3 (drop (size_add ?q 1) l) \<in> {''1.0'', ''1.1''}"
    using assms(2) by (auto simp: parse_version_def substr_def Let_def split: if_splits)
  show ?thesis
  proof (cases "?q = npos")
    case True
    then show ?thesis using found by (simp add: version_at_def size_simps)
  next
    case False
    note q = find_char_less [OF False]
    then have "size_add ?q 1 = ?q + 1" using assms(1) npos_less by (simp add: size_add_small)
    then show ?thesis using found q by (auto simp: version_at_def)
  qed
qed

text \<open>A position the search gives up at keeps the version at the start of the line as the only one.\<close>

lemma parse_path_success:
  assumes "length l < npos" and "parse_path l k h = Inr (PARSE_URI_SUCCESS, h')"
  shows "version_at l 0 \<or> (\<exists>s p q. s < p \<and> p < q \<and> q < length l \<and>
    l ! s = CHR ''/'' \<and> l ! p = CHR '' '' \<and> l ! q = CHR ''/'' \<and> version_at l (q + 1))"
proof -
  let ?s = "find_char CHR ''/'' l k"
  let ?p = "find_char CHR '' '' l ?s"
  obtain f where v: "parse_version l ?p (h\<lparr>file_name := f\<rparr>) = Inr (PARSE_URI_SUCCESS, h')"
    using assms(2) by (auto simp: parse_path_def Let_def bind_result_Inr)
  consider (start) "version_at l 0"
    | (there) q where "?p \<le> q" "q < length l" "l ! q = CHR ''/''" "version_at l (q + 1)"
    using parse_version_success [OF assms(1) v] by blast
  then show ?thesis
  proof cases
    case start
    then show ?thesis by simp
  next
    case there
    have p: "?p \<noteq> npos" using there(1,2) assms(1) by linarith
    then have s: "?s \<noteq> npos" using assms(1) by (metis find_char_npos)
    note pf = find_char_less [OF p] and sf = find_char_less [OF s]
    have apart: "l ! a \<noteq> l ! b \<Longrightarrow> a \<noteq> b" for a b by auto
    have "?s \<noteq> ?p" by (rule apart) (simp add: pf sf)
    moreover have "?p \<noteq> q" by (rule apart) (simp add: pf there)
    ultimately show ?thesis using pf sf there
      by (intro disjI2 exI [of _ ?s] exI [of _ ?p] exI [of _ q]) auto
  qed
qed

lemma parse_method_success:
  assumes "length l < npos" and "parse_method l h = Inr (PARSE_URI_SUCCESS, h')"
  shows "version_at l 0 \<or> (\<exists>s p q. s < p \<and> p < q \<and> q < length l \<and>
    l ! s = CHR ''/'' \<and> l ! p = CHR '' '' \<and> l ! q = CHR ''/'' \<and> version_at l (q + 1))"
proof -
  obtain k h1 where "parse_path l k h1 = Inr (PARSE_URI_SUCCESS, h')"
    using assms(2) by (auto simp: parse_method_def Let_def split: if_splits)
  then show ?thesis by (rule parse_path_success [OF assms(1)])
qed

section \<open>A request line without its end\<close>

text \<open>Any buffer without a carriage return that holds no complete request line is an error, and stays.\<close>

lemma parse_URI_incomplete:
  assumes "length (buffer_in h) < npos" "read_cur h = 0" "CR \<notin> set (buffer_in h)" "\<not> version_at (buffer_in h) 0"
    and "\<And>s p q. \<lbrakk>s < p; p < q; q < length (buffer_in h); buffer_in h ! s = CHR ''/'';
      buffer_in h ! p = CHR '' ''; buffer_in h ! q = CHR ''/''\<rbrakk> \<Longrightarrow> \<not> version_at (buffer_in h) (q + 1)"
  shows "\<exists>m f v. parse_URI h = Inr (PARSE_URI_ERROR, h\<lparr>http_method := m, file_name := f, http_version := v\<rparr>)"
proof -
  obtain st m f v where r: "parse_URI h = Inr (st, h\<lparr>buffer_in := buffer_in h, http_method := m, file_name := f,
      http_version := v\<rparr>)" "st \<noteq> PARSE_URI_AGAIN"
    using parse_URI_returns [OF assms(1,2)] assms(3) by auto
  have "st \<noteq> PARSE_URI_SUCCESS"
  proof
    assume "st = PARSE_URI_SUCCESS"
    then have "parse_method (buffer_in h) h = Inr (PARSE_URI_SUCCESS, h\<lparr>buffer_in := buffer_in h, http_method := m,
        file_name := f, http_version := v\<rparr>)"
      using r(1) assms(3) by (simp add: parse_URI_split [OF assms(1,2)])
    from parse_method_success [OF assms(1) this] show False using assms(4,5) by blast
  qed
  then have "st = PARSE_URI_ERROR" using r(2) by (cases st) simp_all
  then show ?thesis using r(1) by auto
qed

text \<open>Where the blanks and slashes of a request line can stand.\<close>

lemma space_of_line:
  assumes "w \<in> {''GET'', ''POST'', ''HEAD''}" "v \<in> {''1.0'', ''1.1''}" "CHR '' '' \<notin> set f"
    and "i < length (request_line w f v)" "request_line w f v ! i = CHR '' ''" "length w < i"
  shows "i = length w + 2 + length f"
proof -
  have "f ! j \<noteq> CHR '' ''" if "j < length f" for j using that assms(3) nth_mem by metis
  then show ?thesis using assms unfolding request_line_def
    by (auto simp: nth_append nth_Cons' split: if_splits)
qed

lemma slash_behind_space:
  assumes "v \<in> {''1.0'', ''1.1''}"
    and "i < length (request_line w f v)" "request_line w f v ! i = CHR ''/''" "length w + 2 + length f < i"
  shows "i = length w + 2 + length f + 5"
  using assms unfolding request_line_def
  by (auto simp: nth_append nth_Cons' split: if_splits)

lemma slash_behind_method:
  assumes "w \<in> {''GET'', ''POST'', ''HEAD''}" "i < length (request_line w f v)" "request_line w f v ! i = CHR ''/''"
  shows "length w < i"
  using assms unfolding request_line_def by (auto simp: nth_append nth_Cons' split: if_splits)

text \<open>A proper beginning of a request line holds no complete request line.\<close>

lemma cut_line_incomplete:
  assumes "w \<in> {''GET'', ''POST'', ''HEAD''}" "v \<in> {''1.0'', ''1.1''}" "CHR '' '' \<notin> set f"
    and "request_line w f v = l @ tl'" "tl' \<noteq> []"
  shows "\<not> version_at l 0"
    and "\<lbrakk>s < p; p < q; q < length l; l ! s = CHR ''/''; l ! p = CHR '' ''; l ! q = CHR ''/''\<rbrakk> \<Longrightarrow>
      \<not> version_at l (q + 1)"
proof -
  let ?line = "request_line w f v"
  have same: "l ! i = ?line ! i" if "i < length l" for i using that assms(4) by (simp add: nth_append)
  have shorter: "length l < length ?line" using assms(4,5) by simp
  show "\<not> version_at l 0"
  proof
    assume "version_at l 0"
    then obtain l' where "l = CHR ''1'' # l'" by (cases l) (auto simp: version_at_def)
    with assms(1,4) show False by (auto simp: request_line_def)
  qed
  assume a: "s < p" "p < q" "q < length l" "l ! s = CHR ''/''" "l ! p = CHR '' ''" "l ! q = CHR ''/''"
  have "length w < s" by (rule slash_behind_method [OF assms(1), of _ f v]) (use a shorter same in auto)
  then have p: "p = length w + 2 + length f"
    by (intro space_of_line [OF assms(1-3)]) (use a shorter same in auto)
  then have "q = length w + 2 + length f + 5"
    by (intro slash_behind_space [OF assms(2)]) (use a shorter same in auto)
  moreover have "length ?line = length w + 2 + length f + 9" using assms(2) by (auto simp: request_line_def)
  ultimately have "length (take 3 (drop (q + 1) l)) \<noteq> 3" using shorter by simp
  then show "\<not> version_at l (q + 1)" unfolding version_at_def by (metis insertE length_Cons list.size(3) numeral_3_eq_3 singletonD)
qed

section \<open>What the client is answered\<close>

lemma stage_uri_rejects:
  assumes "process_state (http c) = STATE_PARSE_URI" "parse_URI (http c) = Inr (PARSE_URI_ERROR, h)"
    and "takes_page 400 ''Bad Request!!!'' (to_write c) ws"
  shows "stage_uri c = Some (Inr (False, c\<lparr>http := h\<lparr>buffer_in := [], is_error := True\<rparr>, to_write := ws,
    sent := sent c @ error_page 400 ''Bad Request!!!''\<rparr>))"
  using assms by (simp add: stage_uri_def bad_request_def handle_error_page [OF fixed_pages_fit(2)] with_http_def)

lemma rejected_line_answer:
  assumes "idle c" "receives l es c" "length l < 2147483648"
    and "parse_URI ((http c)\<lparr>buffer_in := l\<rparr>) = Inr (PARSE_URI_ERROR, h)"
    and "takes_page 400 ''Bad Request!!!'' (to_write c) ws"
  shows "\<exists>c'. handle_read os c = Some (Inr c') \<and> is_error (http c') \<and> buffer_in (http c') = []
     \<and> sent c' = sent c @ error_page 400 ''Bad Request!!!''"
proof -
  let ?c = "c\<lparr>http := (http c)\<lparr>buffer_in := l\<rparr>, to_read := es\<rparr>"
  have "process_state (http ?c) = STATE_PARSE_URI" using assms(1) by (simp add: idle_def Let_def)
  then have "stage_uri ?c = Some (Inr (False, ?c\<lparr>http := h\<lparr>buffer_in := [], is_error := True\<rparr>, to_write := ws,
      sent := sent c @ error_page 400 ''Bad Request!!!''\<rparr>))"
    using stage_uri_rejects [of ?c h ws] assms(4,5) by simp
  then show ?thesis
    by (simp add: handle_read_eq handle_read_body_def stage_receive_idle [OF assms(1-3)])
qed

text \<open>
  C30. A request whose first segment ends anywhere inside its request line is not waited for: it is answered
  with the page for status 400 at once and the connection is in error, whatever follows, when the socket
  takes the header and the body of the page in one write each. The source
  means to return \<open>PARSE_URI_AGAIN\<close>.
\<close>

theorem cut_request_line_rejected:
  assumes "idle c" "receives l es c" "l @ tl' = request_line w f v" "tl' \<noteq> []"
    and "w \<in> {''GET'', ''POST'', ''HEAD''}" "v \<in> {''1.0'', ''1.1''}" "CHR '' '' \<notin> set f" "CR \<notin> set f"
    and "length l < 2147483648" and "takes_page 400 ''Bad Request!!!'' (to_write c) ws"
  shows "\<exists>c'. handle_read os c = Some (Inr c') \<and> is_error (http c') \<and> buffer_in (http c') = []
     \<and> sent c' = sent c @ error_page 400 ''Bad Request!!!''"
proof -
  let ?h = "(http c)\<lparr>buffer_in := l\<rparr>"
  note cut = cut_line_incomplete [OF assms(5-7) assms(3) [symmetric] assms(4)]
  have "CR \<notin> set (request_line w f v)" using assms(5,6,8) by (auto simp: request_line_def CR_def)
  then have no_CR: "CR \<notin> set l" using assms(3) by (metis in_set_conv_decomp append.assoc append_Cons)
  have "\<exists>m f v. parse_URI ?h = Inr (PARSE_URI_ERROR, ?h\<lparr>http_method := m, file_name := f, http_version := v\<rparr>)"
    by (rule parse_URI_incomplete)
      (use assms(1,9) no_CR cut in \<open>simp_all add: idle_def Let_def npos_def size_max_def\<close>)
  then obtain h where h: "parse_URI ?h = Inr (PARSE_URI_ERROR, h)" by blast
  show ?thesis by (rule rejected_line_answer [OF assms(1,2,9) h assms(10)])
qed

theorem cut_request_line_rejected_witness:
  "\<exists>c'. handle_read demo_os (demo_connection ''GET /a.tx''
       [Ret (length (error_header 400 ''Bad Request!!!'')), Ret (length (error_body 400 ''Bad Request!!!''))])
     = Some (Inr c') \<and> is_error (http c') \<and> sent c' = error_page 400 ''Bad Request!!!''"
proof -
  let ?c = "demo_connection ''GET /a.tx''
       [Ret (length (error_header 400 ''Bad Request!!!'')), Ret (length (error_body 400 ''Bad Request!!!''))]"
  have "\<exists>c'. handle_read demo_os ?c = Some (Inr c') \<and> is_error (http c') \<and> buffer_in (http c') = []
     \<and> sent c' = sent ?c @ error_page 400 ''Bad Request!!!''"
    by (rule cut_request_line_rejected [where l = "''GET /a.tx''" and tl' = "''t HTTP/1.1''" and w = "''GET''" and f = "''a.txt''"
          and v = "''1.1''" and es = "[]" and ws = "[]"])
      (simp_all add: demo_idle demo_receives request_line_def CR_def takes_page_def)
  then show ?thesis by auto
qed

end
