(* ===== verification/Logging_Overrun.thy ===== *)
theory Logging_Overrun
  imports Logging
begin

text \<open>
  The log behind its limit: what the thread of \<open>Logging.cpp\<close> does with more than 25 buffers at once. A
  line of more than half a buffer fills a buffer of its own, so 26 of them between two turns are enough.
\<close>

definition wide_line :: "string \<Rightarrow> bool" where
  "wide_line l \<longleftrightarrow> small_buffer div 2 \<le> length l \<and> length l < small_buffer"

definition buffered :: "logging \<Rightarrow> string list" where
  "buffered st = map text_of (buffer_list st) @ [text_of (cur_buffer st)]"

lemma wide_line_length: "wide_line l \<Longrightarrow> 2048 \<le> length l \<and> length l < 4096"
  by (simp add: wide_line_def small_buffer_def)

text \<open>The first line goes into the empty buffer, every other one into a new buffer.\<close>

lemma first_wide_line:
  assumes "logging_inv st" "length garbage = small_buffer" "buffered st = [[]]" "wide_line l"
  shows "\<exists>st'. logging_append garbage st l (int (length l)) = Inr st' \<and> unmoved st st' \<and> logging_inv st' \<and> buffered st' = [l]"
proof -
  have cur: "text_of (cur_buffer st) = []" "buffer_list st = []" using assms(3) by (simp_all add: buffered_def)
  have good: "good_buffer (cur_buffer st)" using assms(1) by (simp add: logging_inv_def)
  have fits: "length (text_of (cur_buffer st)) + length l < small_buffer"
    using cur(1) assms(4) by (simp add: wide_line_def)
  obtain b b' where b: "cur_buffer st = Some b" "get_available_size b > int (length l)"
      "buffer_append b l (int_to_size (int (length l))) = Inr b'" "text_of (Some b') = l"
    using append_short [OF good fits] cur(1) by auto
  have app: "logging_append garbage st l (int (length l)) = Inr (st\<lparr>cur_buffer := Some b'\<rparr>)"
    using b by (simp add: logging_append_def deref_def)
  have "length l < 2 ^ 31" using wide_line_length [OF assms(4)] by simp
  from logging_append_step [OF assms(1,2) this, of 0] app have "unmoved st (st\<lparr>cur_buffer := Some b'\<rparr>)"
      "logging_inv (st\<lparr>cur_buffer := Some b'\<rparr>)" by simp_all
  then show ?thesis using app b(4) cur(2) by (simp add: buffered_def)
qed

lemma next_wide_line:
  assumes "logging_inv st" "length garbage = small_buffer" "wide_line (last (buffered st))" "wide_line l"
  shows "\<exists>st'. logging_append garbage st l (int (length l)) = Inr st' \<and> unmoved st st' \<and> logging_inv st'
    \<and> buffered st' = buffered st @ [l]"
proof -
  have good: "good_buffer (cur_buffer st)" using assms(1) by (simp add: logging_inv_def)
  have len: "length l < 2 ^ 31" using wide_line_length [OF assms(4)] by simp
  have full: "small_buffer \<le> length (text_of (cur_buffer st)) + length l"
    using assms(3,4) by (simp add: buffered_def wide_line_def small_buffer_def)
  obtain b where b: "cur_buffer st = Some b" "\<not> get_available_size b > int (length l)"
    using append_long [OF good full len] by blast
  define p where "p = (if next_buffer st = None then Some (new_log_buffer garbage) else next_buffer st)"
  have "fresh_buffer p" using assms(1,2) fresh_new by (auto simp: p_def logging_inv_def)
  then obtain c c' where c: "p = Some c" "buffer_append c l (int_to_size (int (length l))) = Inr c'"
      "text_of (Some c') = (if length l < small_buffer then l else [])"
    using append_fresh len by blast
  let ?st = "st\<lparr>buffer_list := buffer_list st @ [cur_buffer st], cur_buffer := Some c', next_buffer := None\<rparr>"
  have app: "logging_append garbage st l (int (length l)) = Inr ?st"
    using b c(1,2) by (auto simp: logging_append_def deref_def p_def Let_def split: if_splits)
  from logging_append_step [OF assms(1,2) len, of 0] app have "unmoved st ?st" "logging_inv ?st" by simp_all
  then show ?thesis using app c(3) assms(4) by (simp add: buffered_def wide_line_def)
qed

lemma wide_lines_fill:
  "logging_inv st \<Longrightarrow> length garbage = small_buffer \<Longrightarrow> wide_line (last (buffered st)) \<Longrightarrow> list_all wide_line ls \<Longrightarrow>
   \<exists>st'. logging_run garbage st (map Client ls @ es) = logging_run garbage st' es \<and> unmoved st st' \<and> logging_inv st'
     \<and> buffered st' = buffered st @ ls"
proof (induction ls arbitrary: st)
  case Nil
  then show ?case by (intro exI [of _ st]) (simp add: unmoved_def)
next
  case (Cons l ls)
  then obtain st1 where st1: "logging_append garbage st l (int (length l)) = Inr st1" "unmoved st st1" "logging_inv st1"
      "buffered st1 = buffered st @ [l]"
    using next_wide_line [of st garbage l] by auto
  obtain st2 where "logging_run garbage st1 (map Client ls @ es) = logging_run garbage st2 es" "unmoved st1 st2"
      "logging_inv st2" "buffered st2 = buffered st1 @ ls"
    using Cons.IH [OF st1(3)] Cons.prems(2,4) st1(4) by auto
  then show ?case using st1 by (intro exI [of _ st2]) (simp add: unmoved_def)
qed

text \<open>The first turn of the thread, from its start to the top of its loop.\<close>

lemma first_turn:
  assumes "logging_inv st" "length garbage = small_buffer" "log_running st" "log_phase st = Thread_Begin"
    and "25 < length (buffered st)"
  shows "\<exists>st'. logging_run garbage st [Thread_Step, Thread_Step, Thread_Step] = Inr st'
    \<and> written st' = written st @ concat (take 2 (buffered st)) \<and> in_hand st' = [] \<and> pending st' = []"
proof -
  obtain st1 where begin_step: "thread_begin garbage st = Inr st1" "log_phase st1 = Loop_Top" "log_running st1"
      "buffered st1 = buffered st" "written st1 = written st" "buffer_list st1 = buffer_list st"
      "fresh_buffer (log_buffer1 st1)" "fresh_buffer (log_buffer2 st1)"
    using assms(3) fresh_zeroed [OF assms(2)] by (auto simp: thread_begin_def buffered_def written_def)
  have step1: "thread_func garbage st = Inr st1" using begin_step(1) assms(4) by (simp add: thread_func.simps)
  have inv1: "logging_inv st1"
    using thread_func_step [OF assms(1,2), of 0] assms(3,4) step1 by auto
  have nonempty: "buffer_list st1 \<noteq> []" using assms(5) begin_step(6) by (auto simp: buffered_def)
  have "loop_top st1 = Inr (collect st1)"
    using begin_step nonempty fresh_empty by (simp add: loop_top_def)
  then have step2: "thread_func garbage st1 = Inr (collect st1)" using begin_step(2) by (simp add: thread_func.simps)
  have "waits_first st1" using begin_step(2,7) by (cases "log_buffer1 st1") (auto simp: waits_first_def)
  note c = collect_step [OF inv1 begin_step(7,8) this, of 0]
  define out where "out = buffer_list st1 @ [cur_buffer st1]"
  have out: "map text_of out = buffered st" using begin_step(4) by (simp add: out_def buffered_def)
  then have many: "25 < length out" using assms(5) by (metis length_map)
  have phase: "log_phase (collect st1) = Write_Out out" by (simp add: collect_def Let_def out_def)
  obtain st3 where st3: "write_out (collect st1) out = Inr st3" "log_phase st3 = Loop_Top" "pending st3 = pending (collect st1)"
      "written st3 = written (collect st1) @ concat (map text_of (take 2 out))"
    using write_out_step [of "collect st1" out 0] c phase many by auto
  have step3: "thread_func garbage (collect st1) = Inr st3" using st3(1) phase by (simp add: thread_func.simps)
  have "map text_of (take 2 out) = take 2 (buffered st)" using out by (metis take_map)
  then show ?thesis
    using step1 step2 step3 st3(2-4) c begin_step(5) by (simp add: in_hand_def)
qed

text \<open>
  C29. The log loses lines silently when it falls behind: of any number of wide lines above 25 that are
  passed before the thread's first turn the file gets the first two, and no buffer holds the others.
\<close>

theorem overrun_drops_lines:
  assumes "new_logging garbage answers log_name = Inr st0" and "length garbage = small_buffer" and "0 \<notin> set answers"
    and "list_all wide_line ls" and "25 < length ls"
  shows "\<exists>st. logging_run garbage (logging_start st0) (map Client ls @ [Thread_Step, Thread_Step, Thread_Step]) = Inr st
    \<and> written st = concat (take 2 ls) \<and> in_hand st = [] \<and> pending st = []"
proof -
  note start = started_inv [OF assms(1-3)]
  obtain l ls' where ls: "ls = l # ls'" using assms(5) by (cases ls) auto
  have empty: "buffered (logging_start st0) = [[]]"
    using assms(1) fresh_good [OF fresh_zeroed [OF assms(2)]]
    by (auto simp: new_logging_def logging_start_def buffered_def split: if_splits)
  obtain st1 where st1: "logging_append garbage (logging_start st0) l (int (length l)) = Inr st1"
      "unmoved (logging_start st0) st1" "logging_inv st1" "buffered st1 = [l]"
    using first_wide_line [OF _ assms(2) empty, of l] start assms(4) ls by auto
  obtain st2 where st2: "logging_run garbage st1 (map Client ls' @ [Thread_Step, Thread_Step, Thread_Step])
        = logging_run garbage st2 [Thread_Step, Thread_Step, Thread_Step]"
      "unmoved st1 st2" "logging_inv st2" "buffered st2 = buffered st1 @ ls'"
    using wide_lines_fill [OF st1(3) assms(2), of ls' "[Thread_Step, Thread_Step, Thread_Step]"] st1(4) assms(4) ls
    by (auto simp del: logging_run.simps)
  have "written st2 = []" "log_running st2" "log_phase st2 = Thread_Begin" "buffered st2 = ls"
    using start st1(2,4) st2(2,4) ls by (auto simp: unmoved_def written_def)
  then show ?thesis using first_turn [OF st2(3) assms(2)] st1(1) st2(1) assms(5) ls by simp
qed

theorem overrun_drops_lines_witness:
  "\<exists>st0 st. new_logging (replicate small_buffer CHR ''x'') [] ''log'' = Inr st0
    \<and> logging_run (replicate small_buffer CHR ''x'') (logging_start st0)
        (map Client (replicate 26 (replicate 4000 CHR ''y'')) @ [Thread_Step, Thread_Step, Thread_Step]) = Inr st
    \<and> length (written st) = 8000"
proof -
  obtain st0 where st0: "new_logging (replicate small_buffer CHR ''x'') [] ''log'' = Inr st0"
    by (simp add: new_logging_def)
  have "\<exists>st. logging_run (replicate small_buffer CHR ''x'') (logging_start st0)
        (map Client (replicate 26 (replicate 4000 CHR ''y'')) @ [Thread_Step, Thread_Step, Thread_Step]) = Inr st
      \<and> written st = concat (take 2 (replicate 26 (replicate 4000 CHR ''y''))) \<and> in_hand st = [] \<and> pending st = []"
    by (rule overrun_drops_lines [OF st0]) (simp_all add: list_all_iff wide_line_def small_buffer_def)
  then obtain st where st: "logging_run (replicate small_buffer CHR ''x'') (logging_start st0)
        (map Client (replicate 26 (replicate 4000 CHR ''y'')) @ [Thread_Step, Thread_Step, Thread_Step]) = Inr st"
      "written st = concat (take 2 (replicate 26 (replicate 4000 CHR ''y'')))" by blast
  have "length (written st) = 8000" unfolding st(2) take_replicate by (simp add: numeral_2_eq_2)
  then show ?thesis using st0 st(1) by blast
qed

end
