(* ===== verification/Nanolog_Front.thy ===== *)
theory Nanolog_Front
  imports Prelude
begin

text \<open>
  \<open>include/Nanolog/Nanolog.h\<close>: the classes of format characters and the scan of a format string, as far
  as \<open>get_param_type\<close> is written. The source breaks off behind the flags of the first conversion: the
  model ends there with the position reached. The array holds the characters and the final null; an
  access outside of it is undefined, and so is running off the end of the function.
\<close>

section \<open>Character classes\<close>

definition is_terminal :: "char \<Rightarrow> bool" where
  "is_terminal c \<longleftrightarrow>
     c = CHR ''d'' \<or> c = CHR ''i'' \<or> c = CHR ''u'' \<or> c = CHR ''o'' \<or> c = CHR ''x'' \<or> c = CHR ''X'' \<or>
     c = CHR ''f'' \<or> c = CHR ''F'' \<or> c = CHR ''e'' \<or> c = CHR ''E'' \<or> c = CHR ''g'' \<or> c = CHR ''G'' \<or>
     c = CHR ''a'' \<or> c = CHR ''A'' \<or> c = CHR ''c'' \<or> c = CHR ''p'' \<or> c = CHR ''%'' \<or> c = CHR ''s'' \<or>
     c = CHR ''n''"

definition is_flag :: "char \<Rightarrow> bool" where
  "is_flag c \<longleftrightarrow> c = CHR ''+'' \<or> c = CHR ''-'' \<or> c = CHR ''0'' \<or> c = CHR ''#'' \<or> c = CHR '' ''"

definition is_length :: "char \<Rightarrow> bool" where
  "is_length c \<longleftrightarrow> c = CHR ''h'' \<or> c = CHR ''l'' \<or> c = CHR ''j'' \<or> c = CHR ''z'' \<or> c = CHR ''t'' \<or> c = CHR ''L''"

definition is_digit_char :: "char \<Rightarrow> bool" where
  "is_digit_char c \<longleftrightarrow> of_char CHR ''0'' \<le> (of_char c :: nat) \<and> (of_char c :: nat) \<le> of_char CHR ''9''"

text \<open>No character that ends a conversion can be taken for a flag, a length or a digit.\<close>

lemma classes_disjoint:
  "is_terminal c \<Longrightarrow> \<not> is_flag c \<and> \<not> is_length c \<and> \<not> is_digit_char c"
  by (elim disjE is_terminal_def [THEN iffD1, elim_format]) (simp_all add: is_flag_def is_length_def is_digit_char_def)

lemma null_in_no_class:
  "\<not> is_terminal CHR 0x00 \<and> \<not> is_flag CHR 0x00 \<and> \<not> is_length CHR 0x00 \<and> \<not> is_digit_char CHR 0x00"
  by (simp add: is_terminal_def is_flag_def is_length_def is_digit_char_def)

section \<open>The scan for the first conversion\<close>

definition char_at :: "string \<Rightarrow> nat \<Rightarrow> char result" where
  "char_at arr i = (if i < length arr then Inr (arr ! i) else Inl Undefined_Behaviour)"

text \<open>\<open>while (is_flag(static_format_string[position])) position++\<close>\<close>

function skip_flags :: "string \<Rightarrow> nat \<Rightarrow> nat result" where
  "skip_flags arr i =
     (if \<not> i < length arr then Inl Undefined_Behaviour
      else if is_flag (arr ! i) then skip_flags arr (i + 1) else Inr i)"
  by pat_completeness auto

termination
  by (relation "measure (\<lambda>(arr, i). length arr - i)") auto

declare skip_flags.simps [simp del]

text \<open>
  The loop of \<open>get_param_type\<close> up to where the source ends: the position behind the flags of the
  first conversion, or undefined behaviour when there is none.
\<close>

function scan_conversion :: "string \<Rightarrow> nat \<Rightarrow> nat result" where
  "scan_conversion arr position =
     (if \<not> position < length arr - 1 then Inl Undefined_Behaviour
      else if arr ! position \<noteq> CHR ''%'' then scan_conversion arr (position + 1)
      else
        (case char_at arr (position + 1) of
           Inl f \<Rightarrow> Inl f
         | Inr c \<Rightarrow>
             if c = CHR ''%'' then scan_conversion arr (position + 2)
             else skip_flags arr (position + 1)))"
  by pat_completeness auto

termination
  by (relation "measure (\<lambda>(arr, i). length arr - i)") (auto simp: char_at_def split: if_splits)

declare scan_conversion.simps [simp del]

definition get_param_type_start :: "string \<Rightarrow> nat result" where
  "get_param_type_start arr = scan_conversion arr 0"

section \<open>What the scan finds\<close>

text \<open>A text without conversions: plain characters and doubled percent signs.\<close>

fun literal_text :: "string \<Rightarrow> bool" where
  "literal_text [] = True"
| "literal_text (c # s) =
     (if c = CHR ''%'' then (case s of [] \<Rightarrow> False | d # s' \<Rightarrow> d = CHR ''%'' \<and> literal_text s')
      else literal_text s)"

lemma skip_flags_run:
  assumes "\<forall>x\<in>set fl. is_flag x" "\<not> is_flag c"
  shows "skip_flags (xs @ fl @ c # ys) (length xs) = Inr (length xs + length fl)"
  using assms
proof (induction fl arbitrary: xs)
  case Nil
  then show ?case by (subst skip_flags.simps) simp
next
  case (Cons x fl)
  then show ?case using Cons.IH [of "xs @ [x]"] by (subst skip_flags.simps) simp
qed

lemma scan_skips_literal:
  assumes "literal_text lit" "ys \<noteq> []"
  shows "scan_conversion (xs @ lit @ ys) (length xs) = scan_conversion (xs @ lit @ ys) (length xs + length lit)"
  using assms(1)
proof (induction lit arbitrary: xs rule: literal_text.induct)
  case 1
  then show ?case by simp
next
  case (2 c s)
  show ?case
  proof (cases "c = CHR ''%''")
    case True
    with 2(3) obtain s' where s: "s = CHR ''%'' # s'" "literal_text s'" by (auto split: list.splits)
    have rest: "scan_conversion ((xs @ [c, CHR ''%'']) @ s' @ ys) (length (xs @ [c, CHR ''%''])) =
        scan_conversion ((xs @ [c, CHR ''%'']) @ s' @ ys) (length (xs @ [c, CHR ''%'']) + length s')"
      by (rule 2(1) [OF True s])
    show ?thesis using rest assms(2) True s(1)
      by (subst scan_conversion.simps) (simp add: char_at_def nth_append)
  next
    case False
    then show ?thesis using 2(2) [OF False, of "xs @ [c]"] 2(3) assms(2)
      by (subst scan_conversion.simps) simp
  qed
qed

text \<open>
  The first conversion is found: behind any text of plain characters and doubled percent signs, the
  scan stops right behind the flags of the conversion.
\<close>

theorem scan_finds_conversion:
  assumes "literal_text lit" "\<forall>x\<in>set fl. is_flag x" "\<not> is_flag c" "fl = [] \<longrightarrow> c \<noteq> CHR ''%''"
  shows "get_param_type_start (lit @ CHR ''%'' # fl @ c # rest) = Inr (length lit + 1 + length fl)"
proof -
  let ?arr = "lit @ CHR ''%'' # fl @ c # rest"
  have next_char: "char_at ?arr (length lit + 1) = Inr (hd (fl @ [c]))" "hd (fl @ [c]) \<noteq> CHR ''%''"
    using assms(2-4) by (cases fl; force simp: char_at_def nth_append is_flag_def)+
  have "get_param_type_start ?arr = scan_conversion ?arr (length lit)"
    using scan_skips_literal [OF assms(1), of "CHR ''%'' # fl @ c # rest" "[]"] by (simp add: get_param_type_start_def)
  also have "\<dots> = skip_flags ((lit @ ''%'') @ fl @ c # rest) (length (lit @ ''%''))"
    using next_char by (subst scan_conversion.simps) simp
  also have "\<dots> = Inr (length (lit @ ''%'') + length fl)" by (rule skip_flags_run [OF assms(2,3)])
  finally show ?thesis by simp
qed

text \<open>
  Without a conversion the function runs off its end: no type is returned, the parameter information
  of a plain text is undefined.
\<close>

theorem scan_without_conversion:
  assumes "literal_text lit"
  shows "get_param_type_start (lit @ [CHR 0x00]) = Inl Undefined_Behaviour"
  using scan_skips_literal [OF assms, of "[CHR 0x00]" "[]"]
  by (simp add: get_param_type_start_def scan_conversion.simps [of _ "length lit"])

text \<open>The scan never reads behind the null: the only undefined end is the missing conversion.\<close>

lemma skip_flags_inside:
  assumes "i < length arr" "\<not> is_flag (last arr)"
  shows "\<exists>j. skip_flags arr i = Inr j \<and> j < length arr \<and> \<not> is_flag (arr ! j)"
  using assms
proof (induction arr i rule: skip_flags.induct)
  case (1 arr i)
  have "is_flag (arr ! i) \<Longrightarrow> i + 1 < length arr"
    using 1(2,3) by (metis Suc_eq_plus1 Suc_lessI diff_Suc_1 last_conv_nth list.size(3) not_less_zero)
  with 1 show ?case by (subst (1) skip_flags.simps) auto
qed

lemma scan_inside:
  assumes "arr \<noteq> []" "last arr = CHR 0x00"
  shows "scan_conversion arr i = Inl Undefined_Behaviour \<or>
    (\<exists>j. scan_conversion arr i = Inr j \<and> j < length arr \<and> \<not> is_flag (arr ! j))"
  using assms
proof (induction arr i rule: scan_conversion.induct)
  case (1 arr i)
  have nf: "\<not> is_flag (last arr)" using 1 by (simp add: is_flag_def)
  consider (stop) "\<not> i < length arr - 1" | (plain) "i < length arr - 1" "arr ! i \<noteq> CHR ''%''"
    | (twice) "i < length arr - 1" "arr ! i = CHR ''%''" "arr ! (i + 1) = CHR ''%''"
    | (conv) "i < length arr - 1" "arr ! i = CHR ''%''" "arr ! (i + 1) \<noteq> CHR ''%''" by blast
  then show ?case
  proof cases
    case stop
    then show ?thesis by (subst scan_conversion.simps) simp
  next
    case plain
    then show ?thesis using 1(1) [OF _ plain(2) 1(3,4)] by (subst (1 2) scan_conversion.simps) simp
  next
    case twice
    then have c: "char_at arr (i + 1) = Inr CHR ''%''" by (simp add: char_at_def)
    show ?thesis using 1(2) [OF _ _ c refl 1(3,4)] twice c by (subst (1 2) scan_conversion.simps) simp
  next
    case conv
    then show ?thesis using skip_flags_inside [OF _ nf, of "i + 1"]
      by (subst (1 2) scan_conversion.simps) (auto simp: char_at_def)
  qed
qed

end
