(* ===== verification/Nanolog_Cpu.thy ===== *)
theory Nanolog_Cpu
  imports Prelude
begin

text \<open>
  The wrappers of machine instructions and of the scheduler in \<open>include/Nanolog/NanologUtil.cpp\<close>, and
  the constants of \<open>NanologUtil.h\<close>. What \<open>rdpmc\<close> leaves in its two registers and what the kernel does
  with an affinity request are arguments. A run of instructions is the list of them. \<open>assert\<close> is a
  macro: \<open>ndebug\<close> says whether the unit is compiled with \<open>NDEBUG\<close>, where its argument is not
  evaluated.
\<close>

section \<open>Performance counters\<close>

datatype instruction = Cpuid "32 word" | Rdpmc int | Memory_Barrier

definition rdpmc :: "(int \<Rightarrow> 32 word \<times> 32 word) \<Rightarrow> int \<Rightarrow> instruction list \<times> 64 word" where
  "rdpmc counters ecx =
     (case counters ecx of (a, d) \<Rightarrow> ([Rdpmc ecx], or (ucast a) (push_bit 32 (ucast d))))"

definition serialize :: "instruction list" where
  "serialize = [Cpuid 1]"

definition barrier :: "instruction list" where
  "barrier = [Memory_Barrier]"

definition serial_read_pmc :: "(int \<Rightarrow> 32 word \<times> 32 word) \<Rightarrow> int \<Rightarrow> instruction list \<times> 64 word" where
  "serial_read_pmc counters ecx =
     (case rdpmc counters ecx of (is, ret_val) \<Rightarrow> (serialize @ is @ serialize, ret_val))"

text \<open>
  The value keeps both registers: it is \<open>a + 2^32 * d\<close>, without overlap, and the serialising read
  encloses the reading instruction between two serialising ones.
\<close>

theorem serial_read_pmc_value:
  assumes "counters ecx = (a, d)"
  shows "fst (serial_read_pmc counters ecx) = [Cpuid 1, Rdpmc ecx, Cpuid 1] \<and>
    uint (snd (serial_read_pmc counters ecx)) = uint a + 2 ^ 32 * uint d"
proof -
  let ?v = "or (ucast a) (push_bit 32 (ucast d)) :: 64 word"
  have low: "uint (ucast a :: 64 word) = uint a" by (simp add: unsigned_ucast_eq take_bit_int_eq_self less_le_trans [OF uint_lt2p])
  have small: "2 ^ 32 * uint d < 2 ^ 64" using uint_lt2p [of d] by simp
  have wide: "uint (ucast d :: 64 word) = uint d" by (simp add: unsigned_ucast_eq take_bit_int_eq_self less_le_trans [OF uint_lt2p])
  have high: "uint (push_bit 32 (ucast d) :: 64 word) = push_bit 32 (uint d)"
    unfolding unsigned_push_bit_eq wide using small
    by (simp only: push_bit_eq_mult) (simp add: take_bit_int_eq_self mult.commute)
  have apart: "and (uint a) (push_bit 32 (uint d)) = 0"
    by (rule bit_eqI) (simp add: bit_and_iff bit_push_bit_iff bit_uint_iff)
  have "uint ?v = or (uint a) (push_bit 32 (uint d))"
    by (simp only: unsigned_or_eq low high)
  also have "\<dots> = uint a + push_bit 32 (uint d)"
    using apart by (rule disjunctive_add_eq_or [symmetric])
  finally show ?thesis using assms by (simp add: serial_read_pmc_def rdpmc_def serialize_def push_bit_eq_mult mult.commute)
qed

section \<open>Affinity of the calling thread\<close>

definition CPU_SETSIZE :: nat where
  "CPU_SETSIZE = 1024"

text \<open>\<open>CPU_SET\<close> converts the number to \<open>size_t\<close> and ignores one outside of the set.\<close>

definition CPU_SET :: "int \<Rightarrow> nat set \<Rightarrow> nat set" where
  "CPU_SET cpu cpuset = (if 0 \<le> cpu \<and> cpu < int CPU_SETSIZE then insert (nat cpu) cpuset else cpuset)"

text \<open>
  \<open>sched_setaffinity\<close>: from the affinity of the thread and the request to the new affinity, or
  refused. \<open>sched_getaffinity\<close> reports it or fails.
\<close>

type_synonym set_affinity = "nat set \<Rightarrow> nat set \<Rightarrow> nat set option"

definition set_cpu_affinity :: "bool \<Rightarrow> set_affinity \<Rightarrow> nat set \<Rightarrow> nat set \<Rightarrow> nat set result" where
  "set_cpu_affinity ndebug setaff cpuset now =
     (if ndebug then Inr now
      else case setaff now cpuset of Some new_set \<Rightarrow> Inr new_set | None \<Rightarrow> Inl Assertion_Failed)"

definition pin_thread_to_core :: "bool \<Rightarrow> set_affinity \<Rightarrow> int \<Rightarrow> nat set \<Rightarrow> nat set result" where
  "pin_thread_to_core ndebug setaff core now =
     (if ndebug then Inr now
      else case setaff now (CPU_SET core {}) of Some new_set \<Rightarrow> Inr new_set | None \<Rightarrow> Inl Assertion_Failed)"

definition get_cpu_affinity :: "bool \<Rightarrow> bool \<Rightarrow> nat set \<Rightarrow> nat set result" where
  "get_cpu_affinity ndebug getaff_ok now =
     (if ndebug then Inr {} else if getaff_ok then Inr now else Inl Assertion_Failed)"

text \<open>The kernel calls stand inside of \<open>assert\<close>: with \<open>NDEBUG\<close> no thread is pinned and every affinity reads as empty.\<close>

theorem pinning_needs_assertions:
  "pin_thread_to_core True setaff core now = Inr now \<and> set_cpu_affinity True setaff cpuset now = Inr now \<and>
   get_cpu_affinity True getaff_ok now = Inr {}"
  by (simp add: pin_thread_to_core_def set_cpu_affinity_def get_cpu_affinity_def)

text \<open>
  With assertions a core of the set is requested alone; a negative or too large number makes the
  request empty, which a kernel that refuses an empty request answers with an abort.
\<close>

theorem pin_thread_requests_core:
  assumes "\<And>now. setaff now {} = None"
  shows "pin_thread_to_core False setaff core now =
    (if 0 \<le> core \<and> core < 1024 then set_cpu_affinity False setaff {nat core} now else Inl Assertion_Failed)"
  using assms by (simp add: pin_thread_to_core_def set_cpu_affinity_def CPU_SET_def CPU_SETSIZE_def)

section \<open>Constants and the calling thread\<close>

definition BYTES_PER_CACHE_LINE :: "32 word" where
  "BYTES_PER_CACHE_LINE = 64"

text \<open>The number of elements is a parameter of the array's type.\<close>

definition array_size :: "'a list \<Rightarrow> nat" where
  "array_size arr = length arr"

text \<open>\<open>gettid\<close> of both name spaces: the result of the system call narrowed to \<open>pid_t\<close>.\<close>

definition nanolog_gettid :: "64 word \<Rightarrow> 32 word" where
  "nanolog_gettid r = ucast r"

text \<open>\<open>PERFUTILS_DIE\<close>: two lines on the error stream, then \<open>abort\<close>.\<close>

definition perfutils_die :: "string \<Rightarrow> string \<Rightarrow> string \<Rightarrow> string \<times> unit result" where
  "perfutils_die formatted file_name line_number =
     (formatted @ file_name @ '':'' @ line_number @ [CHR 0x0A], Inl Aborted)"

end
