(* ===== verification/Client_Test.thy ===== *)
theory Client_Test
  imports Http_Segments
begin

text \<open>
  \<open>client_test.cpp\<close>: the program that tries the server with three requests. Its state is the buffer
  the answers are read into, which the three tests share, and what it has printed. Whether \<open>connect\<close>
  succeeds and what \<open>read\<close> finds after the pause are arguments, and so are the first contents of the
  buffer; \<open>write\<close> sends the whole request (its count is overwritten unread). The line \<open>int (flag == -1) return -1\<close> is read as the test it means.
\<close>

section \<open>The program\<close>

record client =
  cl_buffer :: string
  cl_out :: string
  cl_err :: string
  cl_ops :: "sockop list"

text \<open>The statement \<open>flag != O_NONBLOCK\<close> compares and changes nothing.\<close>

definition set_socket_nonblocking :: "nat \<Rightarrow> 32 word \<Rightarrow> 32 word \<Rightarrow> int \<times> sockop list" where
  "set_socket_nonblocking sock getfl setfl =
     (if getfl = - 1 then (- 1, [])
      else if setfl = - 1 then (- 1, [Set_Flags sock getfl]) else (0, [Set_Flags sock getfl]))"

definition new_client :: "string \<Rightarrow> client" where
  "new_client garbage = \<lparr>cl_buffer = garbage[0 := CHR 0x00], cl_out = [], cl_err = [], cl_ops = []\<rparr>"

definition print_out :: "string \<Rightarrow> client \<Rightarrow> client" where
  "print_out s c = c\<lparr>cl_out := cl_out c @ s\<rparr>"

text \<open>\<open>read(socket_fd, buffer, 4096)\<close>: the count and the buffer.\<close>

definition read_answer :: "string sysres \<Rightarrow> client \<Rightarrow> (int \<times> client) result" where
  "read_answer r c =
     (case r of
        Err e \<Rightarrow> Inr (- 1, c)
      | Ret bs \<Rightarrow> bind_result (mem_write (cl_buffer c) 0 bs) (\<lambda>m. Inr (int (length bs), c\<lparr>cl_buffer := m\<rparr>)))"

text \<open>\<open>printf("%s", buffer)\<close> reads up to a null, which nobody writes behind the answer.\<close>

definition print_buffer :: "client \<Rightarrow> client result" where
  "print_buffer c =
     (if CHR 0x00 \<in> set (cl_buffer c)
      then Inr (print_out (takeWhile (\<lambda>x. x \<noteq> CHR 0x00) (cl_buffer c)) c)
      else Inl Undefined_Behaviour)"

text \<open>What a test finds: the connection, the flags of its socket, and the answer read.\<close>

record trial =
  tr_fd :: nat
  tr_connected :: bool
  tr_getfl :: "32 word"
  tr_setfl :: "32 word"
  tr_answer :: "string \<Rightarrow> string sysres"

definition one_test :: "string \<Rightarrow> string \<Rightarrow> string \<Rightarrow> string \<Rightarrow> trial \<Rightarrow> client \<Rightarrow> client result" where
  "one_test title count_label failure p t c =
     (if tr_connected t then
        (let c = c\<lparr>cl_ops := cl_ops c @ snd (set_socket_nonblocking (tr_fd t) (tr_getfl t) (tr_setfl t))\<rparr>;
             c = print_out (title @ [LF]) c;
             c = print_out (''strlen(p) = '' @ to_string (int (length p)) @ [LF]) c in
         bind_result (read_answer (tr_answer t p) c) (\<lambda>(n, c).
           bind_result (print_buffer (print_out (count_label @ to_string n @ [LF]) c)) (\<lambda>c.
             Inr (c\<lparr>cl_ops := cl_ops c @ [Close (tr_fd t)]\<rparr>))))
      else Inr (c\<lparr>cl_err := cl_err c @ failure\<rparr>))"

definition request_1 :: string where
  "request_1 = '' ''"

definition request_2 :: string where
  "request_2 = ''GET HTTP/1.1''"

definition request_3 :: string where
  "request_3 = ''GET / HTTP/1.1'' @ [CR, LF] @ ''Host: 192.168.0.1:8888'' @ [CR, LF]
     @ ''Content-Type: application/x-www-form-urlencoded'' @ [CR, LF] @ ''Connection: Keep-Alive'' @ [CR, LF, CR, LF]"

definition client_main :: "string \<Rightarrow> trial \<Rightarrow> trial \<Rightarrow> trial \<Rightarrow> client result" where
  "client_main garbage t1 t2 t3 =
     bind_result (one_test ''Test 1:'' ''n='' ''Test 1 is failed!!!'' request_1 t1 (new_client garbage)) (\<lambda>c.
       bind_result (one_test ''Test 2:'' ''n='' ''Test 2 is failed!!!'' request_2 t2 c) (\<lambda>c.
         one_test ''3:'' ''n = '' ''Test 3 is failed!!!'' request_3 t3 c))"

section \<open>The sockets stay blocking\<close>

text \<open>Unlike the server's \<open>set_socket_nonblock\<close> the function never requests \<open>O_NONBLOCK\<close>.\<close>

lemma client_socket_blocks:
  "set_socket_nonblocking sock getfl setfl = (r, ops) \<Longrightarrow> Set_Flags sock' flags \<in> set ops \<Longrightarrow> flags = getfl"
  by (auto simp: set_socket_nonblocking_def split: if_splits)

section \<open>One test\<close>

definition overlaid :: "string \<Rightarrow> string \<Rightarrow> string" where
  "overlaid bs mem = bs @ drop (length bs) mem"

definition report :: "string \<Rightarrow> string \<Rightarrow> string \<Rightarrow> string \<Rightarrow> string" where
  "report title p count_label answer =
     title @ [LF] @ ''strlen(p) = '' @ to_string (int (length p)) @ [LF] @
     count_label @ to_string (int (length answer)) @ [LF] @ answer"

lemma one_test_prints:
  assumes "tr_connected t" "tr_answer t p = Ret bs" "length bs \<le> length (cl_buffer c)"
    and "CHR 0x00 \<in> set (overlaid bs (cl_buffer c))"
    and "takeWhile (\<lambda>x. x \<noteq> CHR 0x00) (overlaid bs (cl_buffer c)) = bs @ left_over"
  shows "\<exists>c'. one_test title count_label failure p t c = Inr c' \<and> cl_buffer c' = overlaid bs (cl_buffer c) \<and>
    cl_err c' = cl_err c \<and> cl_out c' = cl_out c @ report title p count_label bs @ left_over"
  using assms
  by (simp add: one_test_def Let_def read_answer_def mem_write_def print_buffer_def print_out_def overlaid_def report_def)

lemma takeWhile_overlaid:
  "CHR 0x00 \<notin> set bs \<Longrightarrow> takeWhile (\<lambda>x. x \<noteq> CHR 0x00) (overlaid bs mem) =
     bs @ takeWhile (\<lambda>x. x \<noteq> CHR 0x00) (drop (length bs) mem)"
  unfolding overlaid_def by (rule takeWhile_append2) auto

section \<open>The server's side\<close>

text \<open>What the server writes on a connection on which the request has arrived.\<close>

definition serve :: "os \<Rightarrow> connection \<Rightarrow> string" where
  "serve os c =
     (case handle_read os c of Some (Inr c') \<Rightarrow> drop (length (sent c)) (sent c') | _ \<Rightarrow> [])"

lemma serve_sent: "handle_read os c = Some (Inr c') \<Longrightarrow> sent c' = sent c @ bs \<Longrightarrow> serve os c = bs"
  by (simp add: serve_def)

lemma first_requests_rejected:
  assumes "read_cur h = 0"
  shows "\<exists>h'. parse_URI (h\<lparr>buffer_in := request_1\<rparr>) = Inr (PARSE_URI_ERROR, h')"
    and "\<exists>h'. parse_URI (h\<lparr>buffer_in := request_2\<rparr>) = Inr (PARSE_URI_ERROR, h')"
proof -
  have "\<exists>m f v. parse_URI (h\<lparr>buffer_in := request_1\<rparr>) = Inr (PARSE_URI_ERROR,
      h\<lparr>buffer_in := request_1, http_method := m, file_name := f, http_version := v\<rparr>)"
    using parse_URI_incomplete [of "h\<lparr>buffer_in := request_1\<rparr>"] assms
    by (simp add: request_1_def CR_def npos_def size_max_def version_at_def)
  then show "\<exists>h'. parse_URI (h\<lparr>buffer_in := request_1\<rparr>) = Inr (PARSE_URI_ERROR, h')" by blast
  have no_path: "request_2 ! s = CHR ''/'' \<Longrightarrow> s < p \<Longrightarrow> p < length request_2 \<Longrightarrow> request_2 ! p \<noteq> CHR '' ''" for s p
    by (auto simp: request_2_def nth_Cons' split: if_splits)
  have "\<exists>m f v. parse_URI (h\<lparr>buffer_in := request_2\<rparr>) = Inr (PARSE_URI_ERROR,
      h\<lparr>buffer_in := request_2, http_method := m, file_name := f, http_version := v\<rparr>)"
    by (rule parse_URI_incomplete [of "h\<lparr>buffer_in := request_2\<rparr>", simplified])
      (use assms no_path in \<open>auto simp: request_2_def CR_def npos_def size_max_def version_at_def\<close>)
  then show "\<exists>h'. parse_URI (h\<lparr>buffer_in := request_2\<rparr>) = Inr (PARSE_URI_ERROR, h')" by blast
qed

definition client_headers :: "(string \<times> string) list" where
  "client_headers = [(''Host'', ''192.168.0.1:8888''), (''Content-Type'', ''application/x-www-form-urlencoded''),
     (''Connection'', ''Keep-Alive'')]"

lemma request_3_well_formed:
  "request_3 = request_text ''GET'' [] (version_word HTTP_11) client_headers []"
  "ok_request METHOD_GET [] HTTP_11 client_headers []"
  by (simp_all add: request_3_def request_text_def request_line_def client_headers_def render_header_def
      ok_request_def ok_header_def key_char_def skip_r_def CR_def LF_def)

text \<open>A fresh connection on which a request of the client has arrived, whose socket takes the answer.\<close>

definition arrived :: "string \<Rightarrow> nat list \<Rightarrow> connection \<Rightarrow> bool" where
  "arrived p counts c \<longleftrightarrow> idle c \<and> receives p [] c \<and> to_write c = map Ret counts"

definition page_counts :: "nat list" where
  "page_counts = [length (error_header 400 ''Bad Request!!!''), length (error_body 400 ''Bad Request!!!'')]"

lemma page_length: "length (error_page 400 ''Bad Request!!!'') = 262"
  by code_simp

lemma serve_rejected:
  assumes "p \<in> {request_1, request_2}" "arrived p page_counts c"
  shows "serve os c = error_page 400 ''Bad Request!!!''"
proof -
  have rc: "read_cur (http c) = 0" "idle c" using assms(2) by (simp_all add: arrived_def idle_def Let_def)
  obtain h where h: "parse_URI ((http c)\<lparr>buffer_in := p\<rparr>) = Inr (PARSE_URI_ERROR, h)"
    using first_requests_rejected [OF rc(1)] assms(1) by blast
  have small: "length p < 2147483648" using assms(1) by (auto simp: request_1_def request_2_def)
  have "takes_page 400 ''Bad Request!!!'' (to_write c) []" using assms(2) by (simp add: arrived_def takes_page_def page_counts_def)
  from rejected_line_answer [OF rc(2) _ small h this, of "[]"] show ?thesis
    using assms(2) serve_sent unfolding arrived_def by blast
qed

lemma serve_index:
  assumes "arrived request_3 [length content] c"
    and "fs_stat os ''index.html'' = Some n" "fs_open os ''index.html''" "fs_mmap os ''index.html'' n = Some content"
    and "content \<noteq> []" "length content < 2147483648"
  shows "serve os c = content"
proof -
  have req_text: "request_text ''GET'' [] (version_word HTTP_11) client_headers [] = request_3"
    by (rule request_3_well_formed(1) [symmetric])
  have "\<exists>c'. handle_read os c = Some (Inr c') \<and> sent c' = sent c @ content \<and> idle c'
     \<and> chan c' = chan c \<and> self c' = self c \<and> (single_timer c \<longrightarrow> single_timer c')"
    by (rule get_file_whole [OF _ request_3_well_formed(2), unfolded req_text, where es = "[]" and n = n
          and m = "int (length content)" and out = content and ws = "[]"])
      (use assms writen_all [OF assms(5,6), of "[]"] in \<open>simp_all add: arrived_def target_file_def c_str_def\<close>)
  then show ?thesis using serve_sent by blast
qed

section \<open>The whole run\<close>

definition asks :: "os \<Rightarrow> trial \<Rightarrow> string \<Rightarrow> connection \<Rightarrow> bool" where
  "asks os t p c \<longleftrightarrow> tr_connected t \<and> tr_answer t p = Ret (serve os c)"

lemma drop_page_tail:
  assumes "length content \<le> length page" "CHR 0x00 \<notin> set page"
  shows "takeWhile (\<lambda>x. x \<noteq> CHR 0x00) (drop (length content) (page @ rest)) =
    drop (length content) page @ takeWhile (\<lambda>x. x \<noteq> CHR 0x00) rest"
proof -
  have "drop (length content) (page @ rest) = drop (length content) page @ rest" using assms(1) by simp
  moreover have "takeWhile (\<lambda>x. x \<noteq> CHR 0x00) (drop (length content) page @ rest) =
      drop (length content) page @ takeWhile (\<lambda>x. x \<noteq> CHR 0x00) rest"
    by (rule takeWhile_append2) (use assms(2) in_set_dropD in fast)
  ultimately show ?thesis by simp
qed

lemma null_survives: "CHR 0x00 \<in> set (drop n mem) \<Longrightarrow> length bs \<le> n \<Longrightarrow> CHR 0x00 \<in> set (overlaid bs mem)"
  unfolding overlaid_def by (metis UnI2 in_set_dropD le_add_diff_inverse2 drop_drop set_append)

lemma page_test:
  assumes "p \<in> {request_1, request_2}" "arrived p page_counts c" "asks os t p c"
    and "length (cl_buffer d) = 4096" "CHR 0x00 \<in> set (drop 262 (cl_buffer d))"
  shows "\<exists>d'. one_test title count_label failure p t d = Inr d' \<and> cl_err d' = cl_err d \<and>
    cl_buffer d' = error_page 400 ''Bad Request!!!'' @ drop 262 (cl_buffer d) \<and>
    cl_out d' = cl_out d @ report title p count_label (error_page 400 ''Bad Request!!!'') @
      takeWhile (\<lambda>x. x \<noteq> CHR 0x00) (drop 262 (cl_buffer d))"
proof -
  define page where "page = error_page 400 ''Bad Request!!!''"
  have pl: "length page = 262" unfolding page_def by (rule page_length)
  have np: "CHR 0x00 \<notin> set page" using fixed_pages_fit(2) unfolding page_def page_fits_def by blast
  have ans: "tr_answer t p = Ret page" "tr_connected t"
    using assms(3) serve_rejected [OF assms(1,2)] by (simp_all add: asks_def page_def)
  have "CHR 0x00 \<in> set (overlaid page (cl_buffer d))" by (rule null_survives [OF assms(5)]) (simp add: pl)
  from one_test_prints [OF ans(2,1) _ this takeWhile_overlaid [OF np], where title = title and count_label = count_label and failure = failure] show ?thesis
    unfolding page_def [symmetric] using pl assms(4) by (auto simp: overlaid_def [of page])
qed

lemma index_test:
  assumes "arrived request_3 [length content] c" "asks os t request_3 c"
    and "fs_stat os ''index.html'' = Some n" "fs_open os ''index.html''" "fs_mmap os ''index.html'' n = Some content"
    and "content \<noteq> []" "length content \<le> length page" "CHR 0x00 \<notin> set content"
    and "cl_buffer d = page @ rest" "CHR 0x00 \<notin> set page" "CHR 0x00 \<in> set rest" "length page < 2147483648"
  shows "\<exists>d'. one_test title count_label failure request_3 t d = Inr d' \<and> cl_err d' = cl_err d \<and>
    cl_out d' = cl_out d @ report title request_3 count_label content @ drop (length content) page @
      takeWhile (\<lambda>x. x \<noteq> CHR 0x00) rest"
proof -
  have "tr_answer t request_3 = Ret content" "tr_connected t"
    using assms(2) serve_index [OF assms(1,3-6)] assms(7,12) by (simp_all add: asks_def)
  note t = this
  have "CHR 0x00 \<in> set (overlaid content (cl_buffer d))" using assms(7,9,11) by (simp add: overlaid_def)
  from one_test_prints [OF t(2,1) _ this takeWhile_overlaid [OF assms(8)], where title = title and count_label = count_label and failure = failure] show ?thesis
    using assms(7,9) drop_page_tail [OF assms(7,10)] by auto
qed

definition index_os :: os where
  "index_os = demo_os\<lparr>fs_stat := (\<lambda>name. if name = ''index.html'' then Some 2 else None)\<rparr>"

text \<open>
  C40. The three tests against the server, when every answer is written and read whole and the file has at
  most the 262 bytes of the page for status 400. The first two are answered with the page for status 400, the
  third with the file alone, and its report ends in the rest of the page of the second test: nobody
  terminates what is read, and the tests share the buffer. Each report goes on with what the memory
  held behind the answer up to its first null, without which printing is undefined.
\<close>

theorem client_run_prints:
  assumes "arrived request_1 page_counts c1" "arrived request_2 page_counts c2" "arrived request_3 [length content] c3"
    and "fs_stat os ''index.html'' = Some n" "fs_open os ''index.html''" "fs_mmap os ''index.html'' n = Some content"
    and "content \<noteq> []" "length content \<le> 262" "CHR 0x00 \<notin> set content"
    and "asks os t1 request_1 c1" "asks os t2 request_2 c2" "asks os t3 request_3 c3"
    and "length garbage = 4096" "CHR 0x00 \<in> set (drop 262 garbage)"
  shows "\<exists>c page tail_text. client_main garbage t1 t2 t3 = Inr c \<and> cl_err c = [] \<and>
    page = error_page 400 ''Bad Request!!!'' \<and> tail_text = takeWhile (\<lambda>x. x \<noteq> CHR 0x00) (drop 262 garbage) \<and>
    cl_out c = report ''Test 1:'' request_1 ''n='' page @ tail_text @ report ''Test 2:'' request_2 ''n='' page @ tail_text @
      report ''3:'' request_3 ''n = '' content @ drop (length content) page @ tail_text"
proof -
  define page where "page = error_page 400 ''Bad Request!!!''"
  let ?c0 = "new_client garbage" and ?t = "takeWhile (\<lambda>x. x \<noteq> CHR 0x00) (drop 262 garbage)"
  have pl: "length page = 262" unfolding page_def by (rule page_length)
  have np: "CHR 0x00 \<notin> set page" using fixed_pages_fit(2) unfolding page_def page_fits_def by blast
  have c0: "length (cl_buffer ?c0) = 4096" "drop 262 (cl_buffer ?c0) = drop 262 garbage" "cl_err ?c0 = []" "cl_out ?c0 = []"
    using assms(13) by (simp_all add: new_client_def)
  obtain d1 where d1: "one_test ''Test 1:'' ''n='' ''Test 1 is failed!!!'' request_1 t1 ?c0 = Inr d1" "cl_err d1 = []"
      "cl_buffer d1 = page @ drop 262 garbage" "cl_out d1 = report ''Test 1:'' request_1 ''n='' page @ ?t"
    using page_test [OF _ assms(1,10) c0(1), where title = "''Test 1:''" and count_label = "''n=''" and failure = "''Test 1 is failed!!!''"] assms(14) unfolding page_def [symmetric] c0 by auto
  have b1: "length (cl_buffer d1) = 4096" "drop 262 (cl_buffer d1) = drop 262 garbage"
    using d1(3) pl assms(13) by simp_all
  obtain d2 where d2: "one_test ''Test 2:'' ''n='' ''Test 2 is failed!!!'' request_2 t2 d1 = Inr d2" "cl_err d2 = []"
      "cl_buffer d2 = page @ drop 262 garbage" "cl_out d2 = cl_out d1 @ report ''Test 2:'' request_2 ''n='' page @ ?t"
    using page_test [OF _ assms(2,11) b1(1), where title = "''Test 2:''" and count_label = "''n=''" and failure = "''Test 2 is failed!!!''"] assms(14)
    unfolding page_def [symmetric] b1 d1(2) by auto
  obtain d3 where "one_test ''3:'' ''n = '' ''Test 3 is failed!!!'' request_3 t3 d2 = Inr d3" "cl_err d3 = []"
      "cl_out d3 = cl_out d2 @ report ''3:'' request_3 ''n = '' content @ drop (length content) page @ ?t"
    using index_test [OF assms(3,12,4-7) _ assms(9) d2(3) np assms(14), where title = "''3:''" and count_label = "''n = ''" and failure = "''Test 3 is failed!!!''"] pl assms(8) d2(2) by auto
  then show ?thesis using d1(1,4) d2(1,4)
    by (intro exI [of _ d3] exI [of _ page] exI [of _ ?t]) (simp add: client_main_def page_def)
qed

definition demo_trial :: "connection \<Rightarrow> trial" where
  "demo_trial c = \<lparr>tr_fd = 5, tr_connected = True, tr_getfl = 2, tr_setfl = 0, tr_answer = (\<lambda>p. Ret (serve index_os c))\<rparr>"

theorem client_run_prints_witness:
  "\<exists>c page. client_main (replicate 4096 (CHR 0x00))
       (demo_trial (demo_connection request_1 (map Ret page_counts)))
       (demo_trial (demo_connection request_2 (map Ret page_counts)))
       (demo_trial (demo_connection request_3 [Ret 2])) = Inr c \<and> cl_err c = [] \<and>
     page = error_page 400 ''Bad Request!!!'' \<and>
     cl_out c = report ''Test 1:'' request_1 ''n='' page @ report ''Test 2:'' request_2 ''n='' page @
       report ''3:'' request_3 ''n = '' ''xx'' @ drop 2 page"
proof -
  let ?c1 = "demo_connection request_1 (map Ret page_counts)"
  let ?c2 = "demo_connection request_2 (map Ret page_counts)"
  let ?c3 = "demo_connection request_3 [Ret 2]"
  have arr: "arrived request_1 page_counts ?c1" "arrived request_2 page_counts ?c2" "arrived request_3 [length ''xx''] ?c3"
    by (simp_all add: arrived_def demo_idle demo_receives request_1_def request_2_def request_3_def numeral_2_eq_2)
  have tail0: "takeWhile (\<lambda>x. x \<noteq> CHR 0x00) (drop 262 (replicate 4096 (CHR 0x00))) = []" by simp
  have len2: "length ''xx'' = 2" by simp
  have "\<exists>c page tail_text. client_main (replicate 4096 (CHR 0x00)) (demo_trial ?c1) (demo_trial ?c2) (demo_trial ?c3) = Inr c \<and>
    cl_err c = [] \<and> page = error_page 400 ''Bad Request!!!'' \<and>
    tail_text = takeWhile (\<lambda>x. x \<noteq> CHR 0x00) (drop 262 (replicate 4096 (CHR 0x00))) \<and>
    cl_out c = report ''Test 1:'' request_1 ''n='' page @ tail_text @ report ''Test 2:'' request_2 ''n='' page @ tail_text @
      report ''3:'' request_3 ''n = '' ''xx'' @ drop (length ''xx'') page @ tail_text"
    by (rule client_run_prints [OF arr, where os = index_os and n = 2])
      (simp_all add: index_os_def demo_os_def asks_def demo_trial_def numeral_2_eq_2)
  then show ?thesis unfolding tail0 len2 by auto
qed

end
