(* ===== verification/Loop_Handshake.thy ===== *)
theory Loop_Handshake
  imports Mutex Event_Loop_Threads
begin

text \<open>
  \<open>EventLoopThread.cpp\<close> statement by statement: the owner in \<open>start_loop\<close> and in the destructor, the
  thread in \<open>thread_func\<close>, over the mutex and the condition variable. \<open>Event_Loop_Threads\<close> has the
  handshake as one step; here it is proved that every interleaving gives that result. The owner is
  thread 0, the loop thread is thread 1. The new thread exists when the run starts: \<open>Thread::start\<close> has
  succeeded. Of the loop only the flag \<open>quit_\<close> is kept; nobody but the owner has its address.
\<close>

section \<open>The two threads\<close>

datatype owner_pc =
    Start_Lock | Start_Test | Start_Sleep | Start_Asleep | Start_Unlock | Start_Return
  | Has_Loop "nat option"
  | Destroy_Test | Destroy_Quit | Destroy_Join | Destroyed | Null_Pointer

datatype child_pc =
    Make_Loop | Publish_Lock | Publish_Set | Publish_Notify | Publish_Unlock
  | Enter_Loop | Looping | Clear_Loop | Gone

record handshake =
  hs_mutex :: mutex
  hs_cond :: condition
  hs_loop :: "nat option"
  hs_quit :: bool
  hs_this :: nat
  hs_owner :: owner_pc
  hs_child :: child_pc

definition new_handshake :: "nat \<Rightarrow> handshake" where
  "new_handshake k =
     \<lparr>hs_mutex = new_mutex, hs_cond = new_condition, hs_loop = None, hs_quit = False, hs_this = k,
      hs_owner = Start_Lock, hs_child = Make_Loop\<rparr>"

inductive owner_step :: "handshake \<Rightarrow> handshake \<Rightarrow> bool" where
  start_lock: "hs_owner s = Start_Lock \<Longrightarrow> mutex_lock 0 (hs_mutex s) = Some (Inr m) \<Longrightarrow>
    owner_step s (s\<lparr>hs_mutex := m, hs_owner := Start_Test\<rparr>)"
| start_wait: "hs_owner s = Start_Test \<Longrightarrow> hs_loop s = None \<Longrightarrow> owner_step s (s\<lparr>hs_owner := Start_Sleep\<rparr>)"
| start_have: "hs_owner s = Start_Test \<Longrightarrow> hs_loop s \<noteq> None \<Longrightarrow> owner_step s (s\<lparr>hs_owner := Start_Unlock\<rparr>)"
| start_sleep: "hs_owner s = Start_Sleep \<Longrightarrow> cond_wait 0 (hs_mutex s, hs_cond s) = Inr (m, c) \<Longrightarrow>
    owner_step s (s\<lparr>hs_mutex := m, hs_cond := c, hs_owner := Start_Asleep\<rparr>)"
| start_spurious: "0 \<in> set (c_sleeping (hs_cond s)) \<Longrightarrow> owner_step s (s\<lparr>hs_cond := wake_thread 0 (hs_cond s)\<rparr>)"
| start_back: "hs_owner s = Start_Asleep \<Longrightarrow> cond_return 0 (hs_mutex s, hs_cond s) = Some (Inr (m, c)) \<Longrightarrow>
    owner_step s (s\<lparr>hs_mutex := m, hs_cond := c, hs_owner := Start_Test\<rparr>)"
| start_unlock: "hs_owner s = Start_Unlock \<Longrightarrow> mutex_unlock 0 (hs_mutex s) = Inr m \<Longrightarrow>
    owner_step s (s\<lparr>hs_mutex := m, hs_owner := Start_Return\<rparr>)"
| start_return: "hs_owner s = Start_Return \<Longrightarrow> owner_step s (s\<lparr>hs_owner := Has_Loop (hs_loop s)\<rparr>)"
| destroy: "hs_owner s = Has_Loop l \<Longrightarrow> owner_step s (s\<lparr>hs_owner := Destroy_Test\<rparr>)"
| destroy_none: "hs_owner s = Destroy_Test \<Longrightarrow> hs_loop s = None \<Longrightarrow> owner_step s (s\<lparr>hs_owner := Destroyed\<rparr>)"
| destroy_some: "hs_owner s = Destroy_Test \<Longrightarrow> hs_loop s \<noteq> None \<Longrightarrow> owner_step s (s\<lparr>hs_owner := Destroy_Quit\<rparr>)"
| destroy_quit: "hs_owner s = Destroy_Quit \<Longrightarrow> hs_loop s \<noteq> None \<Longrightarrow>
    owner_step s (s\<lparr>hs_quit := True, hs_owner := Destroy_Join\<rparr>)"
| destroy_null: "hs_owner s = Destroy_Quit \<Longrightarrow> hs_loop s = None \<Longrightarrow> owner_step s (s\<lparr>hs_owner := Null_Pointer\<rparr>)"
| destroy_join: "hs_owner s = Destroy_Join \<Longrightarrow> hs_child s = Gone \<Longrightarrow> owner_step s (s\<lparr>hs_owner := Destroyed\<rparr>)"

text \<open>\<open>loop\<close> clears \<open>quit_\<close> when it is entered and returns when it finds it set.\<close>

inductive child_step :: "handshake \<Rightarrow> handshake \<Rightarrow> bool" where
  make_loop: "hs_child s = Make_Loop \<Longrightarrow> child_step s (s\<lparr>hs_child := Publish_Lock\<rparr>)"
| publish_lock: "hs_child s = Publish_Lock \<Longrightarrow> mutex_lock 1 (hs_mutex s) = Some (Inr m) \<Longrightarrow>
    child_step s (s\<lparr>hs_mutex := m, hs_child := Publish_Set\<rparr>)"
| publish_set: "hs_child s = Publish_Set \<Longrightarrow> child_step s (s\<lparr>hs_loop := Some (hs_this s), hs_child := Publish_Notify\<rparr>)"
| publish_notify: "hs_child s = Publish_Notify \<Longrightarrow>
    child_step s (s\<lparr>hs_cond := cond_notify 0 (hs_cond s), hs_child := Publish_Unlock\<rparr>)"
| publish_unlock: "hs_child s = Publish_Unlock \<Longrightarrow> mutex_unlock 1 (hs_mutex s) = Inr m \<Longrightarrow>
    child_step s (s\<lparr>hs_mutex := m, hs_child := Enter_Loop\<rparr>)"
| enter_loop: "hs_child s = Enter_Loop \<Longrightarrow> child_step s (s\<lparr>hs_quit := False, hs_child := Looping\<rparr>)"
| turn: "hs_child s = Looping \<Longrightarrow> \<not> hs_quit s \<Longrightarrow> child_step s s"
| leave_loop: "hs_child s = Looping \<Longrightarrow> hs_quit s \<Longrightarrow> child_step s (s\<lparr>hs_child := Clear_Loop\<rparr>)"
| clear_loop: "hs_child s = Clear_Loop \<Longrightarrow> child_step s (s\<lparr>hs_loop := None, hs_child := Gone\<rparr>)"

definition handshake_step :: "handshake \<Rightarrow> handshake \<Rightarrow> bool" where
  "handshake_step s t \<longleftrightarrow> owner_step s t \<or> child_step s t"

inductive_cases owner_stepE: "owner_step s t"
inductive_cases child_stepE: "child_step s t"

section \<open>The invariant\<close>

text \<open>Who holds the mutex, whether the owner sleeps, and what is published, from where the two threads are.\<close>

fun owner_holds :: "owner_pc \<Rightarrow> bool" where
  "owner_holds pc = (pc = Start_Test \<or> pc = Start_Sleep \<or> pc = Start_Unlock)"

fun child_holds :: "child_pc \<Rightarrow> bool" where
  "child_holds pc = (pc = Publish_Set \<or> pc = Publish_Notify \<or> pc = Publish_Unlock)"

fun unpublished :: "child_pc \<Rightarrow> bool" where
  "unpublished pc = (pc = Make_Loop \<or> pc = Publish_Lock \<or> pc = Publish_Set)"

fun waiting :: "owner_pc \<Rightarrow> bool" where
  "waiting pc = (pc = Start_Lock \<or> pc = Start_Test \<or> pc = Start_Sleep \<or> pc = Start_Asleep)"

fun quitting :: "owner_pc \<Rightarrow> bool" where
  "quitting pc = (pc = Destroy_Join \<or> pc = Destroyed)"

definition mutex_ok :: "handshake \<Rightarrow> bool" where
  "mutex_ok s \<longleftrightarrow> \<not> m_destroyed (hs_mutex s) \<and> \<not> (owner_holds (hs_owner s) \<and> child_holds (hs_child s)) \<and>
     m_owner (hs_mutex s) = (if owner_holds (hs_owner s) then Some 0 else if child_holds (hs_child s) then Some 1 else None)"

definition sleep_ok :: "handshake \<Rightarrow> bool" where
  "sleep_ok s \<longleftrightarrow>
     (if hs_owner s = Start_Asleep
      then hs_cond s = \<lparr>c_sleeping = [], c_woken = [0]\<rparr> \<or>
        (hs_cond s = \<lparr>c_sleeping = [0], c_woken = []\<rparr> \<and> (unpublished (hs_child s) \<or> hs_child s = Publish_Notify))
      else hs_cond s = \<lparr>c_sleeping = [], c_woken = []\<rparr>) \<and>
     (hs_owner s = Start_Sleep \<longrightarrow> unpublished (hs_child s))"

definition loop_ok :: "handshake \<Rightarrow> bool" where
  "loop_ok s \<longleftrightarrow>
     hs_loop s = (if unpublished (hs_child s) \<or> hs_child s = Gone then None else Some (hs_this s)) \<and>
     (unpublished (hs_child s) \<longrightarrow> waiting (hs_owner s)) \<and>
     (hs_quit s \<or> hs_child s = Clear_Loop \<or> hs_child s = Gone \<longrightarrow> quitting (hs_owner s)) \<and>
     (hs_owner s = Destroyed \<longrightarrow> hs_child s = Gone) \<and> hs_owner s \<noteq> Null_Pointer \<and>
     (\<forall>l. hs_owner s = Has_Loop l \<longrightarrow> l = Some (hs_this s))"

definition handshake_inv :: "handshake \<Rightarrow> bool" where
  "handshake_inv s \<longleftrightarrow> mutex_ok s \<and> sleep_ok s \<and> loop_ok s"

lemmas handshake_defs = handshake_inv_def mutex_ok_def sleep_ok_def loop_ok_def

lemma new_handshake_inv: "handshake_inv (new_handshake k)"
  by (simp add: handshake_defs new_handshake_def new_mutex_def new_condition_def)

lemma cond_wait_new: "cond_wait t (m, \<lparr>c_sleeping = [], c_woken = []\<rparr>) = Inr (m', c) \<longleftrightarrow>
    \<not> m_destroyed m \<and> m_owner m = Some t \<and> m' = m\<lparr>m_owner := None\<rparr> \<and> c = \<lparr>c_sleeping = [t], c_woken = []\<rparr>"
  by (auto simp: cond_wait_def bind_result_Inr mutex_unlock_Inr)

lemma cond_return_woken: "cond_return t (m, \<lparr>c_sleeping = ss, c_woken = [t]\<rparr>) = Some (Inr (m', c)) \<longleftrightarrow>
    \<not> m_destroyed m \<and> m_owner m = None \<and> m' = m\<lparr>m_owner := Some t\<rparr> \<and> c = \<lparr>c_sleeping = ss, c_woken = []\<rparr>"
  by (auto simp: cond_return_def bind_outcome_Some_Inr mutex_lock_Inr)

lemma cond_return_sleeping: "cond_return t (m, \<lparr>c_sleeping = ss, c_woken = []\<rparr>) = None"
  by (simp add: cond_return_def)

lemmas handshake_calls = mutex_lock_Inr mutex_unlock_Inr cond_wait_new cond_return_woken cond_return_sleeping
  wake_thread_def cond_notify_def

lemma owner_step_inv:
  assumes "owner_step s t" "handshake_inv s"
  shows "handshake_inv t"
  using assms
proof (cases rule: owner_step.cases)
  case (start_back m c)
  have "hs_cond s = \<lparr>c_sleeping = [], c_woken = [0]\<rparr>"
    using start_back(2,3) assms(2) by (auto simp: handshake_defs cond_return_sleeping)
  then show ?thesis using start_back assms(2) by (auto simp: handshake_defs cond_return_woken)
next
  case start_spurious
  then have "hs_owner s = Start_Asleep" "hs_cond s = \<lparr>c_sleeping = [0], c_woken = []\<rparr>"
    using assms(2) by (auto simp: handshake_defs split: if_splits)
  then show ?thesis using start_spurious assms(2) by (simp add: handshake_defs wake_thread_def)
next
  case (start_sleep m c)
  then have "hs_cond s = \<lparr>c_sleeping = [], c_woken = []\<rparr>" using assms(2) by (simp add: handshake_defs)
  then show ?thesis using start_sleep assms(2) by (auto simp: handshake_defs cond_wait_new)
qed (auto simp: handshake_defs mutex_lock_Inr mutex_unlock_Inr split: if_splits)

lemma child_step_inv:
  assumes "child_step s t" "handshake_inv s"
  shows "handshake_inv t"
  using assms
  by (elim child_stepE) (auto simp: handshake_defs handshake_calls split: if_splits)

interpretation handshake_sys: invariant_system "\<lambda>s. \<exists>k. s = new_handshake k" handshake_step handshake_inv
proof unfold_locales
  show "\<exists>k. s = new_handshake k \<Longrightarrow> handshake_inv s" for s using new_handshake_inv by blast
  show "handshake_inv s \<Longrightarrow> handshake_step s t \<Longrightarrow> handshake_inv t" for s t
    unfolding handshake_step_def using owner_step_inv child_step_inv by blast
qed

lemma reach_handshake: "run handshake_step (new_handshake k) s \<Longrightarrow> handshake_inv s"
  by (rule handshake_sys.reach_inv) blast

lemma this_constant: "run handshake_step s t \<Longrightarrow> hs_this t = hs_this s"
  by (induction rule: run.induct) (auto simp: handshake_step_def elim!: owner_step.cases child_step.cases)

section \<open>The handshake always comes to its end\<close>

definition starting :: "handshake \<Rightarrow> bool" where
  "starting s \<longleftrightarrow> waiting (hs_owner s) \<or> hs_owner s = Start_Unlock \<or> hs_owner s = Start_Return"

text \<open>How far the two are from the end; before the loop is published the owner is on its way to sleep.\<close>

fun child_rest :: "child_pc \<Rightarrow> nat" where
  "child_rest Make_Loop = 5" | "child_rest Publish_Lock = 4" | "child_rest Publish_Set = 3"
| "child_rest Publish_Notify = 2" | "child_rest Publish_Unlock = 1" | "child_rest _ = 0"

fun owner_rest :: "bool \<Rightarrow> owner_pc \<Rightarrow> nat" where
  "owner_rest published Start_Lock = 6" | "owner_rest published Start_Test = 4" | "owner_rest published Start_Sleep = 3"
| "owner_rest published Start_Asleep = (if published then 5 else 2)" | "owner_rest published Start_Unlock = 2"
| "owner_rest published Start_Return = 1" | "owner_rest published _ = 0"

definition handshake_rest :: "handshake \<Rightarrow> nat" where
  "handshake_rest s = 10 * child_rest (hs_child s) + owner_rest (\<not> unpublished (hs_child s)) (hs_owner s)"

lemma published_rest: "child_rest pc = 0 \<Longrightarrow> \<not> unpublished pc \<and> \<not> child_holds pc \<and> pc \<noteq> Publish_Notify"
  by (cases pc) simp_all

lemma owner_rest_bound: "owner_rest b pc < 10"
  by (cases pc) simp_all

text \<open>As long as the loop thread has something to do in the handshake, it or the owner can move.\<close>

lemma child_progress:
  assumes "handshake_inv s" "child_rest (hs_child s) \<noteq> 0" "\<not> (hs_child s = Publish_Lock \<and> owner_holds (hs_owner s))"
  shows "\<exists>t. child_step s t \<and> handshake_rest t < handshake_rest s \<and> hs_owner t = hs_owner s"
proof -
  have less: "handshake_rest t < handshake_rest s"
    if "child_rest (hs_child t) < child_rest (hs_child s)" for t
    using that owner_rest_bound [of "\<not> unpublished (hs_child t)" "hs_owner t"] by (simp add: handshake_rest_def)
  have m: "hs_child s = Publish_Lock \<Longrightarrow> mutex_lock 1 (hs_mutex s) = Some (Inr (hs_mutex s\<lparr>m_owner := Some 1\<rparr>))"
      "hs_child s = Publish_Unlock \<Longrightarrow> mutex_unlock 1 (hs_mutex s) = Inr (hs_mutex s\<lparr>m_owner := None\<rparr>)"
    using assms(1,3) by (auto simp: handshake_defs mutex_lock_Inr mutex_unlock_Inr)
  show ?thesis
  proof (cases "hs_child s")
    case Make_Loop
    show ?thesis using make_loop [OF Make_Loop] less Make_Loop by fastforce
  next
    case Publish_Lock
    show ?thesis using publish_lock [OF Publish_Lock m(1) [OF Publish_Lock]] less Publish_Lock by fastforce
  next
    case Publish_Set
    show ?thesis using publish_set [OF Publish_Set] less Publish_Set by fastforce
  next
    case Publish_Notify
    show ?thesis using publish_notify [OF Publish_Notify] less Publish_Notify by fastforce
  next
    case Publish_Unlock
    show ?thesis using publish_unlock [OF Publish_Unlock m(2) [OF Publish_Unlock]] less Publish_Unlock by fastforce
  qed (use assms(2) in simp_all)
qed

text \<open>The owner goes to sleep when nothing is published, and to the end when it is.\<close>

definition owner_advances :: "handshake \<Rightarrow> bool" where
  "owner_advances s \<longleftrightarrow>
     (\<exists>t. owner_step s t \<and> handshake_rest t < handshake_rest s \<and> (starting t \<or> hs_owner t = Has_Loop (hs_loop s)))"

lemma owner_waits:
  assumes "handshake_inv s" "hs_child s = Publish_Lock" "owner_holds (hs_owner s)" "starting s"
  shows "owner_advances s"
proof -
  have at: "hs_owner s = Start_Test \<or> hs_owner s = Start_Sleep" and none: "hs_loop s = None"
    and held: "m_owner (hs_mutex s) = Some 0" "\<not> m_destroyed (hs_mutex s)"
    using assms(1-3) by (auto simp: handshake_defs)
  show ?thesis
  proof (cases "hs_owner s = Start_Test")
    case True
    show ?thesis using start_wait [OF True none] True assms(2)
      by (fastforce simp: owner_advances_def handshake_rest_def starting_def)
  next
    case False
    then have sleep: "hs_owner s = Start_Sleep" using at by simp
    then have "hs_cond s = \<lparr>c_sleeping = [], c_woken = []\<rparr>" using assms(1) by (simp add: handshake_defs)
    then have "cond_wait 0 (hs_mutex s, hs_cond s) = Inr (hs_mutex s\<lparr>m_owner := None\<rparr>, \<lparr>c_sleeping = [0], c_woken = []\<rparr>)"
      using held by (simp add: cond_wait_new)
    from start_sleep [OF sleep this] show ?thesis using sleep assms(2)
      by (fastforce simp: owner_advances_def handshake_rest_def starting_def)
  qed
qed

lemma owner_returns:
  assumes "handshake_inv s" "starting s" and rest: "child_rest (hs_child s) = 0"
  shows "owner_advances s"
proof -
  have pub: "\<not> unpublished (hs_child s)" "\<not> child_holds (hs_child s)" "hs_child s \<noteq> Publish_Notify"
    using published_rest [OF rest] by simp_all
  have "hs_child s \<noteq> Gone"
  proof
    assume "hs_child s = Gone"
    then have "quitting (hs_owner s)" using assms(1) by (simp add: handshake_inv_def loop_ok_def)
    then show False using assms(2) by (auto simp: starting_def)
  qed
  then have loop: "hs_loop s \<noteq> None" using assms(1) pub(1) by (simp add: handshake_defs)
  have free: "\<not> m_destroyed (hs_mutex s)" "m_owner (hs_mutex s) = (if owner_holds (hs_owner s) then Some 0 else None)"
    using assms(1) pub(2) by (auto simp: handshake_defs)
  have cond: "hs_owner s = Start_Asleep \<Longrightarrow> hs_cond s = \<lparr>c_sleeping = [], c_woken = [0]\<rparr>" "hs_owner s \<noteq> Start_Sleep"
    using assms(1) pub(1,3) by (auto simp: handshake_defs split: if_splits)
  show ?thesis
  proof (cases "hs_owner s")
    case Start_Lock
    show ?thesis using start_lock [OF Start_Lock mutex_lock_Inr [THEN iffD2]] free Start_Lock pub(1)
      by (fastforce simp: owner_advances_def handshake_rest_def starting_def)
  next
    case Start_Test
    show ?thesis using start_have [OF Start_Test loop] Start_Test by (fastforce simp: owner_advances_def handshake_rest_def starting_def)
  next
    case Start_Asleep
    show ?thesis using start_back [OF Start_Asleep, unfolded cond(1) [OF Start_Asleep], OF cond_return_woken [THEN iffD2]]
        free Start_Asleep pub(1) by (fastforce simp: owner_advances_def handshake_rest_def starting_def)
  next
    case Start_Unlock
    show ?thesis using start_unlock [OF Start_Unlock mutex_unlock_Inr [THEN iffD2]] free Start_Unlock
      by (fastforce simp: owner_advances_def handshake_rest_def starting_def)
  next
    case Start_Return
    show ?thesis using start_return [OF Start_Return] Start_Return by (fastforce simp: owner_advances_def handshake_rest_def)
  qed (use assms(2) cond(2) in \<open>simp_all add: starting_def\<close>)
qed

lemma owner_progress:
  assumes "handshake_inv s" "starting s"
    and "(hs_child s = Publish_Lock \<and> owner_holds (hs_owner s)) \<or> child_rest (hs_child s) = 0"
  shows "\<exists>t. owner_step s t \<and> handshake_rest t < handshake_rest s \<and> (starting t \<or> hs_owner t = Has_Loop (hs_loop s))"
  using owner_waits owner_returns assms unfolding owner_advances_def by blast

text \<open>
  The steps of the two threads without the spurious wake-ups: every step of the owner but that one
  moves its program counter. Asleep, the owner gets on only when the loop thread has notified it.
\<close>

definition handshake_sure :: "handshake \<Rightarrow> handshake \<Rightarrow> bool" where
  "handshake_sure s t \<longleftrightarrow> child_step s t \<or> (owner_step s t \<and> hs_owner t \<noteq> hs_owner s)"

lemma sure_step: "handshake_sure s t \<Longrightarrow> handshake_step s t"
  by (auto simp: handshake_sure_def handshake_step_def)

lemma sure_run: "run handshake_sure s t \<Longrightarrow> run handshake_step s t"
  by (induction rule: run.induct) (auto intro: run.intros sure_step)

lemma owner_rest_moves: "owner_step s t \<Longrightarrow> handshake_rest t < handshake_rest s \<Longrightarrow> hs_owner t \<noteq> hs_owner s"
  by (erule owner_step.cases) (auto simp: handshake_rest_def)

lemma sure_progress:
  assumes "handshake_inv s" "starting s"
  shows "\<exists>t. handshake_sure s t \<and> handshake_rest t < handshake_rest s \<and> (starting t \<or> (\<exists>l. hs_owner t = Has_Loop l))"
proof (cases "(hs_child s = Publish_Lock \<and> owner_holds (hs_owner s)) \<or> child_rest (hs_child s) = 0")
  case True
  then show ?thesis using owner_progress [OF assms] owner_rest_moves unfolding handshake_sure_def by blast
next
  case False
  then obtain t where "child_step s t" "handshake_rest t < handshake_rest s" "hs_owner t = hs_owner s"
    using child_progress [OF assms(1)] by blast
  then show ?thesis using assms(2) unfolding handshake_sure_def starting_def by auto
qed

lemma handshake_ends:
  "handshake_inv s \<Longrightarrow> starting s \<Longrightarrow> \<exists>t l. run handshake_sure s t \<and> hs_owner t = Has_Loop l"
proof (induction "handshake_rest s" arbitrary: s rule: less_induct)
  case less
  obtain t where t: "handshake_sure s t" "handshake_rest t < handshake_rest s"
      "starting t \<or> (\<exists>l. hs_owner t = Has_Loop l)" using sure_progress [OF less(2,3)] by blast
  have inv: "handshake_inv t" by (rule handshake_sys.step_inv [OF less(2) sure_step [OF t(1)]])
  show ?case
  proof (cases "starting t")
    case True
    then obtain u l where u: "run handshake_sure t u" "hs_owner u = Has_Loop l" using less(1) [OF t(2) inv] by blast
    have "run handshake_sure s u" by (rule run_trans [OF u(1) run_single]) (rule t(1))
    then show ?thesis using u(2) by blast
  next
    case False
    then show ?thesis using t(3) run_single [of handshake_sure, OF t(1)] by blast
  qed
qed

text \<open>
  C9. The handshake between \<open>start_loop\<close> and the thread it starts loses no wake-up. From every state that
  any interleaving reaches, wake-ups for no reason included, the two threads bring \<open>start_loop\<close> to its end
  by their own steps, without a further spurious wake-up: the owner that sleeps is woken by the notify of
  the thread, and once the thread has notified nobody sleeps on the published loop. What \<open>start_loop\<close> then
  returns is the loop of the new thread, the result the one-step model of \<open>start_loop\<close> gives. A null
  pointer is never followed by the destructor, and when the destructor is done the thread is gone.
\<close>

theorem handshake_publishes_loop:
  assumes "run handshake_step (new_handshake k) s"
  shows "(starting s \<longrightarrow> (\<exists>t. run handshake_sure s t \<and> hs_owner t = Has_Loop (Some k)))
    \<and> (hs_loop s \<noteq> None \<and> hs_child s \<noteq> Publish_Notify \<longrightarrow> c_sleeping (hs_cond s) = [])
    \<and> (\<forall>l. hs_owner s = Has_Loop l \<longrightarrow>
         start_loop (Some k) new_event_loop_thread =
           Some (Inr (l, thread_publish k (new_event_loop_thread\<lparr>et_started := True\<rparr>))))
    \<and> hs_owner s \<noteq> Null_Pointer \<and> (hs_owner s = Destroyed \<longrightarrow> hs_child s = Gone)"
proof -
  have this_k: "hs_this u = k" if "run handshake_step (new_handshake k) u" for u
    using this_constant [OF that] by (simp add: new_handshake_def)
  have owns: "l = Some k" if "run handshake_step (new_handshake k) u" "hs_owner u = Has_Loop l" for u l
    using reach_handshake [OF that(1)] that(2) this_k [OF that(1)] by (simp add: handshake_defs)
  have "\<exists>t. run handshake_sure s t \<and> hs_owner t = Has_Loop (Some k)" if st: "starting s"
  proof -
    obtain t l where t: "run handshake_sure s t" "hs_owner t = Has_Loop l"
      using handshake_ends [OF reach_handshake [OF assms] st] by blast
    have "l = Some k" by (rule owns [OF run_trans [OF sure_run [OF t(1)] assms] t(2)])
    then show ?thesis using t by blast
  qed
  moreover have "hs_loop s \<noteq> None \<and> hs_child s \<noteq> Publish_Notify \<longrightarrow> c_sleeping (hs_cond s) = []"
    using reach_handshake [OF assms] by (auto simp: handshake_defs split: if_splits)
  moreover have "start_loop (Some k) new_event_loop_thread =
      Some (Inr (Some k, thread_publish k (new_event_loop_thread\<lparr>et_started := True\<rparr>)))"
    by (simp add: start_loop_def new_event_loop_thread_def thread_publish_def)
  moreover have "hs_owner s \<noteq> Null_Pointer" "hs_owner s = Destroyed \<longrightarrow> hs_child s = Gone"
    using reach_handshake [OF assms] by (simp_all add: handshake_inv_def loop_ok_def)
  ultimately show ?thesis using owns [OF assms] by blast
qed

section \<open>The destructor\<close>

text \<open>Once the thread is in its loop with the flag cleared and the owner joins, nothing moves any more.\<close>

definition joins_in_vain :: "handshake \<Rightarrow> bool" where
  "joins_in_vain s \<longleftrightarrow> hs_owner s = Destroy_Join \<and> hs_child s = Looping \<and> \<not> hs_quit s"

lemma joins_in_vain_stays:
  "run handshake_step s t \<Longrightarrow> handshake_inv s \<Longrightarrow> joins_in_vain s \<Longrightarrow> joins_in_vain t \<and> handshake_inv t"
proof (induction rule: run.induct)
  case (run_step s t u)
  then have t: "joins_in_vain t" "handshake_inv t" by simp_all
  have "handshake_inv u" by (rule handshake_sys.step_inv [OF t(2) run_step(2)])
  moreover have "0 \<notin> set (c_sleeping (hs_cond t))" using t by (simp add: handshake_defs joins_in_vain_def)
  then have "joins_in_vain u"
    using run_step(2) t(1) unfolding handshake_step_def joins_in_vain_def
    by (elim disjE) (auto elim!: owner_step.cases child_step.cases)
  ultimately show ?case by simp
qed simp

lemma child_move: "run handshake_step s t \<Longrightarrow> child_step t u \<Longrightarrow> run handshake_step s u"
  by (erule run_step) (unfold handshake_step_def, blast)

lemma owner_move: "run handshake_step s t \<Longrightarrow> owner_step t u \<Longrightarrow> run handshake_step s u"
  by (erule run_step) (unfold handshake_step_def, blast)

text \<open>A state in which nobody sleeps.\<close>

definition awake :: "nat \<Rightarrow> nat option \<Rightarrow> nat option \<Rightarrow> bool \<Rightarrow> owner_pc \<Rightarrow> child_pc \<Rightarrow> handshake" where
  "awake k holds loop q own chi =
     \<lparr>hs_mutex = \<lparr>m_owner = holds, m_destroyed = False\<rparr>, hs_cond = \<lparr>c_sleeping = [], c_woken = []\<rparr>, hs_loop = loop,
      hs_quit = q, hs_this = k, hs_owner = own, hs_child = chi\<rparr>"

lemma published_first:
  "run handshake_step (new_handshake k) (awake k None (Some k) False Start_Lock Enter_Loop)"
proof -
  have "run handshake_step (new_handshake k) (awake k None None False Start_Lock Publish_Lock)"
    by (rule child_move [OF run_refl])
      (use make_loop [of "new_handshake k"] in \<open>simp add: new_handshake_def awake_def new_mutex_def new_condition_def\<close>)
  then have "run handshake_step (new_handshake k) (awake k (Some 1) None False Start_Lock Publish_Set)"
    by (rule child_move) (use publish_lock [of "awake k None None False Start_Lock Publish_Lock"] in
      \<open>simp add: awake_def mutex_lock_def\<close>)
  then have "run handshake_step (new_handshake k) (awake k (Some 1) (Some k) False Start_Lock Publish_Notify)"
    by (rule child_move) (use publish_set [of "awake k (Some 1) None False Start_Lock Publish_Set"] in \<open>simp add: awake_def\<close>)
  then have "run handshake_step (new_handshake k) (awake k (Some 1) (Some k) False Start_Lock Publish_Unlock)"
    by (rule child_move) (use publish_notify [of "awake k (Some 1) (Some k) False Start_Lock Publish_Notify"] in
      \<open>simp add: awake_def cond_notify_def\<close>)
  then show ?thesis
    by (rule child_move) (use publish_unlock [of "awake k (Some 1) (Some k) False Start_Lock Publish_Unlock"] in
      \<open>simp add: awake_def mutex_unlock_def\<close>)
qed

lemma returned_before_loop:
  "run handshake_step (new_handshake k) (awake k None (Some k) False (Has_Loop (Some k)) Enter_Loop)"
proof -
  have "run handshake_step (new_handshake k) (awake k (Some 0) (Some k) False Start_Test Enter_Loop)"
    by (rule owner_move [OF published_first]) (use start_lock [of "awake k None (Some k) False Start_Lock Enter_Loop"] in
      \<open>simp add: awake_def mutex_lock_def\<close>)
  then have "run handshake_step (new_handshake k) (awake k (Some 0) (Some k) False Start_Unlock Enter_Loop)"
    by (rule owner_move) (use start_have [of "awake k (Some 0) (Some k) False Start_Test Enter_Loop"] in \<open>simp add: awake_def\<close>)
  then have "run handshake_step (new_handshake k) (awake k None (Some k) False Start_Return Enter_Loop)"
    by (rule owner_move) (use start_unlock [of "awake k (Some 0) (Some k) False Start_Unlock Enter_Loop"] in
      \<open>simp add: awake_def mutex_unlock_def\<close>)
  then show ?thesis
    by (rule owner_move) (use start_return [of "awake k None (Some k) False Start_Return Enter_Loop"] in \<open>simp add: awake_def\<close>)
qed

text \<open>The owner sleeps before the thread takes the mutex: only the notify can bring it back.\<close>

definition asleep :: "nat \<Rightarrow> child_pc \<Rightarrow> handshake" where
  "asleep k chi =
     \<lparr>hs_mutex = \<lparr>m_owner = None, m_destroyed = False\<rparr>, hs_cond = \<lparr>c_sleeping = [0], c_woken = []\<rparr>, hs_loop = None,
      hs_quit = False, hs_this = k, hs_owner = Start_Asleep, hs_child = chi\<rparr>"

lemma asleep_first: "run handshake_step (new_handshake k) (asleep k Make_Loop)"
proof -
  have "run handshake_step (new_handshake k) (awake k (Some 0) None False Start_Test Make_Loop)"
    by (rule owner_move [OF run_refl]) (use start_lock [of "new_handshake k"] in
      \<open>simp add: new_handshake_def awake_def new_mutex_def new_condition_def mutex_lock_def\<close>)
  then have "run handshake_step (new_handshake k) (awake k (Some 0) None False Start_Sleep Make_Loop)"
    by (rule owner_move) (use start_wait [of "awake k (Some 0) None False Start_Test Make_Loop"] in \<open>simp add: awake_def\<close>)
  then show ?thesis
    by (rule owner_move) (use start_sleep [of "awake k (Some 0) None False Start_Sleep Make_Loop"] in
      \<open>simp add: awake_def asleep_def cond_wait_new\<close>)
qed

theorem handshake_publishes_loop_witness:
  "\<exists>t. run handshake_sure (asleep 7 Make_Loop) t \<and> hs_owner t = Has_Loop (Some 7)"
proof -
  have "starting (asleep 7 Make_Loop)" by (simp add: starting_def asleep_def)
  with handshake_publishes_loop [OF asleep_first, of 7] show ?thesis by blast
qed

text \<open>
  C38. The destructor can join for ever: when it asks the loop to quit before the thread has entered
  \<open>loop\<close>, which clears the flag again, no continuation of the run gets it out of the join.
\<close>

theorem early_destructor_joins_forever:
  "\<exists>s. run handshake_step (new_handshake k) s \<and> hs_owner s = Destroy_Join \<and>
     (\<forall>t. run handshake_step s t \<longrightarrow> hs_owner t = Destroy_Join \<and> hs_child t = Looping)"
proof -
  have "run handshake_step (new_handshake k) (awake k None (Some k) False Destroy_Test Enter_Loop)"
    by (rule owner_move [OF returned_before_loop])
      (use destroy [of "awake k None (Some k) False (Has_Loop (Some k)) Enter_Loop"] in \<open>simp add: awake_def\<close>)
  then have "run handshake_step (new_handshake k) (awake k None (Some k) False Destroy_Quit Enter_Loop)"
    by (rule owner_move) (use destroy_some [of "awake k None (Some k) False Destroy_Test Enter_Loop"] in \<open>simp add: awake_def\<close>)
  then have "run handshake_step (new_handshake k) (awake k None (Some k) True Destroy_Join Enter_Loop)"
    by (rule owner_move) (use destroy_quit [of "awake k None (Some k) False Destroy_Quit Enter_Loop"] in \<open>simp add: awake_def\<close>)
  then have r: "run handshake_step (new_handshake k) (awake k None (Some k) False Destroy_Join Looping)"
    by (rule child_move) (use enter_loop [of "awake k None (Some k) True Destroy_Join Enter_Loop"] in \<open>simp add: awake_def\<close>)
  have "joins_in_vain (awake k None (Some k) False Destroy_Join Looping)" by (simp add: joins_in_vain_def awake_def)
  then have "hs_owner t = Destroy_Join \<and> hs_child t = Looping"
    if "run handshake_step (awake k None (Some k) False Destroy_Join Looping) t" for t
    using joins_in_vain_stays [OF that reach_handshake [OF r]] by (simp add: joins_in_vain_def)
  moreover have "hs_owner (awake k None (Some k) False Destroy_Join Looping) = Destroy_Join" by (simp add: awake_def)
  ultimately show ?thesis using r by blast
qed

theorem early_destructor_joins_forever_witness:
  "\<exists>s. run handshake_step (new_handshake 7) s \<and> hs_owner s = Destroy_Join \<and> hs_child s = Looping"
proof -
  obtain s where "run handshake_step (new_handshake 7) s" "hs_owner s = Destroy_Join"
      "\<forall>t. run handshake_step s t \<longrightarrow> hs_owner t = Destroy_Join \<and> hs_child t = Looping"
    using early_destructor_joins_forever [of 7] by blast
  moreover have "run handshake_step s s" by (rule run_refl)
  ultimately show ?thesis by blast
qed

end
