(* ===== verification/Loop_Returns.thy ===== *)
theory Loop_Returns
  imports Loop_World
begin

text \<open>
  A turn of the loop always comes to its end once the poll has returned: the handlers of a connection
  never wait on a non-blocking socket, and everything else in a turn is finite. A script of results is
  long enough when it holds one answer that ends a loop for every loop that can run over it.
\<close>

section \<open>Calls that return\<close>

text \<open>The call has returned, and its state satisfies \<open>P\<close> unless the run has ended in a fault.\<close>

definition returns :: "'a outcome \<Rightarrow> ('a \<Rightarrow> bool) \<Rightarrow> bool" where
  "returns r P \<longleftrightarrow> r \<noteq> None \<and> (\<forall>x. r = Some (Inr x) \<longrightarrow> P x)"

lemma returns_simps [simp]:
  "returns (Some (Inr x)) P \<longleftrightarrow> P x" "returns (Some (Inl f)) P" "\<not> returns None P"
  by (simp_all add: returns_def)

lemma returns_bind:
  assumes "returns r P" "\<And>x. P x \<Longrightarrow> returns (f x) Q"
  shows "returns (bind_outcome r f) Q"
  using assms by (rule_tac outcome_cases [of r]) (auto simp: returns_def)

lemma returns_mono: "returns r P \<Longrightarrow> (\<And>x. P x \<Longrightarrow> Q x) \<Longrightarrow> returns r Q"
  by (auto simp: returns_def)

lemma returns_result: "returns (Some r) P \<longleftrightarrow> (\<forall>x. r = Inr x \<longrightarrow> P x)"
  by (simp add: returns_def)

lemma returns_if:
  "(b \<Longrightarrow> returns x P) \<Longrightarrow> (\<not> b \<Longrightarrow> returns y P) \<Longrightarrow> returns (if b then x else y) P"
  by simp

section \<open>Scripts that end the loops\<close>

fun ends_reading :: "string sysres \<Rightarrow> bool" where
  "ends_reading (Ret bs) = (bs = [])"
| "ends_reading (Err e) = (e \<noteq> EINTR)"

fun ends_writing :: "nat sysres \<Rightarrow> bool" where
  "ends_writing (Ret n) = False"
| "ends_writing (Err e) = (e \<noteq> EINTR)"

definition read_ends :: "reads \<Rightarrow> nat" where
  "read_ends es = length (filter ends_reading es)"

definition write_ends :: "writes \<Rightarrow> nat" where
  "write_ends ws = length (filter ends_writing ws)"

text \<open>A non-blocking socket that will answer \<open>k\<close> calls of \<open>handle_read\<close>.\<close>

definition answers :: "nat \<Rightarrow> connection \<Rightarrow> bool" where
  "answers k c \<longleftrightarrow> k \<le> read_ends (to_read c) \<and> 2 * k \<le> write_ends (to_write c)"

lemma readn_zero_returns:
  "0 < read_ends es \<Longrightarrow> \<exists>r buf z es'. readn_zero es b zero s = Some (r, buf, z, es') \<and> read_ends es \<le> Suc (read_ends es')"
proof (induction es b zero s rule: readn_zero.induct)
  case (2 e es b zero s)
  then show ?case by (cases e) (auto simp: read_ends_def)
next
  case (3 bs es b zero s)
  then show ?case by (cases "bs = []") (auto simp: read_ends_def Let_def)
qed (simp add: read_ends_def)

fun end_script :: "write_end \<Rightarrow> writes" where
  "end_script (Written s out es) = es"
| "end_script (Again s out es) = es"
| "end_script (Failed out es) = es"

lemma write_loop_returns:
  "0 < write_ends ws \<Longrightarrow>
   \<exists>r. write_loop ws data s out = Some r \<and> (\<forall>e. r = Inr e \<longrightarrow> write_ends ws \<le> Suc (write_ends (end_script e)))"
proof (induction ws arbitrary: data s out)
  case (Cons w ws)
  consider "data = []" | n where "data \<noteq> []" "w = Ret n" | "data \<noteq> []" "w = Err EINTR"
    | "data \<noteq> []" "w = Err EAGAIN" | "data \<noteq> []" "w = Err EOTHER"
    by (metis sysres.exhaust errno.exhaust)
  then show ?case using Cons by cases (auto simp: write_loop_call write_ends_def)
qed (simp add: write_ends_def)

lemma writen_buf_returns:
  "0 < write_ends ws \<Longrightarrow> returns (writen_buf ws data) (\<lambda>(n, out, ws'). write_ends ws \<le> Suc (write_ends ws'))"
  using write_loop_returns [of ws data 0 "[]"] by (auto simp: writen_buf_def returns_def split: sum.splits write_end.splits)

lemma writen_returns:
  "0 < write_ends ws \<Longrightarrow> returns (writen ws buf) (\<lambda>(n, b, out, ws'). write_ends ws \<le> Suc (write_ends ws'))"
  using write_loop_returns [of ws buf 0 "[]"]
  by (auto simp: writen_def returns_def bind_result_Inr split: sum.splits write_end.splits)

section \<open>The handlers of a connection\<close>

text \<open>What a call may use up of the socket's answers: nothing, or two writes when it ends in an error.\<close>

definition uses :: "connection \<Rightarrow> connection \<Rightarrow> bool" where
  "uses c c' \<longleftrightarrow> to_read c' = to_read c \<and>
     (to_write c' = to_write c \<or> (is_error (http c') \<and> write_ends (to_write c) \<le> 2 + write_ends (to_write c')))"

definition stage_uses :: "connection \<Rightarrow> bool \<times> connection \<Rightarrow> bool" where
  "stage_uses c r \<longleftrightarrow> uses c (snd r) \<and> (fst r \<longrightarrow> to_write (snd r) = to_write c)"

lemma send_c_str_returns:
  "0 < write_ends (to_write c) \<Longrightarrow> returns (send_c_str s c)
     (\<lambda>c'. to_read c' = to_read c \<and> http c' = http c \<and> write_ends (to_write c) \<le> Suc (write_ends (to_write c')))"
  unfolding send_c_str_def by (auto intro: returns_bind writen_buf_returns)

lemma handle_error_returns:
  assumes "2 \<le> write_ends (to_write c)"
  shows "returns (handle_error code msg c)
    (\<lambda>c'. to_read c' = to_read c \<and> http c' = http c \<and> write_ends (to_write c) \<le> 2 + write_ends (to_write c'))"
  unfolding handle_error_def
  by (rule returns_bind, rule send_c_str_returns) (use assms in \<open>auto intro: returns_mono [OF send_c_str_returns]\<close>)

lemma bad_request_returns:
  assumes "2 \<le> write_ends (to_write c)" "to_read c = to_read c0" "to_write c = to_write c0"
  shows "returns (bad_request msg c) (stage_uses c0)"
proof -
  let ?c = "with_http (\<lambda>h. h\<lparr>is_error := True\<rparr>) c"
  have "returns (handle_error 400 msg ?c)
      (\<lambda>c'. to_read c' = to_read ?c \<and> http c' = http ?c \<and> write_ends (to_write ?c) \<le> 2 + write_ends (to_write c'))"
    by (rule handle_error_returns) (use assms(1) in simp)
  then show ?thesis
    unfolding bad_request_def by (rule returns_bind) (use assms(2,3) in \<open>simp add: stage_uses_def uses_def\<close>)
qed

lemma stage_uri_returns:
  assumes "2 \<le> write_ends (to_write c)"
  shows "returns (stage_uri c) (stage_uses c)"
  unfolding stage_uri_def using assms
  by (auto simp: stage_uses_def uses_def intro: bad_request_returns split: sum.split URIState.split)

lemma stage_headers_returns:
  assumes "2 \<le> write_ends (to_write c)"
  shows "returns (stage_headers c) (stage_uses c)"
  unfolding stage_headers_def using assms
  by (auto simp: stage_uses_def uses_def intro: bad_request_returns split: sum.split HeaderState.split)

lemma stage_body_returns:
  assumes "2 \<le> write_ends (to_write c)"
  shows "returns (stage_body c) (stage_uses c)"
  unfolding stage_body_def using assms
  by (auto simp: stage_uses_def uses_def returns_result intro!: bad_request_returns returns_bind [of _ "\<lambda>_. True"]
      split: option.split)

definition analysed :: "connection \<Rightarrow> AnalysisState \<times> connection \<Rightarrow> bool" where
  "analysed c r \<longleftrightarrow> to_read (snd r) = to_read c \<and> (fst r = ANALYSIS_SUCCESS \<longrightarrow> to_write (snd r) = to_write c)
     \<and> write_ends (to_write c) \<le> 2 + write_ends (to_write (snd r))"

lemma not_found_returns:
  assumes "2 \<le> write_ends (to_write c)" "to_read c = to_read c0" "to_write c = to_write c0"
  shows "returns (not_found c) (analysed c0)"
  unfolding not_found_def
  by (rule returns_bind [OF handle_error_returns [OF assms(1)]]) (use assms(2,3) in \<open>simp add: analysed_def\<close>)

lemma analysed_with: "analysed c (ANALYSIS_SUCCESS, with_http f (with_http g c))" "analysed c (ANALYSIS_SUCCESS, with_http f c)"
    "analysed c (st, c)"
  by (simp_all add: analysed_def)

lemma analyze_file_returns:
  assumes "2 \<le> write_ends (to_write c)" "to_read c = to_read c0" "to_write c = to_write c0"
  shows "returns (analyze_file os header ty c) (analysed c0)"
proof -
  have "returns (not_found (with_http f c)) (analysed c0)" for f
    by (rule not_found_returns) (use assms in simp_all)
  moreover have "returns (not_found c) (analysed c0)" by (rule not_found_returns [OF assms])
  moreover have "analysed c0 (ANALYSIS_SUCCESS, with_http f c)" "analysed c0 (ANALYSIS_SUCCESS, c)" for f
    using assms(2,3) by (simp_all add: analysed_def)
  ultimately show ?thesis
    unfolding analyze_file_def by (simp add: Let_def split: option.split)
qed

lemma analyze_request_returns:
  assumes "2 \<le> write_ends (to_write c)"
  shows "returns (analyze_request os c) (analysed c)"
proof -
  have "returns (analyze_file os header ty c) (analysed c)" for header ty
    by (rule analyze_file_returns [OF assms]) simp_all
  moreover have "returns (analyze_file os header ty (with_http f c)) (analysed c)" for header ty f
    by (rule analyze_file_returns) (use assms in simp_all)
  ultimately show ?thesis
    unfolding analyze_request_def
    by (auto simp: returns_result analysed_with Let_def intro!: returns_bind [of _ "\<lambda>_. True"] split: prod.split)
qed

lemma stage_analysis_returns:
  assumes "2 \<le> write_ends (to_write c)"
  shows "returns (stage_analysis os c) (uses c)"
proof (cases "process_state (http c) = STATE_ANALYSIS")
  case True
  show ?thesis unfolding stage_analysis_def using True
    by (auto intro!: returns_bind [OF analyze_request_returns [OF assms]] simp: uses_def analysed_def)
qed (simp add: stage_analysis_def uses_def)

text \<open>\<open>readn\<close> uses one answer that ends it; then at most two writes, in an error.\<close>

definition receive_uses :: "connection \<Rightarrow> bool \<times> connection \<Rightarrow> bool" where
  "receive_uses c r \<longleftrightarrow> read_ends (to_read c) \<le> Suc (read_ends (to_read (snd r))) \<and>
     (to_write (snd r) = to_write c \<or>
      (is_error (http (snd r)) \<and> write_ends (to_write c) \<le> 2 + write_ends (to_write (snd r)))) \<and>
     (fst r \<longrightarrow> to_write (snd r) = to_write c)"

lemma stage_receive_returns:
  assumes "answers 1 c"
  shows "returns (stage_receive c) (receive_uses c)"
proof -
  obtain n buf z es where r: "readn_zero (to_read c) (buffer_in (http c)) False 0 = Some (n, buf, z, es)"
      "read_ends (to_read c) \<le> Suc (read_ends es)"
    using readn_zero_returns [of "to_read c" "buffer_in (http c)" False 0] assms by (auto simp: answers_def)
  let ?c = "(with_http (\<lambda>h. h\<lparr>buffer_in := buf\<rparr>) c)\<lparr>to_read := es\<rparr>"
  have weaken: "receive_uses c x" if "stage_uses ?c x" for x
    using that r(2) by (auto simp: receive_uses_def stage_uses_def uses_def)
  have "returns (bad_request msg ?c) (stage_uses ?c)" for msg
    by (rule bad_request_returns) (use assms in \<open>simp_all add: answers_def\<close>)
  then have bad: "returns (bad_request msg ?c) (receive_uses c)" for msg
    using weaken by (rule returns_mono)
  have plain: "receive_uses c (go, with_http f ?c)" "receive_uses c (go, ?c)" for go f
    using r(2) by (simp_all add: receive_uses_def)
  show ?thesis
    unfolding stage_receive_def r(1) using bad plain by (simp add: Let_def)
qed

lemma receive_uses_stage:
  "receive_uses c (True, d) \<Longrightarrow> stage_uses d r \<Longrightarrow> receive_uses c r"
  by (auto simp: receive_uses_def stage_uses_def uses_def)

lemma and_then_returns:
  assumes "returns r (receive_uses c)" and f: "\<And>d. to_write d = to_write c \<Longrightarrow> returns (f d) (stage_uses d)"
  shows "returns (and_then r f) (receive_uses c)"
  unfolding and_then_def
proof (rule returns_bind [OF assms(1)])
  fix x assume x: "receive_uses c x"
  obtain go d where d: "x = (go, d)" by fastforce
  show "returns (case x of (go, d) \<Rightarrow> if go then f d else Some (Inr (False, d))) (receive_uses c)"
  proof (cases go)
    case True
    then have "to_write d = to_write c" using x d by (simp add: receive_uses_def)
    then show ?thesis using returns_mono [OF f receive_uses_stage] x d True by simp
  next
    case False
    then show ?thesis using x d by simp
  qed
qed

lemma handle_read_body_returns:
  assumes "answers 1 c"
  shows "returns (handle_read_body os c) (\<lambda>d. receive_uses c (False, d))"
  unfolding handle_read_body_def
proof (rule returns_bind)
  have w: "2 \<le> write_ends (to_write c)" using assms by (simp add: answers_def)
  show "returns (and_then (and_then (and_then (stage_receive c) stage_uri) stage_headers) stage_body) (receive_uses c)"
    using w by (intro and_then_returns stage_receive_returns assms stage_uri_returns stage_headers_returns
      stage_body_returns) simp_all
  fix x assume x: "receive_uses c x"
  obtain go d where d: "x = (go, d)" by fastforce
  show "returns (case x of (go, c) \<Rightarrow> if go then stage_analysis os c else Some (Inr c)) (\<lambda>d. receive_uses c (False, d))"
  proof (cases go)
    case True
    then have "to_write d = to_write c" using x d by (simp add: receive_uses_def)
    then have "returns (stage_analysis os d) (uses d)" using stage_analysis_returns w by simp
    moreover have "receive_uses c (False, e)" if "uses d e" for e
      using that x d True by (auto simp: receive_uses_def uses_def)
    ultimately have "returns (stage_analysis os d) (\<lambda>e. receive_uses c (False, e))" by (rule returns_mono)
    then show ?thesis using d True by simp
  next
    case False
    then show ?thesis using x d by simp
  qed
qed

text \<open>Calls of the write handler and of what follows a read.\<close>

definition at_most_one_write :: "connection \<Rightarrow> connection \<Rightarrow> bool" where
  "at_most_one_write c c' \<longleftrightarrow>
     to_read c' = to_read c \<and> write_ends (to_write c) \<le> Suc (write_ends (to_write c'))"

lemma at_most_one_write_refl: "at_most_one_write c c"
  by (simp add: at_most_one_write_def)

lemma with_events_scripts [simp]:
  "to_read (with_events ev c) = to_read c" "to_write (with_events ev c) = to_write c"
  by (simp_all add: with_events_def)

lemma seperate_timer_scripts [simp]:
  "to_read (seperate_timer c) = to_read c" "to_write (seperate_timer c) = to_write c"
  by (simp_all add: seperate_timer_def with_http_def Let_def split: option.split)

lemma reset_scripts [simp]: "to_read (reset c) = to_read c" "to_write (reset c) = to_write c"
  by (simp_all add: reset_def Let_def)

lemma handle_write_returns:
  assumes "0 < write_ends (to_write c)"
  shows "returns (handle_write c) (at_most_one_write c)"
proof -
  obtain r where r: "writen (to_write c) (buffer_out (http c)) = Some r"
      "\<And>n b out ws. r = Inr (n, b, out, ws) \<Longrightarrow> write_ends (to_write c) \<le> Suc (write_ends ws)"
    using writen_returns [OF assms, of "buffer_out (http c)"] by (auto simp: returns_def)
  show ?thesis
    unfolding handle_write_def r(1) using r(2)
    by (auto simp: at_most_one_write_def Let_def returns_result split: sum.split)
qed

lemma handle_read_returns:
  assumes "answers (Suc k) c"
  shows "returns (handle_read os c) (answers k)"
proof -
  have one: "answers 1 c" using assms by (simp add: answers_def)
  have enough: "answers k e"
    if "receive_uses c (False, d)" "if is_error (http d) then e = d else at_most_one_write d e" for d e
    using that assms by (auto simp: receive_uses_def at_most_one_write_def answers_def split: if_splits)
  show ?thesis
    unfolding handle_read.simps [of os c]
  proof (rule returns_bind [OF handle_read_body_returns [OF one]])
    fix d assume d: "receive_uses c (False, d)"
    let ?r = "if \<not> is_error (http d) \<and> length (buffer_out (http d)) > 0 then handle_write d else Some (Inr d)"
    have "0 < write_ends (to_write d)" if "\<not> is_error (http d)"
      using that d one by (auto simp: receive_uses_def answers_def)
    then have "returns ?r (\<lambda>e. if is_error (http d) then e = d else at_most_one_write d e)"
      using handle_write_returns [of d] at_most_one_write_refl [of d] by (cases "is_error (http d)") simp_all
    then show "returns (bind_outcome ?r (\<lambda>c.
         if \<not> is_error (http c) \<and> process_state (http c) = STATE_FINISH then
           (if length (buffer_in (http (reset c))) > 0
              \<and> connection_state (http (reset c)) \<noteq> H_DISCONNECTED
            then handle_read os (reset c) else Some (Inr (reset c)))
         else if \<not> is_error (http c) \<and> connection_state (http c) \<noteq> H_DISCONNECTED
         then Some (Inr (with_events (ch_events (chan c) OR EPOLLIN) c))
         else Some (Inr c))) (answers k)"
      by (rule returns_bind) (use enough [OF d] in \<open>auto simp: reset_buffer_in answers_def\<close>)
  qed
qed

text \<open>The connect handler waits for nothing.\<close>

definition same_scripts :: "connection \<Rightarrow> connection \<Rightarrow> bool" where
  "same_scripts c c' \<longleftrightarrow> to_read c' = to_read c \<and> to_write c' = to_write c"

lemma after_ctl_scripts [simp]: "to_read (after_ctl r c) = to_read c" "to_write (after_ctl r c) = to_write c"
  by (cases r; simp add: after_ctl_def link_timer_def with_http_def split: option.split)+

lemma poller_calls_return:
  "same_scripts c0 c \<Longrightarrow> returns (update_poller os timeout c) (same_scripts c0)"
  "same_scripts c0 c \<Longrightarrow> returns (add_to_poller os timeout c) (same_scripts c0)"
  "same_scripts c0 c \<Longrightarrow> returns (handle_close os c) (same_scripts c0)"
  by (auto simp: update_poller_def add_to_poller_def handle_close_def remove_from_poller_def returns_result
      bind_result_Inr same_scripts_def with_http_def Let_def)

lemma same_scripts_simps [simp]:
  "same_scripts c0 (with_events ev c) = same_scripts c0 c" "same_scripts c0 (seperate_timer c) = same_scripts c0 c"
  "same_scripts c0 (shutdown_channel c) = same_scripts c0 c" "same_scripts c c"
  by (simp_all add: same_scripts_def shutdown_channel_def)

lemma handle_connect_returns: "returns (handle_connect os c) (same_scripts c)"
  unfolding handle_connect_def Let_def
  by (auto intro!: returns_bind [OF poller_calls_return(3) [of c]] poller_calls_return)

lemma http_callback_returns:
  assumes "answers (Suc k) c"
  shows "returns (http_callback os cb c) (answers k)"
proof -
  have k: "answers k d" if "same_scripts c d" for d using that assms by (simp add: same_scripts_def answers_def)
  have "answers k d" if "at_most_one_write c d" for d
    using that assms by (simp add: at_most_one_write_def answers_def)
  moreover have "0 < write_ends (to_write c)" using assms by (simp add: answers_def)
  ultimately have "returns (handle_write c) (answers k)" by (intro returns_mono [OF handle_write_returns])
  then show ?thesis
    using handle_read_returns [OF assms] returns_mono [OF handle_connect_returns [of os c] k] k
    by (cases cb) simp_all
qed

section \<open>The dispatch of a channel\<close>

text \<open>A dispatch makes at most three calls, so it returns when three calls would.\<close>

lemma handle_events_returns:
  assumes handler: "\<And>k c s. P (Suc k) s \<Longrightarrow> returns (handle c s) (P k)" and less: "\<And>k s. P (Suc k) s \<Longrightarrow> P k s"
    and upd: "\<And>k ev s. P k s \<Longrightarrow> P k (upd (set_events ev) s)" and "P 3 s"
  shows "returns (handle_events get upd handle s) (P 0)"
proof -
  have call: "returns (call_handler handle h s) (P k)" if "P (Suc k) s" for h k s
    using that handler less by (cases h) simp_all
  have opt: "returns (if b then call_handler handle h s else Some (Inr s)) (P k)" if "P (Suc k) s" for b h k s
    using that call less by simp
  let ?s = "upd (set_events 0) s"
  have three: "P (Suc (Suc (Suc 0))) ?s" using upd [OF \<open>P 3 s\<close>] by (simp add: numeral_3_eq_3)
  have hup: "P 0 (upd (set_events 0) ?s)" using upd three less by blast
  have err: "returns (bind_outcome (call_handler handle h ?s) (\<lambda>s. Some (Inr (upd (set_events 0) s)))) (P 0)" for h
    by (rule returns_bind [OF call [OF three]]) (use upd less in auto)
  have plain: "returns (bind_outcome (if b then call_handler handle h ?s else Some (Inr ?s))
      (\<lambda>s. bind_outcome (if c s then call_handler handle (g s) s else Some (Inr s))
        (\<lambda>s. call_handler handle (e s) s))) (P 0)" for b h c g e
    by (rule returns_bind [OF opt [OF three]], rule returns_bind [OF opt], assumption, rule call)
  show ?thesis
    unfolding handle_events_def Let_def channel_handle_read_def channel_handle_write_def channel_handle_connect_def
    by (rule returns_if, simp add: hup, rule returns_if, rule err, rule plain)
qed

lemma http_handle_events_returns:
  "answers 3 c \<Longrightarrow> returns (http_handle_events os c) (\<lambda>_. True)"
  unfolding http_handle_events_def
  by (rule returns_mono [OF handle_events_returns [where P = answers]])
    (use http_callback_returns in \<open>auto simp: answers_def\<close>)

lemma wakeup_callback_returns: "returns (wakeup_callback ctl_ok alive now cb l) (\<lambda>_. True)"
  by (cases cb) (simp_all add: wakeup_read_counts_nothing returns_result)

lemma wakeup_handle_events_returns: "returns (wakeup_handle_events ctl_ok alive now l) (\<lambda>_. True)"
  unfolding wakeup_handle_events_def
  by (rule handle_events_returns [where P = "\<lambda>_ _. True"]) (rule wakeup_callback_returns, simp_all)

section \<open>A turn\<close>

lemma handle_channel_returns:
  "(n \<noteq> WAKEUP \<Longrightarrow> answers 3 (lw_conns w n)) \<Longrightarrow> returns (handle_channel os n w) (\<lambda>_. True)"
  unfolding handle_channel_def on_conn_def
  by (auto intro!: returns_bind wakeup_handle_events_returns http_handle_events_returns simp: answers_def conn_of_def)

text \<open>Handling one channel leaves the scripts of the others alone; no channel is handled twice.\<close>

lemma handle_channel_others:
  "handle_channel os n w = Some (Inr w') \<Longrightarrow> m \<noteq> n \<Longrightarrow> lw_conns w' m = lw_conns w m"
  by (auto simp: handle_channel_def bind_outcome_Some_Inr on_conn_Inr split: if_splits)

lemma handle_channels_returns:
  "distinct (filter (\<lambda>n. n \<noteq> WAKEUP) ns) \<Longrightarrow> \<forall>n \<in> set ns. n \<noteq> WAKEUP \<longrightarrow> answers 3 (lw_conns w n) \<Longrightarrow>
   returns (handle_channels os ns w) (\<lambda>_. True)"
proof (induction ns arbitrary: w)
  case (Cons n ns)
  have "returns (handle_channel os n w) (\<lambda>v. handle_channel os n w = Some (Inr v))"
    using handle_channel_returns [of n w os] Cons.prems(2) by (auto simp: returns_def)
  then show ?case
    unfolding handle_channels.simps
  proof (rule returns_bind)
    fix v assume v: "handle_channel os n w = Some (Inr v)"
    have "answers 3 (lw_conns v m)" if "m \<in> set ns" "m \<noteq> WAKEUP" for m
    proof (cases "m = n")
      case True
      then show ?thesis using that Cons.prems(1) by simp
    next
      case False
      then show ?thesis using handle_channel_others [OF v] that Cons.prems(2) by simp
    qed
    then show "returns (handle_channels os ns v) (\<lambda>_. True)"
      using Cons.IH [of v] Cons.prems(1) by (simp split: if_splits)
  qed
qed simp

lemma call_new_events_returns: "returns (call_new_events os fs w) (\<lambda>_. True)"
proof (induction fs arbitrary: w)
  case (Cons f fs)
  have "returns (new_event os c) (\<lambda>_. True)" for c
    unfolding new_event_def by (rule returns_mono [OF poller_calls_return(2) [of c]]) simp_all
  then have "returns (call_new_event os f w) (\<lambda>_. True)"
    by (cases f) (auto simp: on_conn_def intro!: returns_bind)
  then show ?case by (auto intro: returns_bind Cons.IH)
qed simp

lemma pending_new_events_returns: "returns (pending_new_events os w) (\<lambda>_. True)"
  unfolding pending_new_events_def
  by (auto intro: returns_bind [OF call_new_events_returns] split: prod.split)

lemma close_all_returns: "returns (close_all os hs w) (\<lambda>_. True)"
proof (induction hs arbitrary: w)
  case (Cons h hs)
  have "returns (handle_close os c) (\<lambda>_. True)" for c
    by (rule returns_mono [OF poller_calls_return(3) [of c]]) simp_all
  then have "returns (on_conn h (handle_close os) w) (\<lambda>_. True)"
    by (auto simp: on_conn_def intro!: returns_bind)
  then show ?case by (auto intro: returns_bind Cons.IH)
qed simp

text \<open>The channels a poll reports in a run are distinct, but for the wake-up channel.\<close>

lemma polled_distinct:
  assumes "tables_ok w" and "map (fd_to_channel (the_poller w)) ds = map Some ns" and "distinct ds"
  shows "distinct (filter (\<lambda>n. n \<noteq> WAKEUP) ns)"
  using assms(2,3)
proof (induction ns arbitrary: ds)
  case (Cons n ns)
  then obtain e es where ds: "ds = e # es" "fd_to_channel (the_poller w) e = Some n"
      "map (fd_to_channel (the_poller w)) es = map Some ns" by auto
  have "n \<notin> set ns" if n: "n \<noteq> WAKEUP"
  proof
    assume "n \<in> set ns"
    then have "Some n \<in> set (map (fd_to_channel (the_poller w)) es)" using ds(3) by simp
    then obtain d where "d \<in> set es" "fd_to_channel (the_poller w) d = Some n" by auto
    moreover have "d = ch_fd (chan (lw_conns w n))" "e = ch_fd (chan (lw_conns w n))"
      using calculation(2) ds(2) assms(1) n unfolding tables_ok_def by metis+
    ultimately show False using Cons.prems(2) ds(1) by simp
  qed
  then show ?case using Cons.IH [OF ds(3)] Cons.prems(2) ds(1) by auto
qed simp

text \<open>For the witnesses: input on connection 3, and what the poll makes of it.\<close>

definition demo_input :: "reads \<Rightarrow> writes \<Rightarrow> loop_world \<Rightarrow> loop_world" where
  "demo_input es ws u = u\<lparr>lw_conns := (lw_conns u)(3 := (lw_conns u 3)\<lparr>to_read := es, to_write := ws\<rparr>)\<rparr>"

definition demo_reported :: "loop_world \<Rightarrow> nat \<Rightarrow> channel_state" where
  "demo_reported w = (channels_of w)(3 := set_events 0 (set_revents EPOLLIN (channels_of w 3)))"

lemma demo_once: "reports_once [Ret [(7, EPOLLIN)]]"
  by (simp add: reports_once_def wait_events_def)

lemma demo_polled:
  assumes "run world_step demo_world u" and "fd_to_channel (the_poller u) 7 = Some 3"
  shows "run world_step demo_world (demo_input es ws u)"
    and "poll (the_poller (demo_input es ws u)) [Ret [(7, EPOLLIN)]] (channels_of (demo_input es ws u))
      = Some (Inr ([] @ 3 # [], demo_reported (demo_input es ws u), []))"
    and "lw_conns (demo_input es ws u) 3 = (lw_conns u 3)\<lparr>to_read := es, to_write := ws\<rparr>"
    and "ch_revents (demo_reported (demo_input es ws u) 3) = EPOLLIN"
proof -
  show "run world_step demo_world (demo_input es ws u)"
    unfolding demo_input_def by (rule run_trans [OF run_single [of world_step, OF input] assms(1)])
  have "the_poller (demo_input es ws u) = the_poller u" by (simp add: the_poller_def demo_input_def)
  then show "poll (the_poller (demo_input es ws u)) [Ret [(7, EPOLLIN)]] (channels_of (demo_input es ws u))
      = Some (Inr ([] @ 3 # [], demo_reported (demo_input es ws u), []))"
    using assms(2) by (simp add: MAX_FDS_def demo_reported_def)
qed (simp_all add: demo_input_def demo_reported_def set_events_def set_revents_def)

text \<open>
  C19. A turn of the loop comes to its end once the poll has returned: in every run of turns, arrivals and
  input, when each connection the poll reports has enough ended answers on its socket for the three
  handlers an event can run (three ended reads and six ended writes, so that no handler waits for ever
  on a busy socket), the turn comes back with a result, which may be a fault: it does not wait and does
  not go round for ever. The wake-up channel, the queued functors and the sweep of the
  timers need nothing, and no connection is handled twice in a turn.
\<close>

theorem loop_turn_returns:
  assumes "fresh_world v" and "run world_step v w" and "reports_once ws"
    and "poll (the_poller w) ws (channels_of w) = Some (Inr (result, chs, ws'))"
    and "\<forall>n \<in> set result. n \<noteq> WAKEUP \<longrightarrow> answers 3 (lw_conns w n)"
  shows "\<exists>r. loop_turn os clock ws w = Some r"
proof -
  have tab: "tables_ok w" using world_sys.reach_inv [OF assms(1,2)] by (simp add: world_inv_def world_ok_def)
  obtain ds where "map (fd_to_channel (the_poller w)) ds = map Some result" "distinct ds"
    using poll_from [OF assms(4,3)] by blast
  from polled_distinct [OF tab this] have d: "distinct (filter (\<lambda>n. n \<noteq> WAKEUP) result)" .
  let ?w = "set_handling True (put_channels chs w)"
  have "answers 3 (lw_conns ?w n)" if "n \<in> set result" "n \<noteq> WAKEUP" for n
    using assms(5) that by (simp add: set_handling_def put_channels_def answers_def)
  then have "returns (handle_channels os result ?w) (\<lambda>_. True)" using handle_channels_returns d by blast
  moreover have "returns (sweep_timers os clock u) (\<lambda>_. True)" for u
    unfolding sweep_timers_def by (simp add: close_all_returns split: prod.split)
  ultimately have "returns (loop_turn os clock ws w) (\<lambda>_. True)"
    unfolding loop_turn_def assms(4) by (auto intro!: returns_bind pending_new_events_returns)
  then show ?thesis by (auto simp: returns_def)
qed

theorem loop_turn_returns_witness:
  "\<exists>w r. run world_step demo_world w \<and> answers 3 (lw_conns w 3)
    \<and> loop_turn demo_os (\<lambda>_. (1, 0)) [Ret [(7, EPOLLIN)]] w = Some r"
proof -
  obtain u where u: "run world_step demo_world u" "fd_to_channel (the_poller u) 7 = Some 3"
    using demo_registered by metis
  note d = demo_polled [OF u, of "replicate 3 (Err EAGAIN)" "replicate 6 (Err EAGAIN)"]
  have "answers 3 (lw_conns (demo_input (replicate 3 (Err EAGAIN)) (replicate 6 (Err EAGAIN)) u) 3)"
    unfolding d(3) by (simp add: answers_def read_ends_def write_ends_def)
  with loop_turn_returns [OF demo_fresh_world d(1) demo_once d(2), of demo_os "\<lambda>_. (1, 0)"] d(1) show ?thesis by auto
qed

end
