(* ===== verification/Loop_Serves.thy ===== *)
theory Loop_Serves
  imports Loop_Returns
begin

text \<open>
  From the poll through the turn to the handlers of one connection: the first request a loop serves, and
  a client that keeps sending.
\<close>

section \<open>The channels of a turn one after the other\<close>

lemma handle_channels_append:
  "handle_channels os (xs @ ys) = (\<lambda>w. bind_outcome (handle_channels os xs w) (handle_channels os ys))"
proof (induction xs)
  case (Cons x xs)
  show ?case by (rule ext) (simp add: Cons.IH bind_outcome_assoc)
qed (rule ext, simp)

lemma handle_channels_others:
  "handle_channels os ns w = Some (Inr w') \<Longrightarrow> m \<notin> set ns \<Longrightarrow> lw_conns w' m = lw_conns w m"
  by (induction ns arbitrary: w) (auto simp: bind_outcome_Some_Inr dest: handle_channel_others)

text \<open>
  What a turn calls first on a polled connection: the dispatch of its events, on the object as the poll
  has left it, which is owned and whose channel has the handlers of the constructor.
\<close>

lemma polled_connection:
  assumes "fresh_world v" and "run world_step v w" and "reports_once ws"
    and "poll (the_poller w) ws (channels_of w) = Some (Inr (xs @ n # ys, chs, ws'))"
    and "handle_channels os xs (set_handling True (put_channels chs w)) = Some (Inr u)" and "n \<noteq> WAKEUP"
  shows "loop_turn os clock ws w = bind_outcome (on_conn n (http_handle_events os) u) (\<lambda>w.
       bind_outcome (handle_channels os ys w) (\<lambda>w.
         bind_outcome (pending_new_events os (set_handling False w)) (\<lambda>w.
           bind_outcome (sweep_timers os clock w) (\<lambda>w. Some (Inr (w, ws'))))))"
    and "lw_conns u n = (lw_conns w n)\<lparr>chan := chs n\<rparr>" and "object_ok (conn_of n u)"
proof -
  let ?w = "set_handling True (put_channels chs w)" and ?fs = "pending_functors (lw_loop w)"
  have inv: "world_ok ?fs w" using world_sys.reach_inv [OF assms(1,2)] by (simp add: world_inv_def)
  obtain ds where ds: "map (fd_to_channel (the_poller w)) ds = map Some (xs @ n # ys)" "distinct ds"
      and slots: "\<And>k. same_slot (channels_of w k) (chs k)"
    using poll_from [OF assms(4,3)] by blast
  have pol: "the_poller ?w = the_poller w" by (simp add: set_handling_def put_channels_def the_poller_def)
  have ok: "world_ok ?fs ?w"
    unfolding set_handling_def by (rule world_ok_loop [OF put_channels_ok [OF inv slots]]) (simp add: the_poller_def)
  have "owned (conn_of n u)" by (rule polled_owned [OF ok assms(5) _ ds(2) assms(6)]) (simp only: pol ds(1))
  then show "loop_turn os clock ws w = bind_outcome (on_conn n (http_handle_events os) u) (\<lambda>w.
       bind_outcome (handle_channels os ys w) (\<lambda>w.
         bind_outcome (pending_new_events os (set_handling False w)) (\<lambda>w.
           bind_outcome (sweep_timers os clock w) (\<lambda>w. Some (Inr (w, ws'))))))"
    using assms(6) by (simp add: loop_turn_def assms(4,5) handle_channels_append handle_channel_def bind_outcome_assoc)
  have "tables_ok w" using inv by (simp add: world_ok_def)
  from polled_distinct [OF this ds] have "n \<notin> set xs" using assms(6) by auto
  from handle_channels_others [OF assms(5) this] show "lw_conns u n = (lw_conns w n)\<lparr>chan := chs n\<rparr>"
    using assms(6) by (simp add: set_handling_def put_channels_def)
  show "object_ok (conn_of n u)"
    using handle_channels_ok [OF ok assms(5)] assms(6) by (simp add: world_ok_def objects_ok_def)
qed

text \<open>
  C18. The first file that a client takes whole ends the program: in every run, when the poll reports that
  a connection between two requests can be read, its socket holds a complete \<open>GET\<close> of a readable file of
  less than 2 GiB, and the socket takes every byte of the answer during the handler, in one write or in
  several with interruptions, then the turn ends in undefined behaviour, whatever the channels before it
  did. The connect handler, which the channel calls behind the read handler, finds no event requested,
  closes the connection, which releases the last owner of the object, and goes on to use the object. When
  the socket leaves a part of the answer in the output buffer, \<open>EPOLLOUT\<close> is requested and nothing is
  closed in this turn: that case is outside this property.
\<close>

theorem served_request_ends_program:
  assumes "fresh_world v" and "run world_step v w" and "reports_once ws"
    and "poll (the_poller w) ws (channels_of w) = Some (Inr (xs @ n # ys, chs, ws'))"
    and "handle_channels os xs (set_handling True (put_channels chs w)) = Some (Inr u)"
    and "n \<noteq> WAKEUP" and "ch_revents (chs n) = EPOLLIN" and "idle (lw_conns w n)"
    and "ok_request METHOD_GET f ver hs body"
    and "receives (request_text ''GET'' f (version_word ver) hs body) es (lw_conns w n)"
    and "target_file f \<noteq> ''hello''" and "target_file f \<noteq> ''favicon.ico''"
    and "fs_stat os (c_str (target_file f)) = Some k" and "fs_open os (c_str (target_file f))"
    and "fs_mmap os (c_str (target_file f)) k = Some content"
    and "writen (to_write (lw_conns w n)) content = Some (Inr (m, [], out, rest))" and "length content < 2147483648"
  shows "loop_turn os clock ws w = Some (Inl Undefined_Behaviour)"
proof -
  note p = polled_connection [OF assms(1-6)]
  let ?c = "conn_of n u"
  have c: "http ?c = http (lw_conns w n)" "chan ?c = chs n" "to_read ?c = to_read (lw_conns w n)"
      "writen (to_write ?c) content = Some (Inr (m, [], out, rest))"
    using p(2) assms(16) by (simp_all add: conn_of_def)
  have idle: "idle ?c" and rcv: "receives (request_text ''GET'' f (version_word ver) hs body) es ?c"
    using assms(8,10) c by (simp_all add: idle_def receives_def)
  have obj: "single_timer ?c" "ch_fd (chan ?c) < MAX_FDS" "read_handler (chan ?c) = Some Http_Handle_Read"
      "connect_handler (chan ?c) = Some Http_Handle_Connect"
    using p(3) by (simp_all add: object_ok_def bound_def handlers_of_def)
  have "http_handle_events os ?c = Some (Inl Undefined_Behaviour)"
    by (rule read_event_use_after_free [OF idle assms(9) rcv assms(11-15) c(4) assms(17) obj(1,2) _ obj(3,4)])
      (simp_all add: p(2) assms(7))
  then show ?thesis by (simp add: p(1) on_conn_def)
qed

theorem served_request_ends_program_witness:
  "\<exists>w. run world_step demo_world w
    \<and> loop_turn demo_os (\<lambda>_. (1, 0)) [Ret [(7, EPOLLIN)]] w = Some (Inl Undefined_Behaviour)"
proof -
  obtain u where u: "run world_step demo_world u" "fd_to_channel (the_poller u) 7 = Some 3" "idle (lw_conns u 3)"
    using demo_registered by metis
  let ?t = "request_text ''GET'' ''a.txt'' ''1.1'' [(''Host'', ''h'')] []"
  let ?w = "demo_input [Ret ?t, Err EAGAIN] [Ret 1, Err EINTR, Ret 1] u"
  note d = demo_polled [OF u(1,2), of "[Ret ?t, Err EAGAIN]" "[Ret 1, Err EINTR, Ret 1]"]
  have i: "idle (lw_conns ?w 3)" unfolding d(3) using u(3) by (simp add: idle_def)
  then have r: "receives ?t [] (lw_conns ?w 3)"
    unfolding d(3) by (simp add: receives_def idle_def Let_def request_text_def request_line_def)
  have wr: "writen (to_write (lw_conns ?w 3)) ''xx'' = Some (Inr (2, [], ''xx'', []))"
    unfolding d(3) by (simp add: writen_def write_loop.simps cut_written_def to_int32_def)
  have "loop_turn demo_os (\<lambda>_. (1, 0)) [Ret [(7, EPOLLIN)]] ?w = Some (Inl Undefined_Behaviour)"
    by (rule served_request_ends_program [OF demo_fresh_world d(1) demo_once d(2) _ _ d(4) i, where f = "''a.txt''" and ver = HTTP_11
          and hs = "[(''Host'', ''h'')]" and body = "[]" and es = "[]" and k = 2 and content = "''xx''" and m = 2 and out = "''xx''"
          and rest = "[]"])
      (use r wr in \<open>simp_all add: demo_request demo_os_def target_file_def c_str_def WAKEUP_def numeral_2_eq_2\<close>)
  with d(1) show ?thesis by blast
qed

section \<open>A client that keeps sending\<close>

lemma readn_zero_waits: "list_all (\<lambda>e. \<not> ends_reading e) es \<Longrightarrow> readn_zero es b zero s = None"
proof (induction es b zero s rule: readn_zero.induct)
  case (2 e es b zero s)
  then show ?case by (cases e) auto
next
  case (3 bs es b zero s)
  then show ?case by (auto simp: Let_def)
qed simp

lemma handle_read_waits:
  assumes "list_all (\<lambda>e. \<not> ends_reading e) (to_read c)"
  shows "handle_read os c = None"
  using readn_zero_waits [OF assms]
  by (simp add: handle_read.simps [of os c] handle_read_body_def and_then_def stage_receive_def)

text \<open>
  C20. One client can stop a loop with all its connections: in every run, when the poll reports that a
  connection can be read and its socket never runs dry (each read is interrupted or brings more bytes,
  however many there are), then the turn does not end, because the read handler reads until the socket
  is empty and not for a bounded number of times.
\<close>

theorem busy_client_stops_loop:
  assumes "fresh_world v" and "run world_step v w" and "reports_once ws"
    and "poll (the_poller w) ws (channels_of w) = Some (Inr (xs @ n # ys, chs, ws'))"
    and "handle_channels os xs (set_handling True (put_channels chs w)) = Some (Inr u)"
    and "n \<noteq> WAKEUP" and "ch_revents (chs n) = EPOLLIN"
    and "list_all (\<lambda>e. \<not> ends_reading e) (to_read (lw_conns w n))"
  shows "loop_turn os clock ws w = None"
proof -
  note p = polled_connection [OF assms(1-6)]
  let ?c = "conn_of n u"
  have c: "chan ?c = chs n" "to_read ?c = to_read (lw_conns w n)" using p(2) by (simp_all add: conn_of_def)
  have "read_handler (chan ?c) = Some Http_Handle_Read"
    using p(3) by (simp add: object_ok_def bound_def handlers_of_def)
  then have "http_handle_events os ?c = None"
    using handle_read_waits [of "?c\<lparr>chan := set_events 0 (chan ?c)\<rparr>" os] c assms(7,8)
    by (simp add: http_handle_events_def handle_events_def channel_handle_read_def Let_def)
  then show ?thesis by (simp add: p(1) on_conn_def)
qed

theorem busy_client_stops_loop_witness:
  "\<exists>w. run world_step demo_world w \<and> to_read (lw_conns w 3) = [Ret ''GET'', Err EINTR, Ret '' /'']
    \<and> loop_turn demo_os (\<lambda>_. (1, 0)) [Ret [(7, EPOLLIN)]] w = None"
proof -
  obtain u where u: "run world_step demo_world u" "fd_to_channel (the_poller u) 7 = Some 3"
    using demo_registered by metis
  note d = demo_polled [OF u, of "[Ret ''GET'', Err EINTR, Ret '' /'']" "[]"]
  have "loop_turn demo_os (\<lambda>_. (1, 0)) [Ret [(7, EPOLLIN)]] (demo_input [Ret ''GET'', Err EINTR, Ret '' /''] [] u) = None"
    by (rule busy_client_stops_loop [OF demo_fresh_world d(1) demo_once d(2) _ _ d(4)]) (simp_all add: WAKEUP_def d(3))
  with d(1,3) show ?thesis by auto
qed

end
