(* ===== verification/Spec2Isabelle.thy ===== *)
theory Spec2Isabelle
  imports Prelude Cpp_String Http_Types Http_Parse Http_Headers Util_IO Timer_Queue Channel Epoll Http_Mime
    Http_Data Http_Requests Http_Lifecycle Http_Invariants Thread_Pool Thread_Pool_Run Log_Buffer Log_File
    Logging Logger Thread_Sync Event_Loop Event_Loop_Threads Server Packer Nanolog_Util Mutex Latch_Code Conn_Frame
    Loop_Turn Loop_World Server_Loops Http_Segments Logging_Overrun Nanolog_Front Nanolog_Cpu Client_Test
    Loop_Handshake Loop_Returns Loop_Serves
begin

text \<open>
  FastWebServer is a web server in the one-loop-per-thread style: the main thread accepts connections
  (\<open>main.cpp\<close>, \<open>Server.cpp\<close>) and hands each to one of several event loops (\<open>EventLoopThreadPool.cpp\<close>,
  \<open>EventLoopThread.cpp\<close>). A loop (\<open>EventLoop.cpp\<close>) polls through \<open>Epoll.cpp\<close>, lets the channel of every
  ready descriptor (\<open>Channel.cpp\<close>) call its handlers, runs the functors other threads have queued and
  sweeps the timers (\<open>Timer.cpp\<close>) that close idle connections. The handlers of a connection
  (\<open>HttpData.cpp\<close>) read with the loops of \<open>Util.cpp\<close>, parse the request with a state machine that
  survives between reads, and write the answer. Beside these there are a thread pool
  (\<open>ThreadPool.cpp\<close>), a log with a writing thread (\<open>include/Log\<close>), the thread and latch classes of
  \<open>include\<close>, the beginnings of a compressed log (\<open>include/Nanolog\<close>), and a program that tries the server
  with three requests (\<open>client_test.cpp\<close>).

  The sources do not compile as they stand (misspelt names, calls of overloads that do not exist,
  missing brackets). Where the meaning is clear the model follows it, and the text beside the
  definition says so; logic is never repaired.

  \<^bold>\<open>Conventions.\<close> A class is a record, a method a function on it. Exceptions, failed assertions,
  \<open>abort\<close> and undefined behaviour are values of \<open>fault\<close> on the left of a sum (\<open>result\<close>); a call that
  waits for the kernel and has not returned is \<open>None\<close> (\<open>outcome\<close>). The kernel and the C library are
  arguments: lists of the results of successive calls, or functions. \<open>int\<close> is an integer with its
  two's complement conversion written out, \<open>size_t\<close> a natural number with its wrap-around, masks and
  packed integers are words. Memory and buffers are lists overwritten in place. Concurrency is a
  step relation (or a list of events) whose steps lie between the points where a mutex is free.

  \<^bold>\<open>Theories and sources.\<close>
  \<^item> \<open>Prelude\<close>: faults, \<open>bind_result\<close> and \<open>bind_outcome\<close>, machine integers, raw memory, and the locales
    \<open>invariant_system\<close> (what holds initially and is kept by every step holds in every run) and
    \<open>simulation\<close> (every step of a system is a step, or none, of an abstract one).
  \<^item> \<open>Cpp_String\<close>: the members of \<open>std::string\<close> the parsers use, \<open>to_string\<close> and \<open>stoi\<close>.
  \<^item> \<open>Http_Types\<close>, \<open>Http_Parse\<close>, \<open>Http_Headers\<close>: the enumerations and the state of \<open>HttpData.h\<close>;
    \<open>parse_URI\<close> and \<open>parse_Headers\<close> with their positions and the automaton that is kept in the object.
  \<^item> \<open>Http_Mime\<close>, \<open>Http_Data\<close>: the types of files; a connection (object, channel, poller, buffers and
    the history of socket operations) and every handler: \<open>handle_read\<close> in its stages, the answers,
    \<open>handle_write\<close>, \<open>handle_connect\<close>, \<open>handle_close\<close>, \<open>reset\<close>, \<open>new_event\<close>.
  \<^item> \<open>Http_Requests\<close>, \<open>Http_Lifecycle\<close>, \<open>Http_Invariants\<close>: what requests lead to from the bytes on the
    socket to the answer; closing and the lifetime of the object; the phases of the state machine and
    the ownership of timers as invariants of every run of handlers (\<open>conn_sys\<close>). \<open>Http_Segments\<close>:
    request lines that arrive in pieces.
  \<^item> \<open>Util_IO\<close>: the read and write loops over scripts of system-call results, the socket set-up.
  \<^item> \<open>Timer_Queue\<close>: timers and their queue; the locales \<open>priority_queue\<close> (contract of
    \<open>std::priority_queue\<close>) and \<open>expiring_queue\<close>, interpreted on the sorted list of the model.
  \<^item> \<open>Channel\<close>, \<open>Epoll\<close>: dispatch of reported events; descriptor tables, \<open>epoll_ctl\<close> and \<open>poll\<close>
    (\<open>epoll_sys\<close>).
  \<^item> \<open>Thread_Pool\<close>, \<open>Thread_Pool_Run\<close>: the ring buffer (locale \<open>bounded_fifo\<close>) and the workers and
    clients over one mutex and one condition (\<open>pool_sys\<close>).
  \<^item> \<open>Log_Buffer\<close>, \<open>Log_File\<close>, \<open>Logging\<close>, \<open>Logger\<close>: \<open>LogBuffer.h\<close> and the insertion operators (locale
    \<open>bounded_text\<close>), \<open>LogUtil.cpp\<close>, the double-buffered log and its thread, a \<open>LOG\<close> statement from its
    arguments to the log. \<open>Logging_Overrun\<close>: the log behind its limit of 25 buffers.
  \<^item> \<open>Mutex\<close>, \<open>Thread_Sync\<close>, \<open>Latch_Code\<close>: \<open>MutexLock.h\<close> and \<open>Condition.cpp\<close> with the timed wait;
    \<open>CountDownLatch\<close> with atomic blocks (\<open>latch_sys\<close>), \<open>Thread\<close>, \<open>CurrentThread\<close>; the latch statement by
    statement over mutex and condition, which simulates the atomic one (\<open>latch_sim\<close>).
  \<^item> \<open>Event_Loop\<close>: the loop, its functors and its wake-up, as a system of the loop thread and any number
    of other threads (\<open>loop_sys\<close>, \<open>wake_sys\<close>).
  \<^item> \<open>Conn_Frame\<close>, \<open>Loop_Turn\<close>, \<open>Loop_World\<close>: what the handlers of one connection leave alone in the tables
    and timers of the others; a turn of the loop with its connection objects, from the poll through the
    channels to the handlers, the queued \<open>new_event\<close> calls and the sweep; runs of turns, arrivals and
    input (\<open>world_sys\<close>). \<open>Loop_Returns\<close>: a turn ends once its poll has returned.
    \<open>Loop_Serves\<close>: the turn that serves the first file, and a client that keeps sending.
  \<^item> \<open>Event_Loop_Threads\<close>, \<open>Server\<close>: the handshake that publishes a loop, the pool of loops, accepting,
    and the options of \<open>main\<close>. \<open>Server_Loops\<close>: the accepting thread and the loops together.
    \<open>Loop_Handshake\<close>: \<open>EventLoopThread.cpp\<close> statement by statement (\<open>handshake_sys\<close>).
  \<^item> \<open>Packer\<close>, \<open>Nanolog_Util\<close>, \<open>Nanolog_Cpu\<close>, \<open>Nanolog_Front\<close>: \<open>Packer.h\<close> (locale \<open>codec\<close>, interpreted for
    the four integer types); formatting and the hexadecimal dump; counters and processor affinity; the
    classes of format characters and the scan of a format string.
  \<^item> \<open>Client_Test\<close>: the three tests of \<open>client_test.cpp\<close>, run against the handlers of \<open>Http_Data\<close>.

  \<^bold>\<open>What the lemmas show.\<close> For the parsers: totality, the result on well-formed
  input, and what happens to input that arrives in pieces. For connections: the answer to each kind of
  request, including those that are not answered and the use of a destroyed object, and invariants over
  all sequences of handlers. For a loop with its connections: events reach only living objects, the
  sweep closes what has expired, a turn ends when the sockets it serves do not block for ever, the turn
  that serves a file whole uses a destroyed object, a client that keeps sending stops its loop, and the
  connections the accept loop makes are never served. For input and output: no byte is lost or repeated
  by the read and write loops, and the exception, the loop over raw memory. For timers: sweeping, and
  expiry within a period and across its end. For the poller, the pool, the log, the loop and the latch:
  invariants of all interleavings. For the log: decimal text, bounds of the buffers, order and
  completeness of lines, the two ways a chain of insertions leaves its buffer, what an overrun drops, and the assertion that ends the writing thread. For
  packing: round trips and the size of a package. For the latch and for the handshake that publishes a
  loop: their statements implement the atomic models. For the pool and the handshake no wake-up is lost:
  the threads go on by their own steps without a spurious one. For the handshake also what the destructor of a
  loop thread can wait for. For the test client: what it prints when it is run against the server.

  \<^bold>\<open>Bounds and fuel.\<close> There is no fuel. Loops over scripts end with the script (\<open>None\<close> when it is used
  up); loops over data are functions with a termination proof; the two loops that may not end
  (\<open>accept_loop\<close>, \<open>option_loop\<close>) are partial functions and are proved to run for ever. Bounds that
  occur as hypotheses are those of the code: 2 GiB where a position passes through \<open>int\<close>, 4096 bytes of
  a log buffer, 51200 bytes of log text, which fill at most the 25 buffers the writing thread keeps.

  \<^bold>\<open>Assumptions on code outside.\<close> \<open>std::priority_queue\<close> by the laws of its locale; \<open>eventfd\<close>, \<open>read\<close>,
  \<open>write\<close>, \<open>epoll_wait\<close>, \<open>fwrite\<close> by what their results may be; \<open>pthread\<close> mutexes and conditions by
  exclusion, loss of a signal without waiter and spurious wake-ups; one call of \<open>epoll_wait\<close> reports a
  descriptor at most once, and \<open>epoll_ctl\<close> refuses to add a descriptor twice, where a property says so;
  an argument \<open>reads\<close> or \<open>writes\<close> of a connection is what the socket answers, partial writes and errors
  included; a kernel refuses an empty set of processors; a text under \<open>%.12g\<close> has at most
  19 characters.

  \<^bold>\<open>Not modelled.\<close> Log lines and \<open>perror\<close> inside the server, which have no effect on its state as long as
  what they log is below 2 GiB: \<open>HttpData.cpp\<close> logs the whole input buffer, which has no bound, and
  \<open>Log_Buffer\<close> shows what a longer text does to a line buffer; the moment inside \<open>thread_pool_create\<close>
  between the creation of a worker and \<open>started_++\<close> (the runs of \<open>Thread_Pool_Run\<close> begin when it has
  returned);
  \<open>noncopyable.h\<close>, \<open>Portability.h\<close> and \<open>Cycles\<close> (declarations and macros only); what follows the point
  where \<open>Nanolog.h\<close> breaks off inside a statement; the destructor of \<open>Condition\<close> and the first statement
  of \<open>EventLoop::handle_connect\<close>, whose callees do not exist; \<open>AppendLog::roll_file\<close>, the destructors of
  \<open>HttpData\<close> and \<open>AppendLog\<close>, which are declared and never defined; the address and the pauses of the
  test client; the generated files under \<open>cmake-build-debug\<close>.
\<close>

end
